(* ===== verification/Prelude.thy ===== *)
theory Prelude
  imports Main "HOL-Library.Word" "HOL-Library.AList" "HOL-Library.Char_ord"
    "HOL-Library.List_Lexorder" "HOL-Library.Multiset"
begin

section \<open>Shared types, errors and generic lemmas\<close>

text \<open>
  What every component of the model uses: the Go types as HOL types, the values of Go's
  \<open>error\<close> interface, the two ways a Go function can fail to return (a run-time panic and a loop
  that does not end), Go maps as association lists with distinct keys, and the generic
  lemmas about them.

  A Go \<open>string\<close> is a sequence of bytes, modelled as HOL's \<open>string\<close> (its \<open>char\<close>s are
  bytes); \<open>[]byte\<close> is a list of \<open>8 word\<close>; \<open>uint64\<close> and \<open>int64\<close> are both
  \<open>64 word\<close>, so that the conversion \<open>uint64(n)\<close> of an \<open>int64\<close> is the identity on the
  bits, and a signed reading is \<open>sint\<close>. The length of a Go slice or string is an \<open>int\<close>:
  \<open>sized\<close> says that a HOL list has a length Go can represent.
\<close>

type_synonym byte = "8 word"
type_synonym bytes = "byte list"
type_synonym u64 = "64 word"
type_synonym i64 = "64 word"

named_theorems byte_lengths \<open>lengths of encodings, digests and fixed-width fields\<close>
named_theorems go_defs \<open>small wrappers that proofs unfold\<close>

definition sized :: "'a list \<Rightarrow> bool" where
  "sized xs \<longleftrightarrow> length xs < 2 ^ 63"

subsection \<open>Errors, panics and loops that do not return\<close>

text \<open>
  A Go \<open>error\<close> is one of the sentinel values the code compares with \<open>errors.Is\<close>, or an
  error that only carries text. Reading past the end of a \<open>bytes.Reader\<close> gives
  \<open>io.EOF\<close> or \<open>io.ErrUnexpectedEOF\<close>.
\<close>

datatype error =
    ErrUnauthorized
  | ErrImmutable
  | ErrEOF
  | ErrUnexpectedEOF
  | ErrText string

fun error_text :: "error \<Rightarrow> string" where
  "error_text ErrUnauthorized = ''control: unauthorized''"
| "error_text ErrImmutable = ''witness: refusing to overwrite an already-anchored checkpoint''"
| "error_text ErrEOF = ''EOF''"
| "error_text ErrUnexpectedEOF = ''unexpected EOF''"
| "error_text (ErrText s) = s"

text \<open>A call that does not return: it panics, or it loops for ever.\<close>

datatype fault = Panic | Diverge

text \<open>How a call that yields a value or an error can fail to yield a value.\<close>

datatype failure = Fault fault | Failed error

text \<open>
  \<open>make([]T, n)\<close> panics when the \<open>n\<close> elements need more than the largest allocation of the
  run-time, \<open>2^48\<close> bytes on a 64-bit Linux, or when \<open>n\<close>, read as a signed \<open>int\<close>, is
  negative (the second case is part of the first when \<open>n\<close> is read as unsigned).
\<close>

definition make_panics :: "nat \<Rightarrow> u64 \<Rightarrow> bool" where
  "make_panics elem_size n \<longleftrightarrow> elem_size * unat n > 2 ^ 48"

subsection \<open>Strings and bytes\<close>

text \<open>The conversions \<open>[]byte(s)\<close> and \<open>string(b)\<close>, byte for byte.\<close>

definition byte_of_char :: "char \<Rightarrow> byte" where
  "byte_of_char c = word_of_nat (of_char c)"

definition char_of_byte :: "byte \<Rightarrow> char" where
  "char_of_byte b = char_of (unat b)"

definition bytes_of :: "string \<Rightarrow> bytes" where
  "bytes_of s = map byte_of_char s"

definition string_of :: "bytes \<Rightarrow> string" where
  "string_of b = map char_of_byte b"

lemma char_of_byte_of_char [simp]: "char_of_byte (byte_of_char c) = c"
proof -
  have "(of_char c :: nat) < 2 ^ LENGTH(8)"
    using nat_of_char_less_256 [of c] by simp
  then have "unat (word_of_nat (of_char c) :: byte) = of_char c"
    by (simp add: unat_of_nat)
  then show ?thesis
    by (simp add: char_of_byte_def byte_of_char_def)
qed

lemma byte_of_char_of_byte [simp]: "byte_of_char (char_of_byte b) = b"
proof -
  have "unat b < 256"
    using unsigned_less [of b, where ?'a = nat] by simp
  then show ?thesis
    by (simp add: char_of_byte_def byte_of_char_def)
qed

lemma string_of_bytes_of [simp]: "string_of (bytes_of s) = s"
  by (simp add: string_of_def bytes_of_def comp_def)

lemma bytes_of_string_of [simp]: "bytes_of (string_of b) = b"
  by (simp add: string_of_def bytes_of_def comp_def)

lemma bytes_of_inject [simp]: "bytes_of s = bytes_of t \<longleftrightarrow> s = t"
  by (metis string_of_bytes_of)

lemma length_bytes_of [simp, byte_lengths]: "length (bytes_of s) = length s"
  by (simp add: bytes_of_def)

lemma length_string_of [simp]: "length (string_of b) = length b"
  by (simp add: string_of_def)

subsection \<open>Big-endian 64-bit integers\<close>

text \<open>\<open>binary.BigEndian.PutUint64\<close>: byte \<open>i\<close> is \<open>v >> (56 - 8 * i)\<close>.\<close>

definition put_uint64 :: "u64 \<Rightarrow> bytes" where
  "put_uint64 v =
     [ucast (drop_bit 56 v), ucast (drop_bit 48 v), ucast (drop_bit 40 v), ucast (drop_bit 32 v),
      ucast (drop_bit 24 v), ucast (drop_bit 16 v), ucast (drop_bit 8 v), ucast v]"

lemma length_put_uint64 [simp, byte_lengths]: "length (put_uint64 v) = 8"
  by (simp add: put_uint64_def)

lemma ucast_drop_bit_eq_bit:
  assumes "(ucast (drop_bit k v) :: byte) = ucast (drop_bit k w)"
    and "k \<le> n" and "n < k + 8"
  shows "bit (v :: u64) n = bit (w :: u64) n"
proof -
  have "bit (ucast (drop_bit k v) :: byte) (n - k) = bit (ucast (drop_bit k w) :: byte) (n - k)"
    using assms(1) by simp
  moreover have "k + (n - k) = n" and "n - k < 8"
    using assms(2,3) by simp_all
  ultimately show ?thesis
    by (simp add: bit_simps)
qed

lemma put_uint64_inject [simp]: "put_uint64 v = put_uint64 w \<longleftrightarrow> v = w"
proof
  assume eq: "put_uint64 v = put_uint64 w"
  then have k: "(ucast (drop_bit k v) :: byte) = ucast (drop_bit k w)"
    if "k \<in> {0, 8, 16, 24, 32, 40, 48, 56}" for k
    using that by (auto simp: put_uint64_def)
  show "v = w"
  proof (rule bit_word_eqI)
    fix n assume "n < LENGTH(64)"
    then have "n div 8 \<in> {0, 1, 2, 3, 4, 5, 6, 7}"
      by auto
    then have "8 * (n div 8) \<in> {0, 8, 16, 24, 32, 40, 48, 56}"
      by auto
    from k [OF this] show "bit v n = bit w n"
      by (rule ucast_drop_bit_eq_bit) simp_all
  qed
qed simp

subsection \<open>Sums of an error and a value\<close>

definition bind_res :: "'e + 'a \<Rightarrow> ('a \<Rightarrow> 'e + 'b) \<Rightarrow> 'e + 'b" where
  "bind_res r f = (case r of Inl e \<Rightarrow> Inl e | Inr x \<Rightarrow> f x)"

lemma bind_res_simps [simp]:
  "bind_res (Inl e) f = Inl e" "bind_res (Inr x) f = f x"
  by (simp_all add: bind_res_def)

lemma bind_res_cong [fundef_cong]:
  "r = s \<Longrightarrow> (\<And>x. s = Inr x \<Longrightarrow> f x = g x) \<Longrightarrow> bind_res r f = bind_res s g"
  by (auto simp: bind_res_def split: sum.splits)

lemma bind_res_eq_Inr: "bind_res r f = Inr y \<longleftrightarrow> (\<exists>x. r = Inr x \<and> f x = Inr y)"
  by (auto simp: bind_res_def split: sum.splits)

lemma bind_res_eq_Inl: "bind_res r f = Inl e \<longleftrightarrow> r = Inl e \<or> (\<exists>x. r = Inr x \<and> f x = Inl e)"
  by (auto simp: bind_res_def split: sum.splits)

subsection \<open>Go maps\<close>

text \<open>
  A Go map is an association list with distinct keys, so that its keys can be listed:
  \<open>m[k]\<close> is \<open>map_of m k\<close>, \<open>m[k] = v\<close> is \<open>AList.update k v m\<close>. The order of the
  list is never observed: the code sorts the keys it lists.
\<close>

definition get_or :: "'v \<Rightarrow> ('k \<times> 'v) list \<Rightarrow> 'k \<Rightarrow> 'v" where
  "get_or d m k = (case map_of m k of None \<Rightarrow> d | Some v \<Rightarrow> v)"

lemma get_or_update [simp]:
  "get_or d (AList.update k v m) k' = (if k' = k then v else get_or d m k')"
  by (simp add: get_or_def update_conv')

lemma get_or_Nil [simp]: "get_or d [] k = d"
  by (simp add: get_or_def)

lemma map_of_None_keys: "map_of m k = None \<longleftrightarrow> k \<notin> fst ` set m"
  by (induction m) auto

lemma keys_update [simp]: "fst ` set (AList.update k v m) = insert k (fst ` set m)"
  by (induction m) auto

subsection \<open>Sorting\<close>

text \<open>
  \<open>sort.Slice\<close> is not stable: it fixes the result only where the keys are distinct.
  There it agrees with \<open>sort_key\<close>, whatever permutation it makes.
\<close>

lemma sort_key_unique:
  assumes "mset ys = mset xs" and "sorted (map f ys)" and "distinct (map f xs)"
  shows "sort_key f xs = ys"
  using assms by (intro sort_key_inj_key_eq) (simp_all add: distinct_map)

lemma distinct_map_sort_key [simp]: "distinct (map f (sort_key f xs)) \<longleftrightarrow> distinct (map f xs)"
  by (rule mset_eq_imp_distinct_iff) simp

lemma sort_key_sorted: "sorted (map f xs) \<Longrightarrow> sort_key f xs = xs"
  by (rule sort_key_id_if_sorted)

subsection \<open>Sequence numbers\<close>

lemma unat_of_nat_less: "n < 2 ^ 64 \<Longrightarrow> unat (of_nat n :: u64) = n"
  by (simp add: unat_of_nat)

lemma of_nat_u64_inject: "m < 2 ^ 64 \<Longrightarrow> n < 2 ^ 64 \<Longrightarrow> (of_nat m :: u64) = of_nat n \<longleftrightarrow> m = n"
  by (metis unat_of_nat_less)

end
