(* ===== verification/Std_Text.thy ===== *)
theory Std_Text
  imports Prelude
begin

section \<open>Text encodings of Go's standard library\<close>

text \<open>
  The parts of \<open>fmt\<close>, \<open>strconv\<close>, \<open>encoding/hex\<close> and \<open>encoding/base64\<close> the
  program uses: decimal numbers (\<open>%d\<close>, and \<open>%020d\<close> for the object keys), hexadecimal
  byte strings, and unpadded URL-safe base64. Each comes with what the components need of it:
  the characters it can produce, and that it can be read back.
\<close>

subsection \<open>Decimal\<close>

definition digit_char :: "nat \<Rightarrow> char" where
  "digit_char d = char_of (48 + d)"

definition digit_val :: "char \<Rightarrow> nat" where
  "digit_val c = of_char c - 48"

definition is_digit :: "char \<Rightarrow> bool" where
  "is_digit c \<longleftrightarrow> 48 \<le> (of_char c :: nat) \<and> (of_char c :: nat) \<le> 57"

lemma of_char_digit_char: "d < 10 \<Longrightarrow> of_char (digit_char d) = 48 + d"
  by (simp add: digit_char_def)

lemma digit_val_digit_char [simp]: "d < 10 \<Longrightarrow> digit_val (digit_char d) = d"
  by (simp add: digit_val_def of_char_digit_char)

lemma is_digit_digit_char [simp]: "d < 10 \<Longrightarrow> is_digit (digit_char d)"
  by (simp add: is_digit_def of_char_digit_char)

lemma not_is_digit_slash [simp]: "\<not> is_digit CHR ''/''"
  by (simp add: is_digit_def)

text \<open>\<open>fmt.Sprintf("%d", n)\<close>.\<close>

fun dec :: "nat \<Rightarrow> string" where
  "dec n = (if n < 10 then [digit_char n] else dec (n div 10) @ [digit_char (n mod 10)])"

declare dec.simps [simp del]

definition undec :: "string \<Rightarrow> nat" where
  "undec s = foldl (\<lambda>n c. 10 * n + digit_val c) 0 s"

lemma undec_dec [simp]: "undec (dec n) = n"
proof (induction n rule: dec.induct)
  case (1 n)
  show ?case
  proof (cases "n < 10")
    case True
    then show ?thesis by (simp add: dec.simps [of n] undec_def)
  next
    case False
    with "1.IH" show ?thesis by (simp add: dec.simps [of n] undec_def)
  qed
qed

lemma dec_inject [simp]: "dec m = dec n \<longleftrightarrow> m = n"
  by (metis undec_dec)

lemma dec_digits: "c \<in> set (dec n) \<Longrightarrow> is_digit c"
proof (induction n rule: dec.induct)
  case (1 n)
  then show ?case
    by (cases "n < 10") (auto simp: dec.simps [of n])
qed

lemma dec_not_Nil [simp]: "dec n \<noteq> []"
  by (subst dec.simps) simp

lemma length_dec: "n < 10 ^ Suc k \<Longrightarrow> length (dec n) \<le> Suc k"
proof (induction k arbitrary: n)
  case (Suc k)
  then have "length (dec (n div 10)) \<le> Suc k" by simp
  then show ?case by (subst dec.simps) simp
qed (subst dec.simps, simp)

text \<open>\<open>fmt.Sprintf("%0wd", n)\<close>: zeros on the left up to width \<open>w\<close>.\<close>

definition dec_pad :: "nat \<Rightarrow> nat \<Rightarrow> string" where
  "dec_pad w n = replicate (w - length (dec n)) CHR ''0'' @ dec n"

lemma undec_zeros: "undec (replicate k CHR ''0'' @ s) = undec s"
  by (induction k) (simp_all add: undec_def digit_val_def)

lemma dec_pad_inject [simp]: "dec_pad w m = dec_pad w n \<longleftrightarrow> m = n"
  by (metis dec_pad_def undec_dec undec_zeros)

lemma dec_pad_digits: "c \<in> set (dec_pad w n) \<Longrightarrow> is_digit c"
  using dec_digits [of c n] by (auto simp: dec_pad_def is_digit_def)

text \<open>A run of digits after the last separator determines the split.\<close>

lemma split_at_first_sep:
  "xs @ c # ys = xs' @ c # ys' \<Longrightarrow> c \<notin> set xs \<Longrightarrow> c \<notin> set xs' \<Longrightarrow> xs = xs' \<and> ys = ys'"
proof (induction xs arbitrary: xs')
  case Nil
  then show ?case by (cases xs') auto
next
  case (Cons x xs)
  then show ?case by (cases xs') auto
qed

lemma split_at_last_sep:
  assumes "a @ c # ds = b @ c # es" and "c \<notin> set ds" and "c \<notin> set es"
  shows "a = b \<and> ds = es"
proof -
  have "rev ds @ c # rev a = rev es @ c # rev b"
    using assms(1) by (metis append.assoc append_Cons append_Nil rev.simps(2) rev_append)
  then have "rev ds = rev es \<and> rev a = rev b"
    by (rule split_at_first_sep) (use assms(2,3) in simp_all)
  then show ?thesis by simp
qed

subsection \<open>Hexadecimal\<close>

definition hex_digit :: "nat \<Rightarrow> char" where
  "hex_digit d = (if d < 10 then char_of (48 + d) else char_of (87 + d))"

definition hex_val :: "char \<Rightarrow> nat option" where
  "hex_val c =
     (let n = of_char c
      in if 48 \<le> n \<and> n \<le> 57 then Some (n - 48)
         else if 97 \<le> n \<and> n \<le> 102 then Some (n - 87)
         else if 65 \<le> n \<and> n \<le> 70 then Some (n - 55)
         else None)"

lemma hex_val_hex_digit [simp]: "d < 16 \<Longrightarrow> hex_val (hex_digit d) = Some d"
  by (auto simp: hex_val_def hex_digit_def Let_def)

text \<open>\<open>hex.EncodeToString\<close> and \<open>hex.DecodeString\<close>.\<close>

fun hex_encode :: "bytes \<Rightarrow> string" where
  "hex_encode [] = ''''"
| "hex_encode (b # bs) = hex_digit (unat b div 16) # hex_digit (unat b mod 16) # hex_encode bs"

fun hex_decode :: "string \<Rightarrow> error + bytes" where
  "hex_decode [] = Inr []"
| "hex_decode [c] =
     (case hex_val c of
        None \<Rightarrow> Inl (ErrText ''encoding/hex: invalid byte'')
      | Some _ \<Rightarrow> Inl (ErrText ''encoding/hex: odd length hex string''))"
| "hex_decode (c # d # s) =
     (case (hex_val c, hex_val d) of
        (Some x, Some y) \<Rightarrow> bind_res (hex_decode s) (\<lambda>bs. Inr (word_of_nat (16 * x + y) # bs))
      | _ \<Rightarrow> Inl (ErrText ''encoding/hex: invalid byte''))"

lemma hex_decode_encode [simp]: "hex_decode (hex_encode bs) = Inr bs"
proof (induction bs)
  case (Cons b bs)
  have "unat b < 256"
    using unsigned_less [of b, where ?'a = nat] by simp
  then have "unat b div 16 < 16" by simp
  with Cons show ?case by simp
qed simp

lemma hex_encode_inject [simp]: "hex_encode a = hex_encode b \<longleftrightarrow> a = b"
  by (metis hex_decode_encode sum.inject(2))

lemma length_hex_encode [simp]: "length (hex_encode bs) = 2 * length bs"
  by (induction bs) simp_all

lemma hex_encode_eq_Nil [simp]: "hex_encode bs = [] \<longleftrightarrow> bs = []"
  by (cases bs) simp_all

subsection \<open>Base64\<close>

text \<open>\<open>base64.RawURLEncoding\<close>: six bits a character, no padding.\<close>

definition base64_char :: "nat \<Rightarrow> char" where
  "base64_char d =
     (if d < 26 then char_of (65 + d) else if d < 52 then char_of (97 + (d - 26))
      else if d < 62 then char_of (48 + (d - 52)) else if d = 62 then CHR ''-'' else CHR ''_'')"

fun base64url :: "bytes \<Rightarrow> string" where
  "base64url (a # b # c # bs) =
     (let n = 65536 * unat a + 256 * unat b + unat c
      in map base64_char [n div 262144, n div 4096 mod 64, n div 64 mod 64, n mod 64] @ base64url bs)"
| "base64url [a, b] =
     (let n = 65536 * unat a + 256 * unat b
      in map base64_char [n div 262144, n div 4096 mod 64, n div 64 mod 64])"
| "base64url [a] = (let n = 65536 * unat a in map base64_char [n div 262144, n div 4096 mod 64])"
| "base64url [] = []"

lemma length_base64url: "length (base64url bs) = (4 * length bs + 2) div 3"
  by (induction bs rule: base64url.induct) (simp_all add: Let_def)

lemma base64_char_inject:
  assumes "base64_char d = base64_char e" and "d < 64" and "e < 64"
  shows "d = e"
proof -
  have code: "of_char (base64_char k) =
      (if k < 26 then 65 + k else if k < 52 then 71 + k else if k < 62 then k - 4 else if k = 62 then 45 else 95 :: nat)"
    if "k < 64" for k
    using that by (auto simp: base64_char_def)
  have "(of_char (base64_char d) :: nat) = of_char (base64_char e)"
    using assms(1) by simp
  then show ?thesis
    using assms(2,3) by (simp add: code split: if_splits)
qed

lemma base64_char_eq: "d < 64 \<Longrightarrow> e < 64 \<Longrightarrow> base64_char d = base64_char e \<longleftrightarrow> d = e"
  using base64_char_inject by blast

lemma sextets_inject:
  assumes "n < 16777216" and "m < 16777216"
    and "base64_char (n div 262144) = base64_char (m div 262144)"
    and "base64_char (n div 4096 mod 64) = base64_char (m div 4096 mod 64)"
    and "base64_char (n div 64 mod 64) = base64_char (m div 64 mod 64)"
    and "base64_char (n mod 64) = base64_char (m mod 64)"
  shows "n = m"
proof -
  have split: "k = 262144 * (k div 262144) + 4096 * (k div 4096 mod 64) + 64 * (k div 64 mod 64) + k mod 64" for k :: nat
  proof -
    have "64 * (k div 4096) + k div 64 mod 64 = k div 64" "64 * (k div 262144) + k div 4096 mod 64 = k div 4096"
      using mult_div_mod_eq [of 64 "k div 64"] mult_div_mod_eq [of 64 "k div 4096"] by (simp_all flip: div_mult2_eq)
    moreover have "64 * (k div 64) + k mod 64 = k" by simp
    ultimately show ?thesis by linarith
  qed
  have "n div 262144 < 64" "m div 262144 < 64" using assms(1,2) by simp_all
  then have "n div 262144 = m div 262144" "n div 4096 mod 64 = m div 4096 mod 64"
      "n div 64 mod 64 = m div 64 mod 64" "n mod 64 = m mod 64"
    using assms(3-6) by (simp_all add: base64_char_eq)
  then show ?thesis using split [of n] split [of m] by simp
qed

lemma base256_inject:
  assumes "256 * a + z = 256 * a' + (z' :: nat)" and "z < 256" and "z' < 256"
  shows "a = a' \<and> z = z'"
proof -
  have "a = a'"
    using arg_cong [OF assms(1), of "\<lambda>n. n div 256"] assms(2,3) by simp
  with assms(1) show ?thesis by simp
qed

lemma bytes3_inject:
  assumes "65536 * unat (a :: byte) + 256 * unat (b :: byte) + unat (c :: byte) =
      65536 * unat (a' :: byte) + 256 * unat (b' :: byte) + unat (c' :: byte)"
  shows "a = a' \<and> b = b' \<and> c = c'"
proof -
  have less: "unat x < 256" for x :: byte
    using unsigned_less [of x, where ?'a = nat] by simp
  have "256 * (256 * unat a + unat b) + unat c = 256 * (256 * unat a' + unat b') + unat c'"
    using assms by simp
  then have "256 * unat a + unat b = 256 * unat a' + unat b' \<and> unat c = unat c'"
    using less less by (rule base256_inject)
  moreover from this have "unat a = unat a' \<and> unat b = unat b'"
    using base256_inject [OF _ less less] by blast
  ultimately show ?thesis by (simp add: word_unat_eq_iff)
qed

lemma bytes3_less: "65536 * unat (a :: byte) + 256 * unat (b :: byte) + unat (c :: byte) < 16777216"
  using unsigned_less [of a, where ?'a = nat] unsigned_less [of b, where ?'a = nat] unsigned_less [of c, where ?'a = nat]
  by simp

text \<open>Different byte strings whose length is a multiple of 3 have different encodings.\<close>

lemma base64url_inject:
  "base64url xs = base64url ys \<Longrightarrow> length xs = length ys \<Longrightarrow> 3 dvd length xs \<Longrightarrow> xs = ys"
proof (induction xs arbitrary: ys rule: base64url.induct)
  case (1 a b c bs)
  then obtain a' b' c' bs' where ys: "ys = a' # b' # c' # bs'"
    by (cases ys; cases "tl ys"; cases "tl (tl ys)") auto
  have "65536 * unat a + 256 * unat b + unat c = 65536 * unat a' + 256 * unat b' + unat c'"
    using "1.prems"(1) unfolding ys by (intro sextets_inject bytes3_less) (simp_all add: Let_def)
  moreover have "bs = bs'"
  proof (rule "1.IH" [OF refl])
    have "3 dvd length bs + 3" using "1.prems"(3) by (simp add: numeral_3_eq_3)
    then show "3 dvd length bs" by presburger
  qed (use "1.prems" in \<open>simp_all add: ys Let_def\<close>)
  ultimately show ?case
    using bytes3_inject [of a b c a' b' c'] by (simp add: ys)
next
  case (2 a b)
  then show ?case by (auto dest!: dvd_imp_le)
next
  case (3 a)
  then show ?case by (auto dest!: dvd_imp_le)
qed simp

end
