(* ===== verification/Std_Json.thy ===== *)
theory Std_Json
  imports Std_Text
begin

section \<open>Go's encoding/json\<close>

text \<open>
  What the program uses of \<open>encoding/json\<close>: the string encoding of the writer (HTML escaping,
  invalid UTF-8 replaced), compact and indented objects, and the parser of documents. Strings
  are byte strings; \<open>rune_size\<close> is the UTF-8 decoder's verdict on the bytes at the front. A
  number keeps its literal. The central fact is that a string survives the writer and the
  parser, up to the replacement of its invalid bytes.
\<close>

abbreviation (input) dquote :: char where
  "dquote \<equiv> CHR 0x22"

abbreviation (input) bslash :: char where
  "bslash \<equiv> CHR 0x5C"

subsection \<open>UTF-8\<close>

definition code :: "char \<Rightarrow> nat" where
  "code c = of_char c"

definition code_in :: "nat \<Rightarrow> nat \<Rightarrow> char \<Rightarrow> bool" where
  "code_in lo hi c \<longleftrightarrow> lo \<le> code c \<and> code c \<le> hi"

definition cont :: "char \<Rightarrow> bool" where
  "cont = code_in 0x80 0xBF"

text \<open>\<open>utf8.DecodeRuneInString\<close>: the length of a valid encoding at the front, 0 when there is none.\<close>

definition rune_size :: "string \<Rightarrow> nat" where
  "rune_size s =
     (case s of
        [] \<Rightarrow> 0
      | a # t \<Rightarrow>
          if code a < 0x80 then 1
          else if code_in 0xC2 0xDF a then (case t of b # _ \<Rightarrow> if cont b then 2 else 0 | _ \<Rightarrow> 0)
          else if code_in 0xE0 0xEF a then
            (case t of
               b # c # _ \<Rightarrow>
                 if code_in (if code a = 0xE0 then 0xA0 else 0x80) (if code a = 0xED then 0x9F else 0xBF) b \<and> cont c
                 then 3 else 0
             | _ \<Rightarrow> 0)
          else if code_in 0xF0 0xF4 a then
            (case t of
               b # c # d # _ \<Rightarrow>
                 if code_in (if code a = 0xF0 then 0x90 else 0x80) (if code a = 0xF4 then 0x8F else 0xBF) b \<and>
                    cont c \<and> cont d
                 then 4 else 0
             | _ \<Rightarrow> 0)
          else 0)"

text \<open>U+FFFD, which stands for a byte that is no part of a valid encoding.\<close>

definition replacement :: string where
  "replacement = [CHR 0xEF, CHR 0xBF, CHR 0xBD]"

lemma rune_size_le: "rune_size s \<le> length s"
  by (auto simp: rune_size_def split: list.splits)

lemma rune_size_ascii: "code c < 0x80 \<Longrightarrow> rune_size (c # s) = 1"
  by (simp add: rune_size_def)

lemma drop_rune [termination_simp]: "length (drop (rune_size (c # s) - Suc 0) s) < Suc (length s)"
  by simp

lemma drop_rune_max [termination_simp]: "length (drop (max (Suc 0) (rune_size (c # s))) (c # s)) < Suc (length s)"
  by simp

fun sanitize :: "string \<Rightarrow> string" where
  "sanitize [] = []"
| "sanitize (c # s) =
     (if rune_size (c # s) = 0 then replacement @ sanitize s
      else take (rune_size (c # s)) (c # s) @ sanitize (drop (rune_size (c # s) - 1) s))"

fun valid_utf8 :: "string \<Rightarrow> bool" where
  "valid_utf8 [] \<longleftrightarrow> True"
| "valid_utf8 (c # s) \<longleftrightarrow> rune_size (c # s) \<noteq> 0 \<and> valid_utf8 (drop (rune_size (c # s) - 1) s)"

lemma sanitize_valid: "valid_utf8 s \<Longrightarrow> sanitize s = s"
proof (induction s rule: valid_utf8.induct)
  case (2 c s)
  then have "take (rune_size (c # s)) (c # s) = c # take (rune_size (c # s) - 1) s"
    by (cases "rune_size (c # s)") auto
  with 2 show ?case
    by (cases "rune_size (c # s)") auto
qed simp

lemma valid_utf8_ascii: "list_all (\<lambda>c. code c < 0x80) s \<Longrightarrow> valid_utf8 s"
  by (induction s) (simp_all add: rune_size_ascii)

subsection \<open>Writing strings\<close>

definition hex4 :: "nat \<Rightarrow> string" where
  "hex4 n = [hex_digit (n div 4096 mod 16), hex_digit (n div 256 mod 16), hex_digit (n div 16 mod 16), hex_digit (n mod 16)]"

definition escape_ascii :: "char \<Rightarrow> string" where
  "escape_ascii c =
     (if c = dquote \<or> c = bslash then [bslash, c]
      else if code c = 8 then [bslash, CHR ''b'']
      else if code c = 12 then [bslash, CHR ''f'']
      else if code c = 10 then [bslash, CHR ''n'']
      else if code c = 13 then [bslash, CHR ''r'']
      else if code c = 9 then [bslash, CHR ''t'']
      else if code c < 0x20 \<or> c = CHR ''<'' \<or> c = CHR ''>'' \<or> c = CHR ''&'' then
        bslash # CHR ''u'' # hex4 (code c)
      else [c])"

text \<open>The code point of a three-byte encoding; U+2028 and U+2029 are escaped.\<close>

definition rune3 :: "string \<Rightarrow> nat" where
  "rune3 s = (code (s ! 0) - 0xE0) * 4096 + (code (s ! 1) - 0x80) * 64 + (code (s ! 2) - 0x80)"

definition escape_rune :: "string \<Rightarrow> string" where
  "escape_rune r =
     (if length r = 3 \<and> (rune3 r = 0x2028 \<or> rune3 r = 0x2029) then bslash # CHR ''u'' # hex4 (rune3 r)
      else r)"

fun escape_body :: "string \<Rightarrow> string" where
  "escape_body [] = []"
| "escape_body (c # s) =
     (if code c < 0x80 then escape_ascii c @ escape_body s
      else if rune_size (c # s) = 0 then bslash # CHR ''u'' # hex4 0xFFFD @ escape_body s
      else escape_rune (take (rune_size (c # s)) (c # s)) @ escape_body (drop (rune_size (c # s) - 1) s))"

definition json_string :: "string \<Rightarrow> string" where
  "json_string s = dquote # escape_body s @ [dquote]"

subsection \<open>Reading strings\<close>

definition simple_escape :: "char \<Rightarrow> char option" where
  "simple_escape c =
     (if c = dquote \<or> c = bslash \<or> c = CHR ''/'' then Some c
      else if c = CHR ''b'' then Some (char_of (8 :: nat))
      else if c = CHR ''f'' then Some (char_of (12 :: nat))
      else if c = CHR ''n'' then Some (char_of (10 :: nat))
      else if c = CHR ''r'' then Some (char_of (13 :: nat))
      else if c = CHR ''t'' then Some (char_of (9 :: nat))
      else None)"

definition get_hex4 :: "string \<Rightarrow> nat option" where
  "get_hex4 s =
     (case s of
        a # b # c # d # _ \<Rightarrow>
          (case (hex_val a, hex_val b, hex_val c, hex_val d) of
             (Some x, Some y, Some z, Some w) \<Rightarrow> Some (4096 * x + 256 * y + 16 * z + w)
           | _ \<Rightarrow> None)
      | _ \<Rightarrow> None)"

text \<open>\<open>utf8.AppendRune\<close>.\<close>

definition encode_rune :: "nat \<Rightarrow> string" where
  "encode_rune r =
     (if r < 0x80 then [char_of r]
      else if r < 0x800 then [char_of (0xC0 + r div 64), char_of (0x80 + r mod 64)]
      else if r < 0x10000 then
        [char_of (0xE0 + r div 4096), char_of (0x80 + r div 64 mod 64), char_of (0x80 + r mod 64)]
      else
        [char_of (0xF0 + r div 262144), char_of (0x80 + r div 4096 mod 64), char_of (0x80 + r div 64 mod 64),
         char_of (0x80 + r mod 64)])"

text \<open>The scanner: the raw text of a literal up to its closing quote, and what follows.\<close>

fun scan_string :: "string \<Rightarrow> (string \<times> string) option" where
  "scan_string [] = None"
| "scan_string (c # s) =
     (if c = dquote then Some ([], s)
      else if c = bslash then
        (case s of
           [] \<Rightarrow> None
         | d # t \<Rightarrow>
             if d = CHR ''u'' \<and> get_hex4 t \<noteq> None then
               map_option (\<lambda>(raw, rest). (c # d # take 4 t @ raw, rest)) (scan_string (drop 4 t))
             else if d \<noteq> CHR ''u'' \<and> simple_escape d \<noteq> None then
               map_option (\<lambda>(raw, rest). (c # d # raw, rest)) (scan_string t)
             else None)
      else if code c < 0x20 then None
      else map_option (\<lambda>(raw, rest). (c # raw, rest)) (scan_string s))"

text \<open>\<open>unquote\<close>: a lone surrogate becomes U+FFFD, a pair its code point.\<close>

fun unquote :: "string \<Rightarrow> string" where
  "unquote [] = []"
| "unquote (c # s) =
     (if c = bslash then
        (case s of
           [] \<Rightarrow> []
         | d # t \<Rightarrow>
             if d = CHR ''u'' then
               (case get_hex4 t of
                  None \<Rightarrow> []
                | Some r \<Rightarrow>
                    let t = drop 4 t in
                    if 0xD800 \<le> r \<and> r < 0xE000 then
                      (case (if r < 0xDC00 \<and> take 2 t = [bslash, CHR ''u''] then get_hex4 (drop 2 t) else None) of
                         None \<Rightarrow> replacement @ unquote t
                       | Some r2 \<Rightarrow>
                           if 0xDC00 \<le> r2 \<and> r2 < 0xE000 then
                             encode_rune ((r - 0xD800) * 1024 + (r2 - 0xDC00) + 0x10000) @ unquote (drop 6 t)
                           else replacement @ unquote t)
                    else encode_rune r @ unquote t)
             else (case simple_escape d of None \<Rightarrow> [] | Some e \<Rightarrow> e # unquote t))
      else if code c < 0x80 then c # unquote s
      else if rune_size (c # s) = 0 then replacement @ unquote s
      else take (rune_size (c # s)) (c # s) @ unquote (drop (rune_size (c # s) - 1) s))"

subsection \<open>A written string is read back\<close>

lemma code_inject [simp]: "code c = code d \<longleftrightarrow> c = d"
  by (simp add: code_def)

lemma code_dquote [simp]: "code dquote = 34" and code_bslash [simp]: "code bslash = 92"
  by (simp_all add: code_def)

lemma code_char_of: "n < 256 \<Longrightarrow> code (char_of n) = n"
  by (simp add: code_def)

lemma char_of_code [simp]: "char_of (code c) = c"
  by (simp add: code_def)

lemma code_less: "code c < 256"
  using nat_of_char_less_256 [of c] by (simp add: code_def)

lemma get_hex4_hex4 [simp]: "n < 65536 \<Longrightarrow> get_hex4 (hex4 n @ x) = Some n"
proof -
  assume "n < 65536"
  define p q r where "p = n div 16" and "q = p div 16" and "r = q div 16"
  have d: "n div 16 = p" "n div 256 = q" "n div 4096 = r"
    by (simp_all add: p_def q_def r_def div_mult2_eq [symmetric])
  have "16 * p + n mod 16 = n" "16 * q + p mod 16 = p" "16 * r + q mod 16 = q" "r < 16"
    using \<open>n < 65536\<close> by (simp_all add: p_def q_def r_def)
  then have "4096 * (r mod 16) + 256 * (q mod 16) + 16 * (p mod 16) + n mod 16 = n"
    by simp
  then have "4096 * (n div 4096 mod 16) + 256 * (n div 256 mod 16) + 16 * (n div 16 mod 16) + n mod 16 = n"
    by (simp only: d)
  then show ?thesis by (simp add: get_hex4_def hex4_def del: mod_less)
qed

lemma hex4_parts [simp]: "length (hex4 n) = 4" "take 4 (hex4 n @ x) = hex4 n" "drop 4 (hex4 n @ x) = x"
  by (simp_all add: hex4_def)

text \<open>A piece of escaped text that the scanner passes over whole, and that reads as \<open>q\<close>.\<close>

definition scans :: "string \<Rightarrow> bool" where
  "scans p \<longleftrightarrow> (\<forall>x. scan_string (p @ x) = map_option (\<lambda>(raw, rest). (p @ raw, rest)) (scan_string x))"

definition reads_as :: "string \<Rightarrow> string \<Rightarrow> bool" where
  "reads_as p q \<longleftrightarrow> (\<forall>x. unquote (p @ x) = q @ unquote x)"

lemma map_option_pair_Nil: "map_option (\<lambda>(raw, rest). (raw, rest)) o' = o'"
  by (cases o') auto

lemma scans_Nil: "scans []"
  unfolding scans_def append_Nil map_option_pair_Nil by simp

lemma scans_append: "scans p \<Longrightarrow> scans q \<Longrightarrow> scans (p @ q)"
  by (simp add: scans_def option.map_comp comp_def split_def)

lemma scans_char: "0x20 \<le> code c \<Longrightarrow> c \<noteq> dquote \<Longrightarrow> c \<noteq> bslash \<Longrightarrow> scans [c]"
  by (simp add: scans_def)

lemma scans_simple: "d \<noteq> CHR ''u'' \<Longrightarrow> simple_escape d \<noteq> None \<Longrightarrow> scans [bslash, d]"
  by (simp add: scans_def)

lemma scans_hex4: "n < 65536 \<Longrightarrow> scans (bslash # CHR ''u'' # hex4 n)"
  by (simp add: scans_def)

lemma scans_high: "list_all (\<lambda>c. 0x80 \<le> code c) p \<Longrightarrow> scans p"
proof (induction p)
  case (Cons c p)
  then have "scans [c]" by (intro scans_char) auto
  with Cons scans_append [of "[c]" p] show ?case by simp
qed (rule scans_Nil)

lemma reads_as_append: "reads_as p q \<Longrightarrow> reads_as p' q' \<Longrightarrow> reads_as (p @ p') (q @ q')"
  by (simp add: reads_as_def)

lemma reads_as_char: "code c < 0x80 \<Longrightarrow> c \<noteq> bslash \<Longrightarrow> reads_as [c] [c]"
  by (simp add: reads_as_def)

lemma reads_as_simple: "d \<noteq> CHR ''u'' \<Longrightarrow> simple_escape d = Some e \<Longrightarrow> reads_as [bslash, d] [e]"
  by (simp add: reads_as_def)

lemma reads_as_hex4: "n < 65536 \<Longrightarrow> \<not> (0xD800 \<le> n \<and> n < 0xE000) \<Longrightarrow> reads_as (bslash # CHR ''u'' # hex4 n) (encode_rune n)"
  by (auto simp: reads_as_def Let_def)

lemma char_eqI: "code c = n \<Longrightarrow> c = char_of n"
  by auto

lemma escape_ascii_ok:
  assumes "code c < 0x80"
  shows "scans (escape_ascii c)" "reads_as (escape_ascii c) [c]"
proof -
  have ctl: "c = char_of (8 :: nat)" if "code c = 8" using that by (rule char_eqI)
  have "scans (escape_ascii c) \<and> reads_as (escape_ascii c) [c]"
  proof (cases "c = dquote \<or> c = bslash")
    case True
    then show ?thesis
      by (auto simp: escape_ascii_def simple_escape_def intro!: scans_simple reads_as_simple)
  next
    case False
    consider (simple) "code c \<in> {8, 12, 10, 13, 9}"
      | (hex) "code c \<notin> {8, 12, 10, 13, 9}" "code c < 0x20 \<or> c = CHR ''<'' \<or> c = CHR ''>'' \<or> c = CHR ''&''"
      | (plain) "\<not> (code c < 0x20 \<or> c = CHR ''<'' \<or> c = CHR ''>'' \<or> c = CHR ''&'')"
      by blast
    then show ?thesis
    proof cases
      case simple
      then obtain d where d: "(code c, d) \<in> {(8, CHR ''b''), (12, CHR ''f''), (10, CHR ''n''), (13, CHR ''r''), (9, CHR ''t'')}"
        by blast
      then have "escape_ascii c = [bslash, d]" "d \<noteq> CHR ''u''"
        using False by (auto simp: escape_ascii_def)
      moreover have "simple_escape d = Some (char_of (code c))"
        using d by (auto simp: simple_escape_def simp del: char_of_code)
      ultimately show ?thesis
        by (simp add: scans_simple reads_as_simple)
    next
      case hex
      then have "escape_ascii c = bslash # CHR ''u'' # hex4 (code c)"
        using False by (simp add: escape_ascii_def)
      moreover have "encode_rune (code c) = [c]"
        using assms by (simp add: encode_rune_def)
      ultimately show ?thesis
        using assms scans_hex4 [of "code c"] reads_as_hex4 [of "code c"] by simp
    next
      case plain
      then have "escape_ascii c = [c]"
        using False by (simp add: escape_ascii_def)
      then show ?thesis
        using plain False assms by (auto intro: scans_char reads_as_char)
    qed
  qed
  then show "scans (escape_ascii c)" "reads_as (escape_ascii c) [c]" by simp_all
qed

text \<open>The four shapes of a valid encoding; what follows it does not matter.\<close>

lemma rune_sizeE:
  assumes "rune_size s \<noteq> 0"
  obtains (one) a t where "s = a # t" "code a < 0x80" "\<And>x. rune_size (a # x) = 1"
  | (two) a b t where "s = a # b # t" "code_in 0xC2 0xDF a" "cont b" "\<And>x. rune_size (a # b # x) = 2"
  | (three) a b c t where "s = a # b # c # t" "code_in 0xE0 0xEF a" "cont b" "cont c" "\<And>x. rune_size (a # b # c # x) = 3"
  | (four) a b c d t where "s = a # b # c # d # t" "code_in 0xF0 0xF4 a" "cont b" "cont c" "cont d"
      "\<And>x. rune_size (a # b # c # d # x) = 4"
proof (cases s)
  case Nil
  with assms show thesis by (simp add: rune_size_def)
next
  case (Cons a t)
  consider "code a < 0x80" | "\<not> code a < 0x80" "code_in 0xC2 0xDF a"
    | "\<not> code a < 0x80" "\<not> code_in 0xC2 0xDF a" "code_in 0xE0 0xEF a"
    | "\<not> code a < 0x80" "\<not> code_in 0xC2 0xDF a" "\<not> code_in 0xE0 0xEF a" "code_in 0xF0 0xF4 a"
    using assms Cons unfolding rune_size_def by (auto split: if_splits)
  then show thesis
  proof cases
    case 1
    with Cons show thesis by (intro one [of a t]) (simp_all add: rune_size_ascii)
  next
    case 2
    then obtain b u where "t = b # u" "cont b"
      using assms Cons by (cases t) (auto simp: rune_size_def split: if_splits)
    with 2 Cons show thesis by (intro two [of a b u]) (simp_all add: rune_size_def)
  next
    case 3
    then obtain b c u where t: "t = b # c # u" "cont c" and b:
        "code_in (if code a = 0xE0 then 0xA0 else 0x80) (if code a = 0xED then 0x9F else 0xBF) b"
      using assms Cons by (cases t; cases "tl t") (auto simp: rune_size_def split: if_splits)
    have "cont b" using b by (simp add: cont_def code_in_def split: if_splits)
    moreover have "rune_size (a # b # c # x) = 3" for x
      using 3 t(2) b unfolding rune_size_def by simp
    ultimately show thesis
      using 3 Cons t by (intro three [of a b c u]) simp_all
  next
    case 4
    then obtain b c d u where t: "t = b # c # d # u" "cont c" "cont d" and b:
        "code_in (if code a = 0xF0 then 0x90 else 0x80) (if code a = 0xF4 then 0x8F else 0xBF) b"
      using assms Cons
      by (cases t; cases "tl t"; cases "tl (tl t)") (auto simp: rune_size_def split: if_splits)
    have "cont b" using b by (simp add: cont_def code_in_def split: if_splits)
    moreover have "rune_size (a # b # c # d # x) = 4" for x
      using 4 t(2,3) b unfolding rune_size_def by simp
    ultimately show thesis
      using 4 Cons t by (intro four [of a b c d u]) simp_all
  qed
qed

lemma rune_size_take: "rune_size s \<noteq> 0 \<Longrightarrow> rune_size (take (rune_size s) s @ x) = rune_size s"
  by (erule rune_sizeE) (simp_all add: numeral_2_eq_2 numeral_3_eq_3 eval_nat_numeral)

lemma rune_high:
  "rune_size (c # s) \<noteq> 0 \<Longrightarrow> 0x80 \<le> code c \<Longrightarrow> list_all (\<lambda>d. 0x80 \<le> code d) (take (rune_size (c # s)) (c # s))"
  by (erule rune_sizeE) (auto simp: cont_def code_in_def eval_nat_numeral)

lemma reads_as_rune:
  assumes "rune_size (c # s) \<noteq> 0" and "0x80 \<le> code c"
  shows "reads_as (take (rune_size (c # s)) (c # s)) (take (rune_size (c # s)) (c # s))"
proof -
  define n where "n = rune_size (c # s)"
  define p where "p = take (n - 1) s"
  have p: "take n (c # s) = c # p" "length p = n - 1"
    using assms(1) rune_size_le [of "c # s"] by (auto simp: p_def n_def take_Cons')
  have "rune_size (c # p @ x) = n" for x
    using rune_size_take [OF assms(1), of x] p(1) by (simp add: n_def)
  moreover have "c \<noteq> bslash" using assms(2) by auto
  ultimately have "unquote ((c # p) @ x) = (c # p) @ unquote x" for x
    using assms p(2) n_def by (simp add: take_Cons')
  then show ?thesis
    using p(1) by (simp add: reads_as_def n_def)
qed

lemma rune3_escaped:
  assumes "rune_size (c # s) = 3" and "rune3 (take 3 (c # s)) = n" and "n = 0x2028 \<or> n = 0x2029"
  shows "take 3 (c # s) = encode_rune n"
proof -
  from assms(1) have "rune_size (c # s) \<noteq> 0" by simp
  then obtain b d t where s: "s = b # d # t" and c: "code_in 0xE0 0xEF c" and b: "cont b" and d: "cont d"
    using assms(1) by (cases rule: rune_sizeE) auto
  define x y z where "x = code c - 0xE0" and "y = code b - 0x80" and "z = code d - 0x80"
  have xyz: "code c = 0xE0 + x" "code b = 0x80 + y" "code d = 0x80 + z" "y < 64" "z < 64"
    using b c d by (auto simp: x_def y_def z_def cont_def code_in_def)
  have "x * 4096 + y * 64 + z = n"
    using assms(2) xyz by (simp add: s rune3_def numeral_3_eq_3)
  moreover from this have "x = 2" using assms(3) xyz(4,5) by linarith
  moreover from calculation have "y = 0" using assms(3) by linarith
  ultimately have "x = 2 \<and> y = 0 \<and> z = n - 0x2000"
    using assms(3) by auto
  with xyz have "code c = 0xE2" "code b = 0x80" "code d = 0x80 + (n - 0x2000)" by simp_all
  then have cs: "c = char_of (0xE2 :: nat)" "b = char_of (0x80 :: nat)" "d = char_of (0x80 + (n - 0x2000))"
    by (auto intro: char_eqI)
  have "take 3 (c # s) = [c, b, d]" by (simp add: s numeral_3_eq_3)
  then show ?thesis
    unfolding cs encode_rune_def using assms(3) by auto
qed

lemma escape_rune_ok:
  assumes "rune_size (c # s) \<noteq> 0" and "0x80 \<le> code c"
  defines "r \<equiv> take (rune_size (c # s)) (c # s)"
  shows "scans (escape_rune r) \<and> reads_as (escape_rune r) r"
proof (cases "length r = 3 \<and> (rune3 r = 0x2028 \<or> rune3 r = 0x2029)")
  case True
  then have "rune_size (c # s) = 3"
    using rune_size_le [of "c # s"] by (simp add: r_def)
  with True rune3_escaped [of c s "rune3 r"] have "encode_rune (rune3 r) = r"
    by (simp add: r_def)
  moreover have "rune3 r < 65536" "\<not> (0xD800 \<le> rune3 r \<and> rune3 r < 0xE000)"
    using True by auto
  ultimately show ?thesis
    using scans_hex4 [of "rune3 r"] reads_as_hex4 [of "rune3 r"] True by (simp add: escape_rune_def)
next
  case False
  then have "escape_rune r = r"
    unfolding escape_rune_def by (rule if_not_P)
  then show ?thesis
    using scans_high [OF rune_high [OF assms(1,2)]] reads_as_rune [OF assms(1,2)] by (simp add: r_def)
qed

lemma escape_body_ok: "scans (escape_body s) \<and> reads_as (escape_body s) (sanitize s)"
proof (induction s rule: escape_body.induct)
  case 1
  show ?case by (simp add: scans_Nil reads_as_def)
next
  case (2 c s)
  consider (ascii) "code c < 0x80" | (bad) "0x80 \<le> code c" "rune_size (c # s) = 0"
    | (rune) "0x80 \<le> code c" "rune_size (c # s) \<noteq> 0" by linarith
  then show ?case
  proof cases
    case ascii
    then have "sanitize (c # s) = [c] @ sanitize s"
      by (simp add: rune_size_ascii)
    with 2 ascii escape_ascii_ok [OF ascii] show ?thesis
      by (simp only: escape_body.simps if_P) (blast intro: scans_append reads_as_append)
  next
    case bad
    have "char_of (239 :: nat) = CHR 0xEF" "char_of (191 :: nat) = CHR 0xBF" "char_of (189 :: nat) = CHR 0xBD"
      by (rule char_eqI [symmetric], simp add: code_def)+
    then have "encode_rune 0xFFFD = replacement"
      by (simp add: encode_rune_def replacement_def)
    then have "scans (bslash # CHR ''u'' # hex4 0xFFFD)" "reads_as (bslash # CHR ''u'' # hex4 0xFFFD) replacement"
      using scans_hex4 [of "0xFFFD"] reads_as_hex4 [of "0xFFFD"] by simp_all
    note piece = this
    with 2 bad show ?thesis
      using scans_append [OF piece(1), of "escape_body s"] reads_as_append [OF piece(2), of "escape_body s" "sanitize s"]
      by simp
  next
    case rune
    with 2 escape_rune_ok [of c s] show ?thesis
      by (auto intro: scans_append reads_as_append)
  qed
qed

lemma scan_json_string: "scan_string (escape_body s @ dquote # rest) = Some (escape_body s, rest)"
  using escape_body_ok [of s] by (simp add: scans_def)

lemma unquote_escape_body: "unquote (escape_body s) = sanitize s"
  using escape_body_ok [of s] unfolding reads_as_def by (metis append_Nil2 unquote.simps(1))

subsection \<open>Documents\<close>

text \<open>Members of an object stay in order, repeated names included; a number is its literal.\<close>

datatype json =
    JNull
  | JBool bool
  | JNum string
  | JStr string
  | JArr "json list"
  | JObj "(string \<times> json) list"

definition is_space :: "char \<Rightarrow> bool" where
  "is_space c \<longleftrightarrow> code c \<in> {32, 9, 10, 13}"

definition skip_ws :: "string \<Rightarrow> string" where
  "skip_ws s = dropWhile is_space s"

definition starts_with :: "char \<Rightarrow> string \<Rightarrow> bool" where
  "starts_with c s \<longleftrightarrow> take 1 s = [c]"

definition scan_digits :: "string \<Rightarrow> string \<times> string" where
  "scan_digits s = (takeWhile is_digit s, dropWhile is_digit s)"

definition scan_int :: "string \<Rightarrow> (string \<times> string) option" where
  "scan_int s =
     (if starts_with CHR ''0'' s then Some (''0'', tl s)
      else if fst (scan_digits s) = [] then None
      else Some (scan_digits s))"

definition scan_frac :: "string \<Rightarrow> (string \<times> string) option" where
  "scan_frac s =
     (if starts_with CHR ''.'' s then
        (case scan_digits (tl s) of (ds, r) \<Rightarrow> if ds = [] then None else Some (CHR ''.'' # ds, r))
      else Some ([], s))"

definition scan_exp :: "string \<Rightarrow> (string \<times> string) option" where
  "scan_exp s =
     (if starts_with CHR ''e'' s \<or> starts_with CHR ''E'' s then
        (let sg = (if starts_with CHR ''+'' (tl s) \<or> starts_with CHR ''-'' (tl s) then take 1 (tl s) else [])
         in case scan_digits (drop (length sg) (tl s)) of
              (ds, r) \<Rightarrow> if ds = [] then None else Some (hd s # sg @ ds, r))
      else Some ([], s))"

definition scan_number :: "string \<Rightarrow> (string \<times> string) option" where
  "scan_number s =
     (let sg = (if starts_with CHR ''-'' s then ''-'' else [])
      in case scan_int (drop (length sg) s) of
           None \<Rightarrow> None
         | Some (i, r) \<Rightarrow>
             (case scan_frac r of
                None \<Rightarrow> None
              | Some (f, r) \<Rightarrow>
                  (case scan_exp r of
                     None \<Rightarrow> None
                   | Some (e, r) \<Rightarrow> Some (sg @ i @ f @ e, r))))"

text \<open>
  The parser. Two calls in a row consume a character, so fuel above twice the length of the
  input is enough (\<open>parse_fuel\<close> below); \<open>d\<close> is the nesting depth that is left.
\<close>

fun parse_value :: "nat \<Rightarrow> nat \<Rightarrow> string \<Rightarrow> (json \<times> string) option"
  and parse_elems :: "nat \<Rightarrow> nat \<Rightarrow> string \<Rightarrow> (json list \<times> string) option"
  and parse_members :: "nat \<Rightarrow> nat \<Rightarrow> string \<Rightarrow> ((string \<times> json) list \<times> string) option" where
  "parse_value 0 d s = None"
| "parse_value (Suc n) d s =
     (if starts_with dquote s then map_option (\<lambda>(raw, r). (JStr (unquote raw), r)) (scan_string (tl s))
      else if starts_with CHR ''{'' s then
        (if d = 0 then None
         else let t = skip_ws (tl s)
              in if starts_with CHR ''}'' t then Some (JObj [], tl t)
                 else map_option (\<lambda>(ms, r). (JObj ms, r)) (parse_members n (d - 1) t))
      else if starts_with CHR ''['' s then
        (if d = 0 then None
         else let t = skip_ws (tl s)
              in if starts_with CHR '']'' t then Some (JArr [], tl t)
                 else map_option (\<lambda>(vs, r). (JArr vs, r)) (parse_elems n (d - 1) t))
      else if take 4 s = ''true'' then Some (JBool True, drop 4 s)
      else if take 5 s = ''false'' then Some (JBool False, drop 5 s)
      else if take 4 s = ''null'' then Some (JNull, drop 4 s)
      else map_option (\<lambda>(l, r). (JNum l, r)) (scan_number s))"
| "parse_elems 0 d s = None"
| "parse_elems (Suc n) d s =
     (case parse_value n d s of
        None \<Rightarrow> None
      | Some (v, r) \<Rightarrow>
          (let r = skip_ws r
           in if starts_with CHR '']'' r then Some ([v], tl r)
              else if starts_with CHR '','' r then
                map_option (\<lambda>(vs, r). (v # vs, r)) (parse_elems n d (skip_ws (tl r)))
              else None))"
| "parse_members 0 d s = None"
| "parse_members (Suc n) d s =
     (if starts_with dquote s then
        (case scan_string (tl s) of
           None \<Rightarrow> None
         | Some (raw, r) \<Rightarrow>
             (let r = skip_ws r
              in if starts_with CHR '':'' r then
                   (case parse_value n d (skip_ws (tl r)) of
                      None \<Rightarrow> None
                    | Some (v, r) \<Rightarrow>
                        (let r = skip_ws r
                         in if starts_with CHR ''}'' r then Some ([(unquote raw, v)], tl r)
                            else if starts_with CHR '','' r then
                              map_option (\<lambda>(ms, r). ((unquote raw, v) # ms, r)) (parse_members n d (skip_ws (tl r)))
                            else None))
                 else None))
      else None)"

definition max_depth :: nat where
  "max_depth = 10000"

definition json_parse :: "string \<Rightarrow> json option" where
  "json_parse s =
     (case parse_value (Suc (2 * length (skip_ws s))) max_depth (skip_ws s) of
        None \<Rightarrow> None
      | Some (v, r) \<Rightarrow> if skip_ws r = [] then Some v else None)"

subsection \<open>Writing documents\<close>

fun join :: "string \<Rightarrow> string list \<Rightarrow> string" where
  "join sep [] = []"
| "join sep [x] = x"
| "join sep (x # y # ys) = x @ sep @ join sep (y # ys)"

fun json_text :: "json \<Rightarrow> string" where
  "json_text JNull = ''null''"
| "json_text (JBool b) = (if b then ''true'' else ''false'')"
| "json_text (JNum l) = l"
| "json_text (JStr s) = json_string s"
| "json_text (JArr vs) = ''['' @ join '','' (map json_text vs) @ '']''"
| "json_text (JObj ms) = ''{'' @ join '','' (map (\<lambda>(k, v). json_string k @ '':'' @ json_text v) ms) @ ''}''"

text \<open>\<open>json.MarshalIndent(v, "", "  ")\<close> of a struct whose fields are strings and numbers.\<close>

definition newline :: string where
  "newline = [CHR 0x0A]"

definition json_indented :: "(string \<times> json) list \<Rightarrow> string" where
  "json_indented ms =
     ''{'' @ newline @ ''  '' @
     join ('','' @ newline @ ''  '') (map (\<lambda>(k, v). json_string k @ '': '' @ json_text v) ms) @ newline @ ''}''"

subsection \<open>The fuel is enough\<close>

lemma scan_string_shorter: "scan_string s = Some (raw, r) \<Longrightarrow> length r < length s"
proof (induction s arbitrary: raw r rule: scan_string.induct)
  case (2 c s)
  show ?case
  proof (cases "c = dquote \<or> c \<noteq> bslash")
    case True
    with 2 show ?thesis by (fastforce split: if_splits)
  next
    case False
    then obtain d t where s: "s = d # t" using "2.prems" by (cases s) auto
    show ?thesis
    proof (cases "d = CHR ''u''")
      case True
      then obtain raw' where "scan_string (drop 4 t) = Some (raw', r)" "get_hex4 t \<noteq> None"
        using "2.prems" False s by (auto split: if_splits)
      from "2.IH"(1) [OF _ _ s _ this(1)] this(2) True False s show ?thesis by simp
    next
      case neq: False
      then obtain raw' where "scan_string t = Some (raw', r)" "simple_escape d \<noteq> None"
        using "2.prems" False s by (auto split: if_splits)
      from "2.IH"(2) [OF _ _ s _ _ this(1)] this(2) neq False s show ?thesis by simp
    qed
  qed
qed simp

lemma skip_ws_le: "length (skip_ws s) \<le> length s"
  by (simp add: skip_ws_def length_dropWhile_le)

lemma starts_with_tl: "starts_with c s \<Longrightarrow> length (tl s) < length s"
  by (cases s) (simp_all add: starts_with_def)

lemma scan_digits_eq: "scan_digits s = (ds, r) \<Longrightarrow> s = ds @ r"
  by (auto simp: scan_digits_def)

lemma starts_with_Cons: "starts_with c s \<longleftrightarrow> (\<exists>t. s = c # t)"
  by (cases s) (auto simp: starts_with_def)

lemma scan_int_eq: "scan_int s = Some (i, r) \<Longrightarrow> s = i @ r \<and> i \<noteq> []"
  by (auto simp: scan_int_def starts_with_Cons split: if_splits prod.splits dest: scan_digits_eq)

lemma scan_frac_eq: "scan_frac s = Some (i, r) \<Longrightarrow> s = i @ r"
  by (auto simp: scan_frac_def starts_with_Cons split: if_splits prod.splits dest: scan_digits_eq)

lemma scan_exp_eq: "scan_exp s = Some (i, r) \<Longrightarrow> s = i @ r"
  by (auto simp: scan_exp_def starts_with_Cons Let_def split: if_splits prod.splits dest!: scan_digits_eq)

lemma scan_number_eq: "scan_number s = Some (l, r) \<Longrightarrow> s = l @ r \<and> l \<noteq> []"
  by (auto simp: scan_number_def starts_with_Cons Let_def split: if_splits option.splits prod.splits
      dest!: scan_int_eq scan_frac_eq scan_exp_eq)

lemma skip_ws_tl: "starts_with c s \<Longrightarrow> length (skip_ws (tl s)) < length s"
  using starts_with_tl [of c s] skip_ws_le [of "tl s"] by simp

text \<open>After an item of a list: the closing bracket, or a comma and the rest of the list.\<close>

lemma tail_shorter:
  assumes "length r1 < length s"
    and "r = tl (skip_ws r1) \<or> starts_with c (skip_ws r1) \<and> length r < length (skip_ws (tl (skip_ws r1)))"
  shows "length r < length s"
proof -
  have "length (skip_ws r1) < length s" using skip_ws_le [of r1] assms(1) by simp
  then show ?thesis using assms(2) skip_ws_tl [of c "skip_ws r1"] by auto
qed

lemma parse_shorter:
  "parse_value n d s = Some (v, r) \<Longrightarrow> length r < length s"
  "parse_elems n d s = Some (vs, r) \<Longrightarrow> length r < length s"
  "parse_members n d s = Some (ms, r) \<Longrightarrow> length r < length s"
proof (induction n d s and n d s and n d s arbitrary: v r and vs r and ms r
    rule: parse_value_parse_elems_parse_members.induct)
  case (2 n d s)
  let ?t = "skip_ws (tl s)"
  consider (str) raw where "starts_with dquote s" "scan_string (tl s) = Some (raw, r)"
    | (opened) c where "starts_with c s" "r = tl ?t"
    | (obj) ms where "starts_with CHR ''{'' s" "parse_members n (d - 1) ?t = Some (ms, r)" "d \<noteq> 0"
        "\<not> starts_with CHR ''}'' ?t"
    | (arr) vs where "starts_with CHR ''['' s" "parse_elems n (d - 1) ?t = Some (vs, r)" "d \<noteq> 0"
        "\<not> starts_with CHR '']'' ?t"
    | (empty) "s = []" | (lit) "s \<noteq> []" "r = drop 4 s \<or> r = drop 5 s"
    | (num) l where "scan_number s = Some (l, r)"
    using "2.prems" by (auto simp: Let_def split: if_splits)
  then show ?case
  proof cases
    case str
    then show ?thesis using scan_string_shorter starts_with_tl less_trans by blast
  next
    case opened
    then show ?thesis using skip_ws_tl [OF opened(1)] by simp
  next
    case obj
    have "\<not> starts_with dquote s" using obj(1) by (auto simp: starts_with_Cons)
    from "2.IH"(1) [OF this obj(1,3) refl obj(4,2)] show ?thesis using skip_ws_tl [OF obj(1)] by simp
  next
    case arr
    have "\<not> starts_with dquote s" "\<not> starts_with CHR ''{'' s" using arr(1) by (auto simp: starts_with_Cons)
    from "2.IH"(2) [OF this arr(1,3) refl arr(4,2)] show ?thesis using skip_ws_tl [OF arr(1)] by simp
  next
    case lit
    then show ?thesis by auto
  next
    case empty
    then show ?thesis
      using "2.prems" by (simp add: starts_with_Cons scan_number_def scan_int_def scan_digits_def)
  next
    case num
    then show ?thesis using scan_number_eq [OF num] by simp
  qed
next
  case (4 n d s)
  obtain v1 r1 where one: "parse_value n d s = Some (v1, r1)"
    using "4.prems" by (auto split: option.splits)
  have "r = tl (skip_ws r1) \<or> starts_with CHR '','' (skip_ws r1) \<and> length r < length (skip_ws (tl (skip_ws r1)))"
    using "4.prems" one "4.IH"(2) [OF one refl refl] by (auto simp: Let_def split: if_splits)
  then show ?case by (rule tail_shorter [OF "4.IH"(1) [OF one]])
next
  case (6 n d s)
  obtain raw r1 where str: "starts_with dquote s" "scan_string (tl s) = Some (raw, r1)"
    using "6.prems" by (auto split: if_splits option.splits)
  then have r1: "length (skip_ws r1) < length s"
    using scan_string_shorter [OF str(2)] starts_with_tl [OF str(1)] skip_ws_le [of r1] by simp
  obtain v1 r2 where colon: "starts_with CHR '':'' (skip_ws r1)"
      and one: "parse_value n d (skip_ws (tl (skip_ws r1))) = Some (v1, r2)"
    using "6.prems" str by (auto simp: Let_def split: if_splits option.splits)
  from "6.IH"(1) [OF str refl refl colon one] have r2: "length r2 < length s"
    using skip_ws_tl [OF colon] r1 by simp
  have "r = tl (skip_ws r2) \<or> starts_with CHR '','' (skip_ws r2) \<and> length r < length (skip_ws (tl (skip_ws r2)))"
    using "6.prems" str colon one "6.IH"(2) [OF str refl refl colon one refl refl]
    by (auto simp: Let_def split: if_splits)
  then show ?case by (rule tail_shorter [OF r2])
qed simp_all

lemma parse_fuel:
  "2 * length s < n \<Longrightarrow> 2 * length s < m \<Longrightarrow> parse_value n d s = parse_value m d s"
  "2 * length s + 1 < n \<Longrightarrow> 2 * length s + 1 < m \<Longrightarrow> parse_elems n d s = parse_elems m d s"
  "2 * length s < n \<Longrightarrow> 2 * length s < m \<Longrightarrow> parse_members n d s = parse_members m d s"
proof (induction n d s and n d s and n d s arbitrary: m and m and m
    rule: parse_value_parse_elems_parse_members.induct)
  case (2 n d s)
  obtain k where m: "m = Suc k" using "2.prems" by (cases m) auto
  have small: "2 * length (skip_ws (tl s)) + 1 < n" "2 * length (skip_ws (tl s)) + 1 < k" if "starts_with c s" for c
    using skip_ws_tl [OF that] "2.prems" m by simp_all
  let ?t = "skip_ws (tl s)"
  have "parse_members n (d - 1) ?t = parse_members k (d - 1) ?t"
    if "\<not> starts_with dquote s" "starts_with CHR ''{'' s" "d \<noteq> 0" "\<not> starts_with CHR ''}'' ?t"
    using small [OF that(2)] by (intro "2.IH"(1) [OF that(1-3) refl that(4)]) simp_all
  moreover have "parse_elems n (d - 1) ?t = parse_elems k (d - 1) ?t"
    if "\<not> starts_with dquote s" "\<not> starts_with CHR ''{'' s" "starts_with CHR ''['' s" "d \<noteq> 0"
      "\<not> starts_with CHR '']'' ?t"
    using small [OF that(3)] by (intro "2.IH"(2) [OF that(1-4) refl that(5)])
  ultimately show ?case
    unfolding m by (simp add: Let_def)
next
  case (4 n d s)
  obtain k where m: "m = Suc k" using "4.prems" by (cases m) auto
  have "parse_value n d s = parse_value k d s"
    using "4.prems" m by (intro "4.IH"(1)) simp_all
  moreover have "parse_elems n d (skip_ws (tl (skip_ws r))) = parse_elems k d (skip_ws (tl (skip_ws r)))"
    if v: "parse_value n d s = Some (v, r)" and c: "starts_with CHR '','' (skip_ws r)" for v r
  proof (rule "4.IH"(2) [OF v refl refl _ c])
    have "length (skip_ws (tl (skip_ws r))) < length s"
      using parse_shorter(1) [OF v] skip_ws_tl [OF c] skip_ws_le [of r] by simp
    then show "2 * length (skip_ws (tl (skip_ws r))) + 1 < n" "2 * length (skip_ws (tl (skip_ws r))) + 1 < k"
      using "4.prems" m by simp_all
    show "\<not> starts_with CHR '']'' (skip_ws r)" using c by (auto simp: starts_with_Cons)
  qed
  ultimately show ?case
    unfolding m by (auto simp: Let_def split: option.splits)
next
  case (6 n d s)
  obtain k where m: "m = Suc k" using "6.prems" by (cases m) auto
  show ?case
  proof (cases "starts_with dquote s \<and> (\<exists>raw r. scan_string (tl s) = Some (raw, r) \<and> starts_with CHR '':'' (skip_ws r))")
    case True
    then obtain raw r where str: "starts_with dquote s" "scan_string (tl s) = Some (raw, r)"
        and colon: "starts_with CHR '':'' (skip_ws r)" by blast
    let ?v = "skip_ws (tl (skip_ws r))"
    have len: "length ?v < length s"
      using scan_string_shorter [OF str(2)] starts_with_tl [OF str(1)] skip_ws_le [of r] skip_ws_tl [OF colon] by simp
    have "parse_value n d ?v = parse_value k d ?v"
      using "6.prems" m len by (intro "6.IH"(1) [OF str refl refl colon]) simp_all
    moreover have "parse_members n d (skip_ws (tl (skip_ws r2))) = parse_members k d (skip_ws (tl (skip_ws r2)))"
      if v: "parse_value n d ?v = Some (v, r2)" and c: "starts_with CHR '','' (skip_ws r2)" for v r2
    proof (rule "6.IH"(2) [OF str refl refl colon v refl refl _ c])
      have "length (skip_ws (tl (skip_ws r2))) < length s"
        using parse_shorter(1) [OF v] skip_ws_tl [OF c] skip_ws_le [of r2] len by simp
      then show "2 * length (skip_ws (tl (skip_ws r2))) < n" "2 * length (skip_ws (tl (skip_ws r2))) < k"
        using "6.prems" m by simp_all
      show "\<not> starts_with CHR ''}'' (skip_ws r2)" using c by (auto simp: starts_with_Cons)
    qed
    ultimately show ?thesis
      unfolding m using str colon by (auto simp: Let_def split: option.splits)
  next
    case False
    then show ?thesis
      unfolding m by (auto simp: Let_def split: option.splits)
  qed
qed simp_all

subsection \<open>An indented object is read back\<close>

lemma starts_with_simps [simp]: "\<not> starts_with c []" "starts_with c (d # s) \<longleftrightarrow> d = c"
  by (auto simp: starts_with_def)

lemma skip_ws_simps [simp]: "skip_ws [] = []" "skip_ws (c # s) = (if is_space c then skip_ws s else c # s)"
  by (simp_all add: skip_ws_def)

lemma code_of_char: "code c = of_char c"
  by (simp add: code_def)

lemma spaces [simp]: "is_space CHR '' ''" "is_space CHR 0x0A" "\<not> is_space dquote" "\<not> is_space CHR ''{''"
  "\<not> is_space CHR ''}''" "\<not> is_space CHR '':''" "\<not> is_space CHR '',''" "\<not> is_space CHR ''-''"
  by (simp_all add: is_space_def code_of_char)

lemma not_space_digit [simp]: "is_digit c \<Longrightarrow> \<not> is_space c"
  by (auto simp: is_digit_def is_space_def code_of_char)

text \<open>What may follow a number without becoming part of it.\<close>

definition ends_number :: "string \<Rightarrow> bool" where
  "ends_number s \<longleftrightarrow> (case s of [] \<Rightarrow> True | c # _ \<Rightarrow> c = CHR '','' \<or> c = CHR 0x0A \<or> c = CHR '']'' \<or> c = CHR ''}'')"

lemma ends_number_simps [simp]: "ends_number (CHR '','' # s)" "ends_number (CHR 0x0A # s)"
  "ends_number (CHR '']'' # s)" "ends_number (CHR ''}'' # s)"
  by (simp_all add: ends_number_def)

lemma dec_zero_head: "dec n = CHR ''0'' # t \<Longrightarrow> n = 0 \<and> t = []"
proof (induction n arbitrary: t rule: dec.induct)
  case (1 n)
  show ?case
  proof (cases "n < 10")
    case True
    with "1.prems" have "digit_char n = CHR ''0''" "t = []" by (simp_all add: dec.simps [of n])
    then have "digit_val (digit_char n) = 0" by (simp add: digit_val_def)
    with True \<open>t = []\<close> show ?thesis by simp
  next
    case False
    then obtain u where "dec (n div 10) = CHR ''0'' # u"
      using "1.prems" by (subst (asm) dec.simps) (cases "dec (n div 10)"; simp)
    from "1.IH" [OF False this] False show ?thesis by (simp add: div_eq_0_iff)
  qed
qed

lemma scan_digits_append:
  "list_all is_digit ds \<Longrightarrow> ends_number r \<Longrightarrow> scan_digits (ds @ r) = (ds, r)"
  by (cases r) (auto simp: scan_digits_def list_all_iff ends_number_def is_digit_def takeWhile_append2 dropWhile_append2)

lemma scan_int_dec: "ends_number r \<Longrightarrow> scan_int (dec n @ r) = Some (dec n, r)"
proof -
  assume r: "ends_number r"
  have d: "scan_digits (dec n @ r) = (dec n, r)"
    using r dec_digits by (intro scan_digits_append) (auto simp: list_all_iff)
  obtain c t where ct: "dec n = c # t" by (cases "dec n") auto
  show ?thesis
  proof (cases "c = CHR ''0''")
    case True
    with dec_zero_head [of n t] ct show ?thesis by (simp add: scan_int_def)
  next
    case False
    with d ct show ?thesis by (simp add: scan_int_def)
  qed
qed

lemma scan_tail: "ends_number r \<Longrightarrow> scan_frac r = Some ([], r) \<and> scan_exp r = Some ([], r)"
  by (cases r) (auto simp: scan_frac_def scan_exp_def ends_number_def)

text \<open>\<open>strconv.FormatInt(n, 10)\<close>.\<close>

definition sdec :: "i64 \<Rightarrow> string" where
  "sdec n = (if sint n < 0 then CHR ''-'' # dec (nat (- sint n)) else dec (nat (sint n)))"

lemma dec_not_minus [simp]: "\<not> starts_with CHR ''-'' (dec n @ r)"
  using dec_digits [of "CHR ''-''" n] by (cases "dec n") (auto simp: is_digit_def)

lemma scan_number_dec: "ends_number r \<Longrightarrow> scan_number (dec n @ r) = Some (dec n, r)"
  by (simp add: scan_number_def scan_int_dec scan_tail)

lemma scan_number_sdec: "ends_number r \<Longrightarrow> scan_number (sdec n @ r) = Some (sdec n, r)"
  by (simp add: sdec_def scan_number_dec) (simp add: scan_number_def scan_int_dec scan_tail)

definition is_literal :: "string \<Rightarrow> bool" where
  "is_literal l \<longleftrightarrow> (\<exists>c t. l = c # t \<and> (is_digit c \<or> c = CHR ''-'')) \<and>
     (\<forall>r. ends_number r \<longrightarrow> scan_number (l @ r) = Some (l, r))"

lemma is_literal_dec: "is_literal (dec n)" and is_literal_sdec: "is_literal (sdec z)"
proof -
  have head: "\<exists>c t. dec k = c # t \<and> is_digit c" for k
    using dec_digits [of _ k] by (cases "dec k") auto
  then show "is_literal (dec n)"
    using scan_number_dec by (force simp: is_literal_def)
  show "is_literal (sdec z)"
    using head scan_number_sdec by (force simp: is_literal_def sdec_def)
qed

fun scalar :: "json \<Rightarrow> bool" where
  "scalar (JNum l) \<longleftrightarrow> is_literal l"
| "scalar (JStr s) \<longleftrightarrow> True"
| "scalar _ \<longleftrightarrow> False"

fun clean :: "json \<Rightarrow> json" where
  "clean (JStr s) = JStr (sanitize s)"
| "clean v = v"

lemma literal_head:
  assumes "is_digit c \<or> c = CHR ''-''"
  shows "c \<noteq> dquote \<and> c \<noteq> CHR ''{'' \<and> c \<noteq> CHR ''['' \<and> c \<noteq> CHR ''t'' \<and> c \<noteq> CHR ''f'' \<and> c \<noteq> CHR ''n'' \<and> \<not> is_space c"
  using assms by (auto simp: is_digit_def is_space_def code_of_char)

lemma parse_scalar:
  assumes "scalar v" and "ends_number r"
  shows "parse_value (Suc n) d (json_text v @ r) = Some (clean v, r)" "skip_ws (json_text v @ r) = json_text v @ r"
proof -
  show "parse_value (Suc n) d (json_text v @ r) = Some (clean v, r)"
  proof (cases v)
    case (JStr s)
    then show ?thesis by (simp add: json_string_def scan_json_string unquote_escape_body)
  next
    case (JNum l)
    then obtain c t where ct: "l = c # t" "is_digit c \<or> c = CHR ''-''"
      using assms(1) by (auto simp: is_literal_def)
    have "scan_number (l @ r) = Some (l, r)"
      using assms JNum by (simp add: is_literal_def)
    with JNum ct literal_head [OF ct(2)] show ?thesis by (simp add: take_Cons')
  qed (use assms(1) in simp_all)
  show "skip_ws (json_text v @ r) = json_text v @ r"
  proof (cases v)
    case (JNum l)
    then obtain c t where ct: "l = c # t" "is_digit c \<or> c = CHR ''-''"
      using assms(1) by (auto simp: is_literal_def)
    with JNum literal_head [OF ct(2)] show ?thesis by simp
  qed (use assms(1) in \<open>simp_all add: json_string_def\<close>)
qed

definition member_text :: "string \<times> json \<Rightarrow> string" where
  "member_text m = json_string (fst m) @ '': '' @ json_text (snd m)"

lemma parse_members_Suc:
  assumes "scalar v" and "ends_number r" and "0 < n"
  shows "parse_members (Suc n) d (member_text (k, v) @ r) =
    (let r = skip_ws r
     in if starts_with CHR ''}'' r then Some ([(sanitize k, clean v)], tl r)
        else if starts_with CHR '','' r then
          map_option (\<lambda>(ms, r). ((sanitize k, clean v) # ms, r)) (parse_members n d (skip_ws (tl r)))
        else None)"
proof -
  obtain n' where n: "n = Suc n'" using assms(3) by (cases n) auto
  note v = parse_scalar [OF assms(1,2)]
  have "scan_string (escape_body k @ dquote # CHR '':'' # CHR '' '' # json_text v @ r) =
      Some (escape_body k, CHR '':'' # CHR '' '' # json_text v @ r)"
    by (rule scan_json_string)
  then show ?thesis
    using v(1) [of n' d] v(2) unfolding n
    by (simp add: member_text_def json_string_def unquote_escape_body Let_def del: parse_value.simps)
qed

lemma parse_members_indented:
  "ms \<noteq> [] \<Longrightarrow> list_all (\<lambda>m. scalar (snd m)) ms \<Longrightarrow> length ms < n \<Longrightarrow>
    parse_members n d (join ('','' @ newline @ ''  '') (map member_text ms) @ newline @ ''}'' @ r) =
      Some (map (\<lambda>(k, v). (sanitize k, clean v)) ms, r)"
proof (induction ms arbitrary: n)
  case (Cons m ms)
  obtain k v where m: "m = (k, v)" by fastforce
  obtain n' where n: "n = Suc n'" "0 < n'" using Cons.prems(3) by (cases n) auto
  have v: "scalar v" using Cons.prems(2) m by simp
  show ?case
  proof (cases ms)
    case Nil
    then show ?thesis
      using parse_members_Suc [OF v _ n(2), of "newline @ ''}'' @ r" d k]
      by (simp add: m n newline_def Let_def del: parse_members.simps)
  next
    case (Cons m' ms')
    let ?rest = "join ('','' @ newline @ ''  '') (map member_text ms) @ newline @ ''}'' @ r"
    have "skip_ws ?rest = ?rest"
      by (cases ms') (simp_all add: Cons member_text_def json_string_def)
    moreover have "parse_members n' d ?rest = Some (map (\<lambda>(k, v). (sanitize k, clean v)) ms, r)"
      using Cons.prems Cons n by (intro Cons.IH) simp_all
    ultimately show ?thesis
      using parse_members_Suc [OF v _ n(2), of "('','' @ newline @ ''  '') @ ?rest" d k] Cons
      by (simp add: m n newline_def Let_def del: parse_members.simps)
  qed
qed simp

lemma json_parse_indented:
  assumes "ms \<noteq> []" and "list_all (\<lambda>m. scalar (snd m)) ms"
  shows "json_parse (json_indented ms) = Some (JObj (map (\<lambda>(k, v). (sanitize k, clean v)) ms))"
proof -
  let ?body = "join ('','' @ newline @ ''  '') (map member_text ms) @ newline @ ''}''"
  have doc: "json_indented ms = CHR ''{'' # newline @ ''  '' @ ?body"
    by (simp add: json_indented_def member_text_def [abs_def] case_prod_beta')
  have len: "length ms \<le> length (join sep (map member_text ms))" for sep
  proof (induction ms)
    case (Cons m ms)
    then show ?case by (cases ms) (simp_all add: member_text_def json_string_def)
  qed simp
  have head: "skip_ws ?body = ?body" "\<not> starts_with CHR ''}'' ?body"
    using assms(1) by (cases ms; cases "tl ms"; simp add: member_text_def json_string_def)+
  have "parse_members (2 * length (json_indented ms)) (max_depth - 1) ?body =
      Some (map (\<lambda>(k, v). (sanitize k, clean v)) ms, [])"
    using parse_members_indented [OF assms, where r = "[]" and n = "2 * length (json_indented ms)"]
      len [of "'','' @ newline @ ''  ''"] by (simp add: doc)
  then show ?thesis
    using head by (simp add: json_parse_def doc newline_def max_depth_def Let_def del: parse_members.simps)
qed

subsection \<open>Names and kinds of members\<close>

text \<open>
  How member names are compared without regard to case: ASCII letters go to upper case, and so do
  the two characters outside ASCII that fold into it (U+017F to S, U+212A to K).
\<close>

definition fold_ascii :: "char \<Rightarrow> char" where
  "fold_ascii c = (if code_in 97 122 c then char_of (code c - 32) else c)"

fun fold_name :: "string \<Rightarrow> string" where
  "fold_name [] = []"
| "fold_name (c # s) =
     (if take 2 (c # s) = [CHR 0xC5, CHR 0xBF] then CHR ''S'' # fold_name (drop 1 s)
      else if take 3 (c # s) = [CHR 0xE2, CHR 0x84, CHR 0xAA] then CHR ''K'' # fold_name (drop 2 s)
      else fold_ascii c # fold_name s)"

text \<open>The word for a value in the texts of type errors.\<close>

definition json_kind :: "json \<Rightarrow> string" where
  "json_kind v =
     (case v of
        JNull \<Rightarrow> ''null'' | JBool _ \<Rightarrow> ''bool'' | JNum _ \<Rightarrow> ''number'' | JStr _ \<Rightarrow> ''string''
      | JArr _ \<Rightarrow> ''array'' | JObj _ \<Rightarrow> ''object'')"

subsection \<open>Texts put together\<close>

lemma rune_size_append: "rune_size s \<noteq> 0 \<Longrightarrow> rune_size (s @ r) = rune_size s"
  by (erule rune_sizeE) simp_all

lemma valid_utf8_append: "valid_utf8 s \<Longrightarrow> valid_utf8 r \<Longrightarrow> valid_utf8 (s @ r)"
proof (induction s rule: valid_utf8.induct)
  case (2 c s)
  then have r: "rune_size (c # s) \<noteq> 0" by simp
  then have "rune_size (c # s @ r) = rune_size (c # s)"
    using rune_size_append [of "c # s" r] by simp
  moreover have "drop (rune_size (c # s) - 1) (s @ r) = drop (rune_size (c # s) - 1) s @ r"
    using rune_size_le [of "c # s"] by simp
  ultimately show ?case using 2 by simp
qed simp

end
