(* ===== verification/Std_Hash.thy ===== *)
theory Std_Hash
  imports Prelude
begin

section \<open>The hash functions of Go's standard library\<close>

text \<open>
  \<open>crypto/sha256\<close> and \<open>crypto/sha1\<close> as FIPS 180-4 defines them, and \<open>crypto/hmac\<close>
  over SHA-256 as RFC 2104 defines it, all executable. The proofs of the development use two
  facts about them: a digest has its fixed length, and nothing more; that two inputs collide is
  never assumed away, it is an explicit alternative of the theorems (\<open>collides\<close>).
\<close>

unbundle bit_operations_syntax

type_synonym u32 = "32 word"

subsection \<open>Padding and words\<close>

definition rotr :: "nat \<Rightarrow> u32 \<Rightarrow> u32" where
  "rotr n x = (drop_bit n x) OR (push_bit (32 - n) x)"

definition rotl :: "nat \<Rightarrow> u32 \<Rightarrow> u32" where
  "rotl n x = (push_bit n x) OR (drop_bit (32 - n) x)"

definition sha_pad :: "bytes \<Rightarrow> bytes" where
  "sha_pad m = m @ [0x80] @ replicate ((119 - length m mod 64) mod 64) 0 @
     put_uint64 (of_nat (8 * length m))"

fun word_of_bytes :: "bytes \<Rightarrow> u32 list" where
  "word_of_bytes (a # b # c # d # r) =
     (push_bit 24 (ucast a) OR push_bit 16 (ucast b) OR push_bit 8 (ucast c) OR ucast d) #
     word_of_bytes r"
| "word_of_bytes _ = []"

definition put_uint32 :: "u32 \<Rightarrow> bytes" where
  "put_uint32 w = [ucast (drop_bit 24 w), ucast (drop_bit 16 w), ucast (drop_bit 8 w), ucast w]"

lemma length_put_uint32 [simp, byte_lengths]: "length (put_uint32 w) = 4"
  by (simp add: put_uint32_def)

subsection \<open>SHA-256\<close>

type_synonym sha_state = "u32 \<times> u32 \<times> u32 \<times> u32 \<times> u32 \<times> u32 \<times> u32 \<times> u32"

text \<open>The round constants and the initial state, in decimal.\<close>

definition sha256_k :: "u32 list" where
  "sha256_k =
    [1116352408, 1899447441, 3049323471, 3921009573, 961987163, 1508970993, 2453635748, 2870763221,
     3624381080, 310598401, 607225278, 1426881987, 1925078388, 2162078206, 2614888103, 3248222580,
     3835390401, 4022224774, 264347078, 604807628, 770255983, 1249150122, 1555081692, 1996064986,
     2554220882, 2821834349, 2952996808, 3210313671, 3336571891, 3584528711, 113926993, 338241895,
     666307205, 773529912, 1294757372, 1396182291, 1695183700, 1986661051, 2177026350, 2456956037,
     2730485921, 2820302411, 3259730800, 3345764771, 3516065817, 3600352804, 4094571909, 275423344,
     430227734, 506948616, 659060556, 883997877, 958139571, 1322822218, 1537002063, 1747873779,
     1955562222, 2024104815, 2227730452, 2361852424, 2428436474, 2756734187, 3204031479, 3329325298]"

definition sha256_init :: sha_state where
  "sha256_init =
    (1779033703, 3144134277, 1013904242, 2773480762,
     1359893119, 2600822924, 528734635, 1541459225)"

fun sha256_round :: "sha_state \<Rightarrow> u32 \<Rightarrow> u32 \<Rightarrow> sha_state" where
  "sha256_round (a, b, c, d, e, f, g, h) k w =
     (let t1 = h + (rotr 6 e XOR rotr 11 e XOR rotr 25 e) + ((e AND f) XOR (NOT e AND g)) + k + w;
          t2 = (rotr 2 a XOR rotr 13 a XOR rotr 22 a) + ((a AND b) XOR (a AND c) XOR (b AND c))
      in (t1 + t2, a, b, c, d + t1, e, f, g))"

text \<open>The message schedule as a window of sixteen words: \<open>W\<^sub>t, \<dots>, W\<^sub>t\<^sub>+\<^sub>1\<^sub>5\<close>.\<close>

definition sha256_next :: "u32 list \<Rightarrow> u32" where
  "sha256_next ws =
     (let x = ws ! 1; y = ws ! 14
      in (rotr 17 y XOR rotr 19 y XOR drop_bit 10 y) + ws ! 9 +
         (rotr 7 x XOR rotr 18 x XOR drop_bit 3 x) + ws ! 0)"

fun sha256_rounds :: "sha_state \<Rightarrow> u32 list \<Rightarrow> u32 list \<Rightarrow> sha_state" where
  "sha256_rounds st ws [] = st"
| "sha256_rounds st ws (k # ks) =
     sha256_rounds (sha256_round st k (ws ! 0)) (tl ws @ [sha256_next ws]) ks"

fun sha_add :: "sha_state \<Rightarrow> sha_state \<Rightarrow> sha_state" where
  "sha_add (a, b, c, d, e, f, g, h) (a', b', c', d', e', f', g', h') =
     (a + a', b + b', c + c', d + d', e + e', f + f', g + g', h + h')"

definition sha256_block :: "sha_state \<Rightarrow> bytes \<Rightarrow> sha_state" where
  "sha256_block st blk = sha_add st (sha256_rounds st (word_of_bytes blk) sha256_k)"

function sha256_blocks :: "sha_state \<Rightarrow> bytes \<Rightarrow> sha_state" where
  "sha256_blocks st bs =
     (if bs = [] then st else sha256_blocks (sha256_block st (take 64 bs)) (drop 64 bs))"
  by pat_completeness auto
termination
  by (relation "measure (\<lambda>(st, bs). length bs)") auto

declare sha256_blocks.simps [simp del]

fun sha_state_bytes :: "sha_state \<Rightarrow> bytes" where
  "sha_state_bytes (a, b, c, d, e, f, g, h) = concat (map put_uint32 [a, b, c, d, e, f, g, h])"

definition sha256 :: "bytes \<Rightarrow> bytes" where
  "sha256 m = sha_state_bytes (sha256_blocks sha256_init (sha_pad m))"

lemma length_sha_state_bytes: "length (sha_state_bytes st) = 32"
  by (cases st rule: sha_state_bytes.cases) simp

lemma length_sha256 [simp, byte_lengths]: "length (sha256 m) = 32"
  by (simp add: sha256_def length_sha_state_bytes)

subsection \<open>SHA-1\<close>

type_synonym sha1_state = "u32 \<times> u32 \<times> u32 \<times> u32 \<times> u32"

definition sha1_init :: sha1_state where
  "sha1_init = (0x67452301, 0xefcdab89, 0x98badcfe, 0x10325476, 0xc3d2e1f0)"

definition sha1_f :: "nat \<Rightarrow> u32 \<Rightarrow> u32 \<Rightarrow> u32 \<Rightarrow> u32" where
  "sha1_f t b c d =
     (if t < 20 then (b AND c) OR (NOT b AND d)
      else if t < 40 then b XOR c XOR d
      else if t < 60 then (b AND c) OR (b AND d) OR (c AND d)
      else b XOR c XOR d)"

definition sha1_k :: "nat \<Rightarrow> u32" where
  "sha1_k t =
     (if t < 20 then 0x5a827999 else if t < 40 then 0x6ed9eba1
      else if t < 60 then 0x8f1bbcdc else 0xca62c1d6)"

fun sha1_round :: "sha1_state \<Rightarrow> nat \<Rightarrow> u32 \<Rightarrow> sha1_state" where
  "sha1_round (a, b, c, d, e) t w =
     (rotl 5 a + sha1_f t b c d + e + w + sha1_k t, a, rotl 30 b, c, d)"

definition sha1_next :: "u32 list \<Rightarrow> u32" where
  "sha1_next ws = rotl 1 (ws ! 13 XOR ws ! 8 XOR ws ! 2 XOR ws ! 0)"

fun sha1_rounds :: "sha1_state \<Rightarrow> u32 list \<Rightarrow> nat list \<Rightarrow> sha1_state" where
  "sha1_rounds st ws [] = st"
| "sha1_rounds st ws (t # ts) =
     sha1_rounds (sha1_round st t (ws ! 0)) (tl ws @ [sha1_next ws]) ts"

fun sha1_add :: "sha1_state \<Rightarrow> sha1_state \<Rightarrow> sha1_state" where
  "sha1_add (a, b, c, d, e) (a', b', c', d', e') = (a + a', b + b', c + c', d + d', e + e')"

definition sha1_block :: "sha1_state \<Rightarrow> bytes \<Rightarrow> sha1_state" where
  "sha1_block st blk = sha1_add st (sha1_rounds st (word_of_bytes blk) [0..<80])"

function sha1_blocks :: "sha1_state \<Rightarrow> bytes \<Rightarrow> sha1_state" where
  "sha1_blocks st bs =
     (if bs = [] then st else sha1_blocks (sha1_block st (take 64 bs)) (drop 64 bs))"
  by pat_completeness auto
termination
  by (relation "measure (\<lambda>(st, bs). length bs)") auto

declare sha1_blocks.simps [simp del]

fun sha1_state_bytes :: "sha1_state \<Rightarrow> bytes" where
  "sha1_state_bytes (a, b, c, d, e) = concat (map put_uint32 [a, b, c, d, e])"

definition sha1 :: "bytes \<Rightarrow> bytes" where
  "sha1 m = sha1_state_bytes (sha1_blocks sha1_init (sha_pad m))"

lemma length_sha1 [simp, byte_lengths]: "length (sha1 m) = 20"
  by (cases "sha1_blocks sha1_init (sha_pad m)") (simp add: sha1_def)

subsection \<open>HMAC-SHA256\<close>

definition hmac_key :: "bytes \<Rightarrow> bytes" where
  "hmac_key k = (let k' = (if 64 < length k then sha256 k else k) in k' @ replicate (64 - length k') 0)"

definition hmac_sha256 :: "bytes \<Rightarrow> bytes \<Rightarrow> bytes" where
  "hmac_sha256 k m =
     (let k' = hmac_key k
      in sha256 (map (\<lambda>b. b XOR 0x5c) k' @ sha256 (map (\<lambda>b. b XOR 0x36) k' @ m)))"

lemma length_hmac_sha256 [simp, byte_lengths]: "length (hmac_sha256 k m) = 32"
  by (simp add: hmac_sha256_def Let_def)

subsection \<open>Collisions\<close>

text \<open>
  A collision among inputs the program has actually hashed: one from each list, different,
  with the same SHA-256 digest. Every theorem that an attacker cannot do something ends in
  this explicit alternative, with the two lists of inputs written out.
\<close>

definition collides :: "bytes list \<Rightarrow> bytes list \<Rightarrow> bool" where
  "collides xs ys \<longleftrightarrow> (\<exists>x\<in>set xs. \<exists>y\<in>set ys. x \<noteq> y \<and> sha256 x = sha256 y)"

lemma collidesI: "x \<in> set xs \<Longrightarrow> y \<in> set ys \<Longrightarrow> x \<noteq> y \<Longrightarrow> sha256 x = sha256 y \<Longrightarrow> collides xs ys"
  by (auto simp: collides_def)

lemma collides_mono: "collides xs ys \<Longrightarrow> set xs \<subseteq> set xs' \<Longrightarrow> set ys \<subseteq> set ys' \<Longrightarrow> collides xs' ys'"
  unfolding collides_def by blast

lemma collides_append1: "collides xs ys \<Longrightarrow> collides (xs @ as) (ys @ bs)"
  and collides_append2: "collides as bs \<Longrightarrow> collides (xs @ as) (ys @ bs)"
  and collides_Cons1: "collides [x] [y] \<Longrightarrow> collides (x # xs) (y # ys)"
  and collides_Cons2: "collides xs ys \<Longrightarrow> collides (x # xs) (y # ys)"
  by (auto elim!: collides_mono)

lemmas collides_intros = collides_append1 collides_append2 collides_Cons1 collides_Cons2

lemma collides_sym: "collides xs ys \<Longrightarrow> collides ys xs"
  unfolding collides_def by metis

lemma sha256_eqD:
  "sha256 x = sha256 y \<Longrightarrow> x \<in> set xs \<Longrightarrow> y \<in> set ys \<Longrightarrow> x = y \<or> collides xs ys"
  by (auto simp: collides_def)

end
