(* ===== verification/Http.thy ===== *)
theory Http
  imports Std_Json Std_Hash
begin

section \<open>What the HTTP handlers share\<close>

text \<open>
  The answers the handlers of the gateway, the query proxy and the services write with
  \<open>http.Error\<close> and with a JSON encoder. A \<open>map[string]any\<close> is encoded with its keys in
  ascending order, each once.
\<close>

record http_response =
  rs_status :: nat
  rs_type :: string
  rs_body :: string

definition http_Error :: "string \<Rightarrow> nat \<Rightarrow> http_response" where
  "http_Error msg status = \<lparr>rs_status = status, rs_type = ''text/plain; charset=utf-8'', rs_body = msg @ newline\<rparr>"

definition writeJSON :: "nat \<Rightarrow> json \<Rightarrow> http_response" where
  "writeJSON status v = \<lparr>rs_status = status, rs_type = ''application/json'', rs_body = json_text v @ newline\<rparr>"

text \<open>Numbers of type \<open>int\<close> and \<open>uint64\<close>.\<close>

definition jnat :: "nat \<Rightarrow> json" where
  "jnat n = JNum (dec n)"

text \<open>
  Both \<open>Authenticate\<close> interfaces: an API key gives a tenant id, or \<open>ErrUnauthorized\<close>, or another
  error. The handlers answer 401 or 500.
\<close>

type_synonym authenticator = "string \<Rightarrow> error + string"

definition with_tenant :: "authenticator \<Rightarrow> string \<Rightarrow> (http_response \<Rightarrow> 'r) \<Rightarrow> (string \<Rightarrow> 'r) \<Rightarrow> 'r" where
  "with_tenant auth key refuse k =
     (if key = '''' then refuse (http_Error ''missing X-API-Key'' 401)
      else case auth key of
             Inl err \<Rightarrow>
               (if err = ErrUnauthorized then refuse (http_Error ''unauthorized'' 401)
                else refuse (http_Error ''auth error'' 500))
           | Inr tenant \<Rightarrow> k tenant)"

lemma http_Error_status [simp]: "rs_status (http_Error msg status) = status"
  by (simp add: http_Error_def)

lemma with_tenant_cases:
  assumes "with_tenant auth key refuse k = x"
  obtains (refused) msg status where "x = refuse (http_Error msg status)" "status \<noteq> 200"
  | (tenant) t where "auth key = Inr t" "x = k t"
proof (cases "key = []")
  case True
  with assms show thesis
    by (intro refused [of "''missing X-API-Key''" 401]) (simp_all add: with_tenant_def)
next
  case False
  show thesis
  proof (cases "auth key")
    case (Inl err)
    with assms False show thesis
      using refused [of "''unauthorized''" 401] refused [of "''auth error''" 500]
      by (cases "err = ErrUnauthorized") (simp_all add: with_tenant_def)
  next
    case (Inr t)
    with assms False show thesis
      by (intro tenant [of t]) (simp_all add: with_tenant_def)
  qed
qed

text \<open>
  What the handlers rely on: \<open>keys\<close> are the keys that were handed out, with their tenants. A key that
  was handed out opens its tenant, and what opens a tenant was handed out for it, up to a
  SHA-256 collision.
\<close>

locale key_authenticator =
  fixes auth :: authenticator
    and keys :: "(string \<times> string) list"
  assumes opens: "(k, t) \<in> set keys \<Longrightarrow> auth k = Inr t"
    and resolves: "auth key = Inr t \<Longrightarrow> \<exists>k. (k, t) \<in> set keys \<and> (k = key \<or> collides [bytes_of k] [bytes_of key])"
begin

lemma refused_not_handed_out: "auth key = Inl err \<Longrightarrow> key \<notin> set (map fst keys)"
  using opens by fastforce

lemma with_tenant_keyed:
  assumes "with_tenant auth key refuse f = x"
  obtains (refused) msg status where "x = refuse (http_Error msg status)" "status \<noteq> 200"
  | (tenant) t k where "auth key = Inr t" "x = f t" "(k, t) \<in> set keys" "k = key \<or> collides [bytes_of k] [bytes_of key]"
  using assms
proof (cases rule: with_tenant_cases)
  case (tenant t)
  then show thesis using resolves that(2) by blast
qed (rule refused)

end

subsection \<open>White space\<close>

text \<open>
  \<open>strings.TrimSpace\<close>: the encodings of the white space characters of Unicode are stripped at both
  ends. The end is stripped on the reversed string.
\<close>

definition space_runes :: "string list" where
  "space_runes =
     map (\<lambda>n. [char_of n]) [9, 10, 11, 12, 13, 32 :: nat] @
     [[CHR 0xC2, CHR 0x85], [CHR 0xC2, CHR 0xA0], [CHR 0xE1, CHR 0x9A, CHR 0x80]] @
     map (\<lambda>n. [CHR 0xE2, CHR 0x80, char_of n]) ([0x80..<0x8B] @ [0xA8, 0xA9, 0xAF :: nat]) @
     [[CHR 0xE2, CHR 0x81, CHR 0x9F], [CHR 0xE3, CHR 0x80, CHR 0x80]]"

fun strip :: "string list \<Rightarrow> string \<Rightarrow> string" where
  "strip ps [] = []"
| "strip ps (c # s) =
     (case find (\<lambda>p. p \<noteq> [] \<and> take (length p) (c # s) = p) ps of
        None \<Rightarrow> c # s
      | Some p \<Rightarrow> strip ps (drop (length p - 1) s))"

definition trim_space :: "string \<Rightarrow> string" where
  "trim_space s = rev (strip (map rev space_runes) (rev (strip space_runes s)))"

lemma length_strip: "length (strip ps s) \<le> length s"
proof (induction ps s rule: strip.induct)
  case (2 ps c s)
  show ?case
  proof (cases "find (\<lambda>p. p \<noteq> [] \<and> take (length p) (c # s) = p) ps")
    case (Some p)
    with 2 [OF this] show ?thesis by simp
  qed simp
qed simp

lemma length_trim_space: "length (trim_space s) \<le> length s"
  using length_strip [of "map rev space_runes" "rev (strip space_runes s)"] length_strip [of space_runes s]
  by (simp add: trim_space_def)

subsection \<open>Values of type any\<close>

text \<open>
  What \<open>json.Unmarshal\<close> into a \<open>map[string]any\<close> makes of a document, and what \<open>json.Marshal\<close> writes for
  it. A number becomes a \<open>float64\<close>: \<open>float64 l\<close> is what the encoder writes for the literal \<open>l\<close>, and
  None when it is out of range. Of repeated keys the last one counts; null gives the nil map.
\<close>

fun numbers_ok :: "(string \<Rightarrow> string option) \<Rightarrow> json \<Rightarrow> bool" where
  "numbers_ok float64 (JNum l) \<longleftrightarrow> float64 l \<noteq> None"
| "numbers_ok float64 (JArr vs) \<longleftrightarrow> list_all (numbers_ok float64) vs"
| "numbers_ok float64 (JObj ms) \<longleftrightarrow> list_all (\<lambda>(k, v). numbers_ok float64 v) ms"
| "numbers_ok float64 v \<longleftrightarrow> True"

fun last_members :: "(string \<times> 'a) list \<Rightarrow> (string \<times> 'a) list" where
  "last_members [] = []"
| "last_members (m # ms) = (if fst m \<in> set (map fst ms) then last_members ms else m # last_members ms)"

fun any_of :: "(string \<Rightarrow> string option) \<Rightarrow> json \<Rightarrow> json" where
  "any_of float64 (JNum l) = JNum (case float64 l of Some t \<Rightarrow> t | None \<Rightarrow> l)"
| "any_of float64 (JArr vs) = JArr (map (any_of float64) vs)"
| "any_of float64 (JObj ms) = JObj (sort_key fst (last_members (map (\<lambda>(k, v). (k, any_of float64 v)) ms)))"
| "any_of float64 v = v"

definition decode_map :: "(string \<Rightarrow> string option) \<Rightarrow> json \<Rightarrow> error + json" where
  "decode_map float64 v =
     (case v of
        JObj ms \<Rightarrow>
          (if numbers_ok float64 v then Inr (any_of float64 v)
           else Inl (ErrText ''json: cannot unmarshal number into Go value of type float64''))
      | JNull \<Rightarrow> Inr JNull
      | _ \<Rightarrow> Inl (ErrText ''json: cannot unmarshal value into Go value of type map[string]interface {}''))"

definition unmarshal_map :: "(string \<Rightarrow> string option) \<Rightarrow> string \<Rightarrow> error + json" where
  "unmarshal_map float64 s =
     (case json_parse s of None \<Rightarrow> Inl (ErrText ''json: syntax error'') | Some v \<Rightarrow> decode_map float64 v)"

definition obj_get :: "json \<Rightarrow> string \<Rightarrow> json option" where
  "obj_get v k = (case v of JObj ms \<Rightarrow> map_of ms k | _ \<Rightarrow> None)"

end
