(* ===== verification/Serve_Mux.thy ===== *)
theory Serve_Mux
  imports Http
begin

section \<open>Requests and net/http's ServeMux\<close>

text \<open>
  A request as the handlers see it, and the dispatch of \<open>ServeMux\<close> for the patterns the services
  register: a method, literal segments and single-segment wildcards, no host and no trailing
  slash. The path of a request other than \<open>CONNECT\<close> is cleaned first; when that changes it, the client is
  redirected to the cleaned path (\<open>redirect\<close> is that answer, which depends on the release of Go).
  A \<open>GET\<close> pattern also serves \<open>HEAD\<close>. No two patterns of one mux match the same request, so their
  order does not matter. Requests in asterisk form do not reach the mux.
\<close>

record http_request =
  hr_method :: string
  hr_path :: string
  hr_header :: "string \<Rightarrow> string"
  hr_query :: "string \<Rightarrow> string"
  hr_body :: "string \<times> error option"

text \<open>\<open>path.Clean\<close> of a rooted path, on its segments.\<close>

fun split_path :: "string \<Rightarrow> string list" where
  "split_path [] = [[]]"
| "split_path (c # s) =
     (if c = CHR ''/'' then [] # split_path s
      else (case split_path s of [] \<Rightarrow> [[c]] | l # ls \<Rightarrow> (c # l) # ls))"

fun clean_segs :: "string list \<Rightarrow> string list \<Rightarrow> string list" where
  "clean_segs acc [] = rev acc"
| "clean_segs acc (x # xs) =
     (if x = [] \<or> x = ''.'' then clean_segs acc xs
      else if x = ''..'' then clean_segs (tl acc) xs
      else clean_segs (x # acc) xs)"

definition rooted :: "string list \<Rightarrow> string" where
  "rooted segs = (if segs = [] then ''/'' else concat (map (\<lambda>x. CHR ''/'' # x) segs))"

definition cleanPath :: "string \<Rightarrow> string" where
  "cleanPath p =
     (if p = [] then ''/''
      else let p = (if starts_with CHR ''/'' p then p else CHR ''/'' # p);
               np = rooted (clean_segs [] (split_path p))
           in if last p = CHR ''/'' \<and> np \<noteq> ''/'' then np @ ''/'' else np)"

text \<open>\<open>url.PathUnescape\<close>, and the text itself when it has a bad escape.\<close>

fun unescape :: "string \<Rightarrow> string option" where
  "unescape [] = Some []"
| "unescape (c # s) =
     (if c = CHR 0x25 then
        (case s of
           a # b # t \<Rightarrow>
             (case (hex_val a, hex_val b) of
                (Some x, Some y) \<Rightarrow> map_option ((#) (char_of (16 * x + y))) (unescape t)
              | _ \<Rightarrow> None)
         | _ \<Rightarrow> None)
      else map_option ((#) c) (unescape s))"

definition pathUnescape :: "string \<Rightarrow> string" where
  "pathUnescape s = (case unescape s of Some t \<Rightarrow> t | None \<Rightarrow> s)"

text \<open>The routing tree: the first segment of a path, and the match of a pattern with the wildcards' values.\<close>

datatype seg = Lit string | Wild

definition firstSegment :: "string \<Rightarrow> string \<times> string" where
  "firstSegment path =
     (if path = ''/'' then (''/'', [])
      else (pathUnescape (takeWhile (\<lambda>c. c \<noteq> CHR ''/'') (tl path)), dropWhile (\<lambda>c. c \<noteq> CHR ''/'') (tl path)))"

fun matchPath :: "seg list \<Rightarrow> string \<Rightarrow> string list option" where
  "matchPath [] path = (if path = [] then Some [] else None)"
| "matchPath (Lit l # segs) path =
     (if path = [] then None
      else case firstSegment path of (seg, rest) \<Rightarrow> if seg = l then matchPath segs rest else None)"
| "matchPath (Wild # segs) path =
     (if path = [] then None
      else case firstSegment path of
             (seg, rest) \<Rightarrow> if seg \<noteq> ''/'' then map_option ((#) seg) (matchPath segs rest) else None)"

record 'h route =
  rt_method :: string
  rt_pattern :: "seg list"
  rt_handler :: "string list \<Rightarrow> 'h"

fun find_route :: "'h route list \<Rightarrow> string \<Rightarrow> string \<Rightarrow> 'h option" where
  "find_route [] m path = None"
| "find_route (rt # rts) m path =
     (case (if rt_method rt = m \<or> rt_method rt = ''GET'' \<and> m = ''HEAD'' then matchPath (rt_pattern rt) path else None) of
        Some vals \<Rightarrow> Some (rt_handler rt vals)
      | None \<Rightarrow> find_route rts m path)"

definition mux_ServeHTTP ::
    "(string \<Rightarrow> http_response) \<Rightarrow> (http_response \<Rightarrow> 'h) \<Rightarrow> 'h route list \<Rightarrow> http_request \<Rightarrow> 'h"
where
  "mux_ServeHTTP redirect answer routes r =
     (let path = (if hr_method r = ''CONNECT'' then hr_path r else cleanPath (hr_path r))
      in if path \<noteq> hr_path r then answer (redirect path)
         else case find_route routes (hr_method r) path of
                Some h \<Rightarrow> h
              | None \<Rightarrow>
                  if list_ex (\<lambda>rt. matchPath (rt_pattern rt) path \<noteq> None) routes
                  then answer (http_Error ''Method Not Allowed'' 405)
                  else answer (http_Error ''404 page not found'' 404))"

text \<open>\<open>w.Write\<close> without a header: status 200, and the content type the library detects for plain text.\<close>

definition http_text :: "string \<Rightarrow> http_response" where
  "http_text s = \<lparr>rs_status = 200, rs_type = ''text/plain; charset=utf-8'', rs_body = s\<rparr>"

subsection \<open>Dispatch\<close>

text \<open>What a mux answers is an answer of its own, not a success, or that of a route whose method and pattern match.\<close>

lemma find_route_Some:
  "find_route routes m path = Some h \<Longrightarrow>
    \<exists>rt\<in>set routes. \<exists>vals. matchPath (rt_pattern rt) path = Some vals \<and> h = rt_handler rt vals \<and>
      (rt_method rt = m \<or> rt_method rt = ''GET'' \<and> m = ''HEAD'')"
  by (induction routes) (auto split: option.splits if_splits)

lemma mux_cases:
  obtains (own) resp where "mux_ServeHTTP redirect answer routes r = answer resp"
      "(\<exists>p. resp = redirect p) \<or> rs_status resp \<in> {404, 405}"
  | (routed) rt vals where "rt \<in> set routes" "matchPath (rt_pattern rt) (hr_path r) = Some vals"
      "rt_method rt = hr_method r \<or> rt_method rt = ''GET'' \<and> hr_method r = ''HEAD''"
      "mux_ServeHTTP redirect answer routes r = rt_handler rt vals"
proof -
  let ?path = "if hr_method r = ''CONNECT'' then hr_path r else cleanPath (hr_path r)"
  show thesis
  proof (cases "?path = hr_path r")
    case False
    then show thesis
      by (intro own [of "redirect ?path"]) (auto simp: mux_ServeHTTP_def Let_def)
  next
    case True
    show thesis
    proof (cases "find_route routes (hr_method r) (hr_path r)")
      case (Some h)
      with find_route_Some [OF Some] True show thesis
        by (auto simp: mux_ServeHTTP_def Let_def intro: routed)
    next
      case None
      let ?resp = "if list_ex (\<lambda>rt. matchPath (rt_pattern rt) (hr_path r) \<noteq> None) routes
        then http_Error ''Method Not Allowed'' 405 else http_Error ''404 page not found'' 404"
      have "rs_status ?resp \<in> {404, 405}" by (simp add: http_Error_def)
      with None True show thesis
        by (intro own [of ?resp]) (simp_all add: mux_ServeHTTP_def Let_def)
    qed
  qed
qed

text \<open>The same for handlers that run on a state.\<close>

lemma mux_run_cases:
  assumes "mux_ServeHTTP redirect answer routes r s = x"
  obtains (own) resp where "x = answer resp s" "(\<exists>p. resp = redirect p) \<or> rs_status resp \<in> {404, 405}"
  | (routed) rt vals where "rt \<in> set routes" "x = rt_handler rt vals s"
proof (cases rule: mux_cases [where redirect = redirect and answer = answer and routes = routes and r = r])
  case (own resp)
  with assms show thesis by (intro that(1) [of resp]) simp_all
next
  case (routed rt vals)
  with assms show thesis by (intro that(2) [of rt vals]) simp_all
qed

text \<open>A path made of plain segments is clean, and its segments are what a pattern sees.\<close>

definition plain_seg :: "string \<Rightarrow> bool" where
  "plain_seg x \<longleftrightarrow> x \<noteq> [] \<and> x \<noteq> ''.'' \<and> x \<noteq> ''..'' \<and> CHR ''/'' \<notin> set x \<and> CHR 0x25 \<notin> set x"

lemma unescape_plain: "CHR 0x25 \<notin> set x \<Longrightarrow> unescape x = Some x"
  by (induction x) auto

lemma firstSegment_plain:
  assumes "plain_seg x" and "s = [] \<or> (\<exists>t. s = CHR ''/'' # t)"
  shows "firstSegment (CHR ''/'' # x @ s) = (x, s)"
proof -
  have ne: "\<forall>c\<in>set x. c \<noteq> CHR ''/''" using assms(1) by (auto simp: plain_seg_def)
  have "takeWhile (\<lambda>c. c \<noteq> CHR ''/'') s = []" "dropWhile (\<lambda>c. c \<noteq> CHR ''/'') s = s"
    using assms(2) by auto
  then have "takeWhile (\<lambda>c. c \<noteq> CHR ''/'') (x @ s) = x" "dropWhile (\<lambda>c. c \<noteq> CHR ''/'') (x @ s) = s"
    using takeWhile_append2 [of x "\<lambda>c. c \<noteq> CHR ''/''" s] dropWhile_append2 [of x "\<lambda>c. c \<noteq> CHR ''/''" s] ne
    by simp_all
  moreover have "CHR ''/'' # x @ s \<noteq> ''/''" "pathUnescape x = x"
    using assms(1) unescape_plain [of x] by (simp_all add: plain_seg_def pathUnescape_def)
  ultimately show ?thesis unfolding firstSegment_def by simp
qed

lemma split_path_seg:
  "CHR ''/'' \<notin> set x \<Longrightarrow> split_path (x @ CHR ''/'' # s) = x # split_path s"
  "CHR ''/'' \<notin> set x \<Longrightarrow> split_path x = [x]"
  by (induction x) auto

lemma split_path_rooted:
  "list_all (\<lambda>x. CHR ''/'' \<notin> set x) segs \<Longrightarrow> segs \<noteq> [] \<Longrightarrow>
    split_path (concat (map (\<lambda>x. CHR ''/'' # x) segs)) = [] # segs"
proof (induction segs)
  case (Cons x xs)
  show ?case
  proof (cases xs)
    case Nil
    with Cons.prems show ?thesis by (simp add: split_path_seg)
  next
    case (Cons y ys)
    have "split_path (concat (map (\<lambda>x. CHR ''/'' # x) xs)) = [] # xs"
      using Cons.IH Cons.prems Cons by simp
    then have "split_path (y @ concat (map (\<lambda>x. CHR ''/'' # x) ys)) = y # ys"
      using Cons by simp
    then show ?thesis
      using Cons.prems Cons by (simp add: split_path_seg)
  qed
qed simp

lemma clean_segs_plain: "list_all plain_seg segs \<Longrightarrow> clean_segs acc segs = rev acc @ segs"
  by (induction segs arbitrary: acc) (auto simp: plain_seg_def)

lemma cleanPath_plain:
  assumes "list_all plain_seg segs" and "segs \<noteq> []"
  shows "cleanPath (rooted segs) = rooted segs"
proof -
  have r: "rooted segs = concat (map (\<lambda>x. CHR ''/'' # x) segs)" using assms(2) by (simp add: rooted_def)
  have "split_path (rooted segs) = [] # segs"
    unfolding r using assms by (intro split_path_rooted) (auto simp: plain_seg_def list_all_iff)
  then have clean: "clean_segs [] (split_path (rooted segs)) = segs"
    using assms(1) by (simp add: clean_segs_plain)
  obtain xs x where xs: "segs = xs @ [x]" using assms(2) by (cases segs rule: rev_cases) auto
  then have "last (rooted segs) = last x" "last x \<in> set x" "CHR ''/'' \<notin> set x"
    unfolding r using assms(1) by (simp_all add: xs plain_seg_def)
  then have "last (rooted segs) \<noteq> CHR ''/''" by metis
  moreover have "\<exists>t. rooted segs = CHR ''/'' # t"
    using assms(2) unfolding r by (cases segs) simp_all
  ultimately show ?thesis
    using clean by (auto simp: cleanPath_def Let_def)
qed

end
