(* ===== verification/Canonical.thy ===== *)
theory Canonical
  imports Std_Hash
begin

section \<open>Canonical encoding and hashing (internal/crypto/canonical.go)\<close>

text \<open>
  The length-prefixed encoder, the four commitments built with it (genesis, entry leaf, chain
  hash, checkpoint id), and what makes them commitments: the encoding is injective in the
  fields, the domain tags keep the three kinds of encoding apart, and equal digests mean equal
  fields or an explicit SHA-256 collision between the two encodings.
\<close>

definition CanonVersion :: u64 where
  "CanonVersion = 1"

definition domainEntry :: string where
  "domainEntry = ''mlog/entry/v1''"

definition domainGenesis :: string where
  "domainGenesis = ''mlog/genesis/v1''"

definition domainCheckpoint :: string where
  "domainCheckpoint = ''mlog/checkpoint/v1''"

definition Hash :: "bytes \<Rightarrow> bytes" where
  "Hash b = sha256 b"

lemma length_Hash [simp, byte_lengths]: "length (Hash b) = 32"
  by (simp add: Hash_def)

subsection \<open>The encoder\<close>

record encoder =
  buf :: bytes

definition encoder_field :: "encoder \<Rightarrow> bytes \<Rightarrow> encoder" where
  "encoder_field e b = e\<lparr>buf := buf e @ put_uint64 (of_nat (length b)) @ b\<rparr>"

definition NewEncoder :: "string \<Rightarrow> encoder" where
  "NewEncoder domain = encoder_field \<lparr>buf = []\<rparr> (bytes_of domain)"

definition encoder_Bytes :: "encoder \<Rightarrow> bytes \<Rightarrow> encoder" where
  "encoder_Bytes e b = encoder_field e b"

definition encoder_Str :: "encoder \<Rightarrow> string \<Rightarrow> encoder" where
  "encoder_Str e s = encoder_field e (bytes_of s)"

definition encoder_Uint :: "encoder \<Rightarrow> u64 \<Rightarrow> encoder" where
  "encoder_Uint e n = encoder_field e (put_uint64 n)"

definition encoder_Int :: "encoder \<Rightarrow> i64 \<Rightarrow> encoder" where
  "encoder_Int e n = encoder_Uint e n"

definition encoder_Raw :: "encoder \<Rightarrow> bytes" where
  "encoder_Raw e = buf e"

definition encoder_Sum :: "encoder \<Rightarrow> bytes" where
  "encoder_Sum e = Hash (buf e)"

subsection \<open>The commitments\<close>

definition Genesis :: "string \<Rightarrow> bytes" where
  "Genesis tenantID = encoder_Sum (encoder_Str (NewEncoder domainGenesis) tenantID)"

definition entry_encoder ::
    "string \<Rightarrow> u64 \<Rightarrow> i64 \<Rightarrow> i64 \<Rightarrow> string \<Rightarrow> string \<Rightarrow> encoder" where
  "entry_encoder tenantID seq eventTime ingestTime source raw =
     (let e = NewEncoder domainEntry;
          e = encoder_Uint e CanonVersion;
          e = encoder_Str e tenantID;
          e = encoder_Uint e seq;
          e = encoder_Int e eventTime;
          e = encoder_Int e ingestTime;
          e = encoder_Str e source
      in encoder_Str e raw)"

definition EntryLeaf ::
    "string \<Rightarrow> u64 \<Rightarrow> i64 \<Rightarrow> i64 \<Rightarrow> string \<Rightarrow> string \<Rightarrow> bytes" where
  "EntryLeaf tenantID seq eventTime ingestTime source raw =
     encoder_Sum (entry_encoder tenantID seq eventTime ingestTime source raw)"

definition ChainHash :: "bytes \<Rightarrow> bytes \<Rightarrow> bytes" where
  "ChainHash prevHash leaf = Hash (prevHash @ leaf)"

definition checkpoint_encoder ::
    "string \<Rightarrow> u64 \<Rightarrow> u64 \<Rightarrow> u64 \<Rightarrow> bytes \<Rightarrow> bytes \<Rightarrow> bytes \<Rightarrow> i64 \<Rightarrow> encoder" where
  "checkpoint_encoder tenantID seqStart seqEnd entryCount headHash merkleRoot prevCheckpointHash
     anchoredAt =
     (let e = NewEncoder domainCheckpoint;
          e = encoder_Uint e CanonVersion;
          e = encoder_Str e tenantID;
          e = encoder_Uint e seqStart;
          e = encoder_Uint e seqEnd;
          e = encoder_Uint e entryCount;
          e = encoder_Bytes e headHash;
          e = encoder_Bytes e merkleRoot;
          e = encoder_Bytes e prevCheckpointHash
      in encoder_Int e anchoredAt)"

definition checkpoint_id ::
    "string \<Rightarrow> u64 \<Rightarrow> u64 \<Rightarrow> u64 \<Rightarrow> bytes \<Rightarrow> bytes \<Rightarrow> bytes \<Rightarrow> i64 \<Rightarrow> bytes" where
  "checkpoint_id tenantID seqStart seqEnd entryCount headHash merkleRoot prevCheckpointHash
     anchoredAt =
     encoder_Sum (checkpoint_encoder tenantID seqStart seqEnd entryCount headHash merkleRoot
       prevCheckpointHash anchoredAt)"

lemma length_commitments [simp, byte_lengths]:
  "length (encoder_Sum e) = 32" "length (Genesis t) = 32"
  "length (EntryLeaf t s et it src raw) = 32" "length (ChainHash p l) = 32"
  "length (checkpoint_id t ss se c hh mr prev at) = 32"
  by (simp_all add: encoder_Sum_def Genesis_def EntryLeaf_def ChainHash_def checkpoint_id_def)

subsection \<open>The encoding of a list of fields\<close>

text \<open>
  What the encoder computes, said once: every encoding is \<open>enc_fields\<close> of its list of fields.
  \<open>enc_fields\<close> is injective on lists of fields whose lengths fit in 64 bits, whatever the
  number of fields, so that no field boundary can be moved.
\<close>

fun enc_fields :: "bytes list \<Rightarrow> bytes" where
  "enc_fields [] = []"
| "enc_fields (b # bs) = put_uint64 (of_nat (length b)) @ b @ enc_fields bs"

lemma enc_fields_append [simp]: "enc_fields (xs @ ys) = enc_fields xs @ enc_fields ys"
  by (induction xs) simp_all

lemmas encoder_defs = encoder_field_def NewEncoder_def encoder_Bytes_def encoder_Str_def
  encoder_Uint_def encoder_Int_def encoder_Raw_def

definition genesis_fields :: "string \<Rightarrow> bytes list" where
  "genesis_fields t = [bytes_of domainGenesis, bytes_of t]"

definition entry_fields ::
    "string \<Rightarrow> u64 \<Rightarrow> i64 \<Rightarrow> i64 \<Rightarrow> string \<Rightarrow> string \<Rightarrow> bytes list" where
  "entry_fields t s et it src raw =
     [bytes_of domainEntry, put_uint64 CanonVersion, bytes_of t, put_uint64 s, put_uint64 et,
      put_uint64 it, bytes_of src, bytes_of raw]"

definition checkpoint_fields ::
    "string \<Rightarrow> u64 \<Rightarrow> u64 \<Rightarrow> u64 \<Rightarrow> bytes \<Rightarrow> bytes \<Rightarrow> bytes \<Rightarrow> i64 \<Rightarrow> bytes list" where
  "checkpoint_fields t ss se c hh mr prev at =
     [bytes_of domainCheckpoint, put_uint64 CanonVersion, bytes_of t, put_uint64 ss,
      put_uint64 se, put_uint64 c, hh, mr, prev, put_uint64 at]"

lemma genesis_encoding:
  "buf (encoder_Str (NewEncoder domainGenesis) t) = enc_fields (genesis_fields t)"
  by (simp add: encoder_defs genesis_fields_def)

lemma entry_encoding:
  "buf (entry_encoder t s et it src raw) = enc_fields (entry_fields t s et it src raw)"
  by (simp add: entry_encoder_def entry_fields_def encoder_defs Let_def)

lemma checkpoint_encoding:
  "buf (checkpoint_encoder t ss se c hh mr prev at) =
     enc_fields (checkpoint_fields t ss se c hh mr prev at)"
  by (simp add: checkpoint_encoder_def checkpoint_fields_def encoder_defs Let_def)

lemma enc_field_split:
  assumes "put_uint64 (of_nat (length a)) @ a @ x = put_uint64 (of_nat (length b)) @ b @ y"
    and "length a < 2 ^ 64" and "length b < 2 ^ 64"
  shows "a = b \<and> x = y"
proof -
  have "put_uint64 (of_nat (length a)) = put_uint64 (of_nat (length b))" and ab: "a @ x = b @ y"
    using assms(1) by (simp_all add: append_eq_append_conv)
  then have "length a = length b"
    using assms(2,3) by (simp add: of_nat_u64_inject)
  with ab show ?thesis by simp
qed

lemma enc_fields_eq_Nil [simp]: "enc_fields bs = [] \<longleftrightarrow> bs = []" "[] = enc_fields bs \<longleftrightarrow> bs = []"
  by (cases bs; simp add: put_uint64_def)+

lemma enc_fields_inject:
  assumes "enc_fields xs = enc_fields ys"
    and "\<And>b. b \<in> set xs \<Longrightarrow> length b < 2 ^ 64" and "\<And>b. b \<in> set ys \<Longrightarrow> length b < 2 ^ 64"
  shows "xs = ys"
  using assms
proof (induction xs arbitrary: ys)
  case Nil
  then show ?case by simp
next
  case (Cons x xs)
  from Cons.prems(1) obtain y ys' where ys: "ys = y # ys'"
    by (cases ys) (simp_all add: put_uint64_def)
  have "x = y \<and> enc_fields xs = enc_fields ys'"
    by (rule enc_field_split) (use Cons.prems ys in auto)
  with Cons ys show ?case by simp
qed

lemma length_domains [simp, byte_lengths]:
  "length domainEntry = 13" "length domainGenesis = 15" "length domainCheckpoint = 18"
  by (simp_all add: domainEntry_def domainGenesis_def domainCheckpoint_def)

lemma domains_distinct [simp]:
  "domainEntry \<noteq> domainGenesis" "domainEntry \<noteq> domainCheckpoint" "domainGenesis \<noteq> domainCheckpoint"
  "domainGenesis \<noteq> domainEntry" "domainCheckpoint \<noteq> domainEntry" "domainCheckpoint \<noteq> domainGenesis"
  by (simp_all add: domainEntry_def domainGenesis_def domainCheckpoint_def)

lemma sized_u64: "sized xs \<Longrightarrow> length xs < 2 ^ 64"
  by (simp add: sized_def)

lemma entry_encoding_inject:
  assumes "enc_fields (entry_fields t s et it src raw) = enc_fields (entry_fields t' s' et' it' src' raw')"
    and "sized t" "sized src" "sized raw" "sized t'" "sized src'" "sized raw'"
  shows "t = t' \<and> s = s' \<and> et = et' \<and> it = it' \<and> src = src' \<and> raw = raw'"
proof -
  have "entry_fields t s et it src raw = entry_fields t' s' et' it' src' raw'"
    by (rule enc_fields_inject [OF assms(1)])
      (use assms(2-) in \<open>auto simp: entry_fields_def dest: sized_u64\<close>)
  then show ?thesis by (simp add: entry_fields_def)
qed

lemma checkpoint_encoding_inject:
  assumes "enc_fields (checkpoint_fields t ss se c hh mr prev at) =
      enc_fields (checkpoint_fields t' ss' se' c' hh' mr' prev' at')"
    and "sized t" "sized hh" "sized mr" "sized prev" "sized t'" "sized hh'" "sized mr'" "sized prev'"
  shows "t = t' \<and> ss = ss' \<and> se = se' \<and> c = c' \<and> hh = hh' \<and> mr = mr' \<and> prev = prev' \<and> at = at'"
proof -
  have "checkpoint_fields t ss se c hh mr prev at = checkpoint_fields t' ss' se' c' hh' mr' prev' at'"
    by (rule enc_fields_inject [OF assms(1)])
      (use assms(2-) in \<open>auto simp: checkpoint_fields_def dest: sized_u64\<close>)
  then show ?thesis by (simp add: checkpoint_fields_def)
qed

lemma encoder_Sum_unfold:
  "Genesis t = sha256 (enc_fields (genesis_fields t))"
  "EntryLeaf t s et it src raw = sha256 (enc_fields (entry_fields t s et it src raw))"
  "checkpoint_id t ss se c hh mr prev at = sha256 (enc_fields (checkpoint_fields t ss se c hh mr prev at))"
  "ChainHash p l = sha256 (p @ l)"
  by (simp_all add: Genesis_def EntryLeaf_def checkpoint_id_def encoder_Sum_def Hash_def
      genesis_encoding entry_encoding checkpoint_encoding ChainHash_def)

subsection \<open>Properties\<close>

text \<open>
  In internal/crypto/canonical.go, EntryLeaf: the leaf of a log entry binds every field it
  covers. Two entries with the same leaf have the same tenant, sequence number, timestamps,
  source and raw line, or their two canonical encodings are an explicit SHA-256 collision.
\<close>

theorem entry_leaf_binding:
  assumes "EntryLeaf t s et it src raw = EntryLeaf t' s' et' it' src' raw'"
    and "sized t" "sized src" "sized raw" "sized t'" "sized src'" "sized raw'"
  shows "(t, s, et, it, src, raw) = (t', s', et', it', src', raw') \<or>
    collides [encoder_Raw (entry_encoder t s et it src raw)]
      [encoder_Raw (entry_encoder t' s' et' it' src' raw')]"
  using assms entry_encoding_inject [of t s et it src raw t' s' et' it' src' raw']
  by (auto simp: encoder_Sum_unfold encoder_Raw_def entry_encoding collides_def)

theorem entry_leaf_binding_witness:
  "(''t'', 5 :: u64, 1 :: i64, 2 :: i64, ''api'', ''hello'') = (''t'', 5, 1, 2, ''api'', ''hello'') \<or>
    collides [encoder_Raw (entry_encoder ''t'' 5 1 2 ''api'' ''hello'')]
      [encoder_Raw (entry_encoder ''t'' 5 1 2 ''api'' ''hello'')]"
  by (rule entry_leaf_binding) (simp_all add: sized_def)

text \<open>
  In internal/crypto/canonical.go, CheckpointID: a checkpoint id binds the tenant, the
  sequence window, the entry count, the head hash, the Merkle root, the previous checkpoint id
  and the anchoring time, up to an explicit collision between the two encodings.
\<close>

theorem checkpoint_id_binding:
  assumes "checkpoint_id t ss se c hh mr prev at = checkpoint_id t' ss' se' c' hh' mr' prev' at'"
    and "sized t" "sized hh" "sized mr" "sized prev" "sized t'" "sized hh'" "sized mr'" "sized prev'"
  shows "(t, ss, se, c, hh, mr, prev, at) = (t', ss', se', c', hh', mr', prev', at') \<or>
    collides [encoder_Raw (checkpoint_encoder t ss se c hh mr prev at)]
      [encoder_Raw (checkpoint_encoder t' ss' se' c' hh' mr' prev' at')]"
  using assms checkpoint_encoding_inject [of t ss se c hh mr prev at t' ss' se' c' hh' mr' prev' at']
  by (auto simp: encoder_Sum_unfold encoder_Raw_def checkpoint_encoding collides_def)

theorem checkpoint_id_binding_witness:
  "(''t'', 0 :: u64, 9 :: u64, 10 :: u64, [1 :: byte], [2 :: byte], [] :: bytes, 42 :: i64) =
     (''t'', 0, 9, 10, [1], [2], [], 42) \<or>
    collides [encoder_Raw (checkpoint_encoder ''t'' 0 9 10 [1] [2] [] 42)]
      [encoder_Raw (checkpoint_encoder ''t'' 0 9 10 [1] [2] [] 42)]"
  by (rule checkpoint_id_binding) (simp_all add: sized_def)

text \<open>
  In internal/crypto/canonical.go, NewEncoder and its domain tags: the three kinds of
  encoding are separated. No genesis, entry or checkpoint encoding is ever the encoding of
  another kind, whatever the fields, and none of them is a chain-hash input of two digests.
\<close>

theorem encodings_domain_separated:
  "encoder_Raw (encoder_Str (NewEncoder domainGenesis) t) \<noteq> encoder_Raw (entry_encoder t' s et it src raw) \<and>
   encoder_Raw (encoder_Str (NewEncoder domainGenesis) t) \<noteq>
     encoder_Raw (checkpoint_encoder t'' ss se c hh mr prev at) \<and>
   encoder_Raw (entry_encoder t' s et it src raw) \<noteq>
     encoder_Raw (checkpoint_encoder t'' ss se c hh mr prev at) \<and>
   encoder_Raw (entry_encoder t' s et it src raw) \<noteq> Hash x @ Hash y \<and>
   encoder_Raw (checkpoint_encoder t'' ss se c hh mr prev at) \<noteq> Hash x @ Hash y"
proof -
  have "length (Hash x @ Hash y) = 64" by simp
  moreover have "64 < length (enc_fields (entry_fields t' s et it src raw))"
    by (simp add: entry_fields_def)
  moreover have "64 < length (enc_fields (checkpoint_fields t'' ss se c hh mr prev at))"
    by (simp add: checkpoint_fields_def)
  ultimately have "enc_fields (entry_fields t' s et it src raw) \<noteq> Hash x @ Hash y"
    and "enc_fields (checkpoint_fields t'' ss se c hh mr prev at) \<noteq> Hash x @ Hash y"
    by (metis less_irrefl)+
  then show ?thesis
    by (simp add: encoder_Raw_def genesis_encoding entry_encoding checkpoint_encoding)
      (simp add: genesis_fields_def entry_fields_def checkpoint_fields_def of_nat_u64_inject)
qed

end
