(* ===== verification/Chain.thy ===== *)
theory Chain
  imports Canonical
begin

section \<open>Log store and sealer (internal/chain)\<close>

text \<open>
  The in-memory log store (store.go) and the single-writer sealer (sealer.go). A store maps a
  tenant to its rows in insertion order; the code's \<open>[]*Entry\<close> shares the rows between a
  slice and the store, which matters to the model in one place only: \<open>Tenant\<close> sorts the stored
  slice itself, so it returns the store too. \<open>links\<close> is the specification the sealer keeps
  and the verifier replays: rows numbered from a start, each carrying the hash of its
  predecessor and the hash of its own contents.
\<close>

subsection \<open>Entries and the store\<close>

record entry =
  TenantID :: string
  Seq :: u64
  EventTime :: i64
  IngestTime :: i64
  Source :: string
  Raw :: string
  PrevHash :: bytes
  EntryHash :: bytes

record store =
  entries :: "(string \<times> entry list) list"

definition NewStore :: store where
  "NewStore = \<lparr>entries = []\<rparr>"

definition rows :: "store \<Rightarrow> string \<Rightarrow> entry list" where
  "rows s t = get_or [] (entries s) t"

definition store_Append :: "entry \<Rightarrow> store \<Rightarrow> store" where
  "store_Append e s = s\<lparr>entries := AList.update (TenantID e) (rows s (TenantID e) @ [e]) (entries s)\<rparr>"

definition store_Tenant :: "string \<Rightarrow> store \<Rightarrow> entry list \<times> store" where
  "store_Tenant t s =
     (let es = sort_key Seq (rows s t)
      in (es, case map_of (entries s) t of
                None \<Rightarrow> s
              | Some _ \<Rightarrow> s\<lparr>entries := AList.update t es (entries s)\<rparr>))"

definition byseq :: "entry list \<Rightarrow> u64 \<Rightarrow> entry option" where
  "byseq es = foldl (\<lambda>m e. m(Seq e \<mapsto> e)) Map.empty es"

text \<open>
  The loop \<open>for seq := start; seq <= end; seq++\<close> on \<open>uint64\<close>: with \<open>end\<close> the largest
  \<open>uint64\<close> the condition never fails, so the loop may not return.
\<close>

partial_function (option) range_loop ::
    "(u64 \<Rightarrow> entry option) \<Rightarrow> u64 \<Rightarrow> u64 \<Rightarrow> entry list \<Rightarrow> (entry list \<times> bool) option" where
  "range_loop m seq stop out =
     (if seq \<le> stop then
        (case m seq of
           None \<Rightarrow> Some (out, False)
         | Some e \<Rightarrow> range_loop m (seq + 1) stop (out @ [e]))
      else Some (out, True))"

definition store_Range :: "store \<Rightarrow> string \<Rightarrow> u64 \<Rightarrow> u64 \<Rightarrow> fault + (entry list \<times> bool)" where
  "store_Range s t start stop =
     (if make_panics 8 (stop - start + 1) then Inl Panic
      else case range_loop (byseq (rows s t)) start stop [] of
             None \<Rightarrow> Inl Diverge
           | Some r \<Rightarrow> Inr r)"

definition store_Delete :: "string \<Rightarrow> u64 \<Rightarrow> store \<Rightarrow> store" where
  "store_Delete t seq s =
     s\<lparr>entries := AList.update t (filter (\<lambda>e. Seq e \<noteq> seq) (rows s t)) (entries s)\<rparr>"

definition store_Tenants :: "store \<Rightarrow> string list" where
  "store_Tenants s = sort (map fst (entries s))"

subsection \<open>The sealer\<close>

record head =
  nextSeq :: u64
  prevHash :: bytes

record sealer =
  sl_store :: store
  heads :: "(string \<times> head) list"

definition NewSealer :: "store \<Rightarrow> sealer" where
  "NewSealer s = \<lparr>sl_store = s, heads = []\<rparr>"

definition sealer_Seal ::
    "sealer \<Rightarrow> string \<Rightarrow> string \<Rightarrow> string \<Rightarrow> i64 \<Rightarrow> i64 \<Rightarrow> entry \<times> sealer" where
  "sealer_Seal sl tenantID source raw eventTime ingestTime =
     (let h = (case map_of (heads sl) tenantID of
                 None \<Rightarrow> \<lparr>nextSeq = 0, prevHash = Genesis tenantID\<rparr>
               | Some h \<Rightarrow> h);
          leaf = EntryLeaf tenantID (nextSeq h) eventTime ingestTime source raw;
          entryHash = ChainHash (prevHash h) leaf;
          e = \<lparr>TenantID = tenantID, Seq = nextSeq h, EventTime = eventTime,
               IngestTime = ingestTime, Source = source, Raw = raw,
               PrevHash = prevHash h, EntryHash = entryHash\<rparr>;
          h' = \<lparr>nextSeq = nextSeq h + 1, prevHash = entryHash\<rparr>
      in (e, \<lparr>sl_store = store_Append e (sl_store sl),
              heads = AList.update tenantID h' (heads sl)\<rparr>))"

subsection \<open>The chain the sealer builds\<close>

definition leaf_of :: "string \<Rightarrow> entry \<Rightarrow> bytes" where
  "leaf_of t e = EntryLeaf t (Seq e) (EventTime e) (IngestTime e) (Source e) (Raw e)"

fun links :: "string \<Rightarrow> bytes \<Rightarrow> u64 \<Rightarrow> entry list \<Rightarrow> bool" where
  "links t prev want [] \<longleftrightarrow> True"
| "links t prev want (e # es) \<longleftrightarrow>
     Seq e = want \<and> PrevHash e = prev \<and> EntryHash e = ChainHash prev (leaf_of t e) \<and>
     links t (EntryHash e) (want + 1) es"

fun tip :: "bytes \<Rightarrow> entry list \<Rightarrow> bytes" where
  "tip prev [] = prev"
| "tip prev (e # es) = tip (EntryHash e) es"

abbreviation intact :: "string \<Rightarrow> entry list \<Rightarrow> bool" where
  "intact t es \<equiv> links t (Genesis t) 0 es"

lemma tip_append [simp]: "tip p (xs @ ys) = tip (tip p xs) ys"
  by (induction xs arbitrary: p) simp_all

lemma tip_last: "es \<noteq> [] \<Longrightarrow> tip p es = EntryHash (last es)"
  by (induction es arbitrary: p) auto

lemma links_append [simp]:
  "links t p w (xs @ ys) \<longleftrightarrow> links t p w xs \<and> links t (tip p xs) (w + of_nat (length xs)) ys"
  by (induction xs arbitrary: p w) (auto simp: algebra_simps)

lemma links_Seq: "links t p w es \<Longrightarrow> map Seq es = map (\<lambda>i. w + of_nat i) [0..<length es]"
proof (induction es arbitrary: p w rule: rev_induct)
  case (snoc e es)
  from snoc.IH [of p w] snoc.prems show ?case by simp
qed simp

lemma links_Seq_nth: "links t p w es \<Longrightarrow> i < length es \<Longrightarrow> Seq (es ! i) = w + of_nat i"
  by (metis (no_types, lifting) links_Seq nth_map nth_upt add_0 length_map length_upt
      minus_nat.diff_0)

lemma links_length_hash: "links t p w es \<Longrightarrow> length p = 32 \<Longrightarrow> length (tip p es) = 32"
  by (induction es arbitrary: p w) auto

lemma links_hashes: "links t p w es \<Longrightarrow> e \<in> set es \<Longrightarrow> length (EntryHash e) = 32"
  by (induction es arbitrary: p w) auto

lemma intact_Seq: "intact t es \<Longrightarrow> map Seq es = map of_nat [0..<length es]"
  using links_Seq [of t "Genesis t" 0 es] by simp

lemma sorted_of_nat_u64: "n \<le> 2 ^ 64 \<Longrightarrow> sorted (map (of_nat :: nat \<Rightarrow> u64) [0..<n])"
  by (induction n) (auto simp: sorted_append word_le_nat_alt unat_of_nat_less)

lemma distinct_of_nat_u64: "n \<le> 2 ^ 64 \<Longrightarrow> distinct (map (of_nat :: nat \<Rightarrow> u64) [0..<n])"
  by (auto simp: distinct_map inj_on_def of_nat_u64_inject)

lemma intact_sorted: "intact t es \<Longrightarrow> length es \<le> 2 ^ 64 \<Longrightarrow> sort_key Seq es = es"
  by (rule sort_key_sorted) (simp add: intact_Seq sorted_of_nat_u64)

lemma intact_distinct: "intact t es \<Longrightarrow> length es \<le> 2 ^ 64 \<Longrightarrow> distinct (map Seq es)"
  by (simp add: intact_Seq distinct_of_nat_u64)

lemma tip_take:
  "i < length es \<Longrightarrow> tip p (take (Suc i) es) = EntryHash (es ! i)"
  by (simp add: take_Suc_conv_app_nth)

subsection \<open>The chain binds its contents\<close>

text \<open>
  What an entry says, apart from the \<open>TenantID\<close> column, which the verifier replaces by the
  tenant it is checking; and the inputs hashed when a chain is replayed.
\<close>

definition content :: "entry \<Rightarrow> u64 \<times> i64 \<times> i64 \<times> string \<times> string \<times> bytes \<times> bytes" where
  "content e = (Seq e, EventTime e, IngestTime e, Source e, Raw e, PrevHash e, EntryHash e)"

definition entry_sized :: "entry \<Rightarrow> bool" where
  "entry_sized e \<longleftrightarrow> sized (Source e) \<and> sized (Raw e)"

definition leaf_input :: "string \<Rightarrow> entry \<Rightarrow> bytes" where
  "leaf_input t e = encoder_Raw (entry_encoder t (Seq e) (EventTime e) (IngestTime e) (Source e) (Raw e))"

fun chain_inputs :: "string \<Rightarrow> bytes \<Rightarrow> entry list \<Rightarrow> bytes list" where
  "chain_inputs t p [] = []"
| "chain_inputs t p (e # es) =
     leaf_input t e # (p @ leaf_of t e) # chain_inputs t (EntryHash e) es"

lemma length_leaf_of [simp, byte_lengths]: "length (leaf_of t e) = 32"
  by (simp add: leaf_of_def)

lemma chain_inputs_append [simp]:
  "chain_inputs t p (xs @ ys) = chain_inputs t p xs @ chain_inputs t (tip p xs) ys"
  by (induction xs arbitrary: p) simp_all

lemma leaf_of_binding:
  assumes "leaf_of t e = leaf_of t e'" and "sized t" "entry_sized e" "entry_sized e'"
  shows "(Seq e, EventTime e, IngestTime e, Source e, Raw e) =
      (Seq e', EventTime e', IngestTime e', Source e', Raw e') \<or>
    collides [leaf_input t e] [leaf_input t e']"
  using assms entry_encoding_inject [of t "Seq e" "EventTime e" "IngestTime e" "Source e" "Raw e"
      t "Seq e'" "EventTime e'" "IngestTime e'" "Source e'" "Raw e'"]
  by (auto simp: leaf_of_def leaf_input_def entry_sized_def encoder_Sum_unfold encoder_Raw_def
      entry_encoding collides_def)

lemma chain_hash_binding:
  assumes "ChainHash p l = ChainHash q k" and "length p = 32" "length q = 32" "length l = length k"
  shows "p = q \<and> l = k \<or> collides [p @ l] [q @ k]"
  using assms by (auto simp: encoder_Sum_unfold collides_def)

lemma chain_binding_aux:
  assumes "links t p w es" and "links t p w es'" and "length es = length es'"
    and "tip p es = tip p es'" and "length p = 32" and "sized t"
    and "\<And>e. e \<in> set es \<union> set es' \<Longrightarrow> entry_sized e"
  shows "map content es = map content es' \<or> collides (chain_inputs t p es) (chain_inputs t p es')"
  using assms
proof (induction es arbitrary: es' rule: rev_induct)
  case (snoc x xs)
  from snoc.prems(3) obtain ys y where es': "es' = ys @ [y]"
    by (cases es' rule: rev_cases) auto
  let ?p = "tip p xs" and ?q = "tip p ys"
  have x: "links t p w xs" "Seq x = w + of_nat (length xs)" "PrevHash x = ?p"
      "EntryHash x = ChainHash ?p (leaf_of t x)"
    and y: "links t p w ys" "Seq y = w + of_nat (length ys)" "PrevHash y = ?q"
      "EntryHash y = ChainHash ?q (leaf_of t y)"
    using snoc.prems(1,2) es' by auto
  have "ChainHash ?p (leaf_of t x) = ChainHash ?q (leaf_of t y)"
    using snoc.prems(4) es' x(4) y(4) by simp
  then have "?p = ?q \<and> leaf_of t x = leaf_of t y \<or> collides [?p @ leaf_of t x] [?q @ leaf_of t y]"
    by (rule chain_hash_binding) (use x y snoc.prems(5) links_length_hash in auto)
  moreover have "map content xs = map content ys \<or> collides (chain_inputs t p xs) (chain_inputs t p ys)"
    if "?p = ?q"
    by (rule snoc.IH) (use that x y es' snoc.prems in auto)
  moreover have "content x = content y \<or> collides [leaf_input t x] [leaf_input t y]"
    if "?p = ?q" "leaf_of t x = leaf_of t y"
    using leaf_of_binding [of t x y] that x y snoc.prems es' by (auto simp: content_def)
  moreover have "collides (chain_inputs t p (xs @ [x])) (chain_inputs t p es')"
    if "collides (chain_inputs t p xs) (chain_inputs t p ys) \<or>
      collides [leaf_input t x] [leaf_input t y] \<or> collides [?p @ leaf_of t x] [?q @ leaf_of t y]"
    using that unfolding es' by (auto elim!: collides_mono)
  ultimately show ?case
    unfolding es' by auto
qed simp

subsection \<open>Rows by sequence number\<close>

lemma byseq_snoc [simp]: "byseq (es @ [e]) = (byseq es)(Seq e \<mapsto> e)"
  by (simp add: byseq_def)

lemma byseq_Nil [simp]: "byseq [] = Map.empty"
  by (simp add: byseq_def)

lemma dom_byseq: "dom (byseq es) = Seq ` set es"
  by (induction es rule: rev_induct) (simp_all add: dom_fun_upd del: fun_upd_apply)

lemma byseq_Some: "byseq es k = Some e \<Longrightarrow> e \<in> set es \<and> Seq e = k"
  by (induction es rule: rev_induct) (auto split: if_splits)

lemma byseq_distinct:
  assumes "distinct (map Seq es)"
  shows "byseq es k = Some e \<longleftrightarrow> e \<in> set es \<and> Seq e = k"
proof
  assume e: "e \<in> set es \<and> Seq e = k"
  then obtain e' where e': "byseq es k = Some e'"
    using dom_byseq [of es] by force
  then have "e' \<in> set es" "Seq e' = k"
    by (auto dest: byseq_Some)
  with e assms have "e' = e"
    by (metis distinct_map inj_onD)
  with e' show "byseq es k = Some e" by simp
qed (rule byseq_Some)

lemma byseq_perm:
  assumes "mset xs = mset ys" and "distinct (map Seq xs)"
  shows "byseq xs = byseq ys"
proof
  fix k
  have s: "set xs = set ys" and "mset (map Seq xs) = mset (map Seq ys)"
    using assms(1) mset_eq_setD by auto
  then have "distinct (map Seq ys)"
    using assms(2) mset_eq_imp_distinct_iff by blast
  then have "byseq xs k = Some e \<longleftrightarrow> byseq ys k = Some e" for e
    using assms(2) by (simp add: byseq_distinct s)
  then show "byseq xs k = byseq ys k"
    by (metis not_Some_eq)
qed

lemma byseq_intact:
  assumes "intact t es" and "length es \<le> 2 ^ 64"
  shows "byseq es k = (if unat k < length es then Some (es ! unat k) else None)"
proof (cases "unat k < length es")
  case True
  then have "es ! unat k \<in> set es" and "Seq (es ! unat k) = k"
    using links_Seq_nth [OF assms(1)] by simp_all
  with True show ?thesis
    by (simp add: byseq_distinct intact_distinct [OF assms])
next
  case False
  then have "k \<notin> Seq ` set es"
    using intact_Seq [OF assms(1)] assms(2)
    by (auto simp: in_set_conv_nth links_Seq_nth [OF assms(1)] unat_of_nat_less)
  with False show ?thesis
    using dom_byseq [of es] by (auto simp: domIff)
qed

subsection \<open>What Range returns\<close>

definition seq_keys :: "u64 \<Rightarrow> u64 \<Rightarrow> u64 list" where
  "seq_keys start stop = map of_nat [unat start..<Suc (unat stop)]"

lemma unat_succ_below:
  assumes "start \<le> (stop :: u64)" and "stop \<noteq> - 1"
  shows "unat (start + 1) = Suc (unat start)"
proof -
  have "start \<noteq> - 1"
    using assms word_order.extremum_uniqueI by blast
  then have "start + 1 \<noteq> 0"
    by (metis eq_neg_iff_add_eq_0)
  then show ?thesis
    using unatSuc [of start] by (metis add.commute)
qed

lemma seq_keys_Cons:
  assumes "start \<le> stop" and "stop \<noteq> - 1"
  shows "seq_keys start stop = start # seq_keys (start + 1) stop"
proof -
  have "[unat start..<Suc (unat stop)] = unat start # [Suc (unat start)..<Suc (unat stop)]"
    using assms(1) by (intro upt_conv_Cons) (simp add: word_le_nat_alt)
  then show ?thesis
    by (simp only: seq_keys_def unat_succ_below [OF assms]) simp
qed

lemma range_loop_eq:
  assumes "stop \<noteq> - 1"
  shows "range_loop m seq stop out =
    Some (out @ map (the \<circ> m) (takeWhile (\<lambda>k. m k \<noteq> None) (seq_keys seq stop)),
      \<forall>k\<in>set (seq_keys seq stop). m k \<noteq> None)"
proof (induction "Suc (unat stop) - unat seq" arbitrary: seq out)
  case 0
  then have "\<not> seq \<le> stop" and "seq_keys seq stop = []"
    by (simp_all add: seq_keys_def word_le_nat_alt)
  then show ?case by (simp add: range_loop.simps)
next
  case (Suc n)
  then have le: "seq \<le> stop"
    by (simp add: word_le_nat_alt)
  note keys = seq_keys_Cons [OF le assms]
  show ?case
  proof (cases "m seq")
    case None
    with le keys show ?thesis by (simp add: range_loop.simps [of m seq])
  next
    case (Some e)
    have "n = Suc (unat stop) - unat (seq + 1)"
      using Suc.hyps(2) unat_succ_below [OF le assms] by simp
    from Suc.hyps(1) [OF this, of "out @ [e]"] Some le keys show ?thesis
      by (simp add: range_loop.simps [of m seq])
  qed
qed

lemma store_Range_eq:
  assumes "stop \<noteq> - 1" and "\<not> make_panics 8 (stop - start + 1)"
  shows "store_Range s t start stop =
    Inr (map (the \<circ> byseq (rows s t)) (takeWhile (\<lambda>k. byseq (rows s t) k \<noteq> None) (seq_keys start stop)),
      \<forall>k\<in>set (seq_keys start stop). byseq (rows s t) k \<noteq> None)"
  using assms by (simp add: store_Range_def range_loop_eq)

lemma takeWhile_less_upt: "takeWhile (\<lambda>i. i < n) [a..<c] = [a..<min c n]"
proof (induction "c - a" arbitrary: a)
  case (Suc k)
  then have "[a..<c] = a # [Suc a..<c]" and "takeWhile (\<lambda>i. i < n) [Suc a..<c] = [Suc a..<min c n]"
    by (simp_all add: upt_conv_Cons)
  with Suc.hyps(2) show ?case
    by (auto simp: upt_conv_Cons)
qed simp

lemma map_nth_upt_slice: "map ((!) es) [a..<min c (length es)] = take (c - a) (drop a es)"
  by (rule nth_equalityI) (auto simp: less_diff_conv add.commute)

lemma store_Range_slice:
  assumes rows: "\<And>k. byseq (rows s t) k = (if unat k < length es then Some (es ! unat k) else None)"
    and "stop \<noteq> - 1" and "\<not> make_panics 8 (stop - start + 1)"
  shows "store_Range s t start stop =
    Inr (take (Suc (unat stop) - unat start) (drop (unat start) es),
      unat stop < length es \<or> stop < start)"
proof -
  let ?m = "byseq (rows s t)" and ?js = "[unat start..<Suc (unat stop)]"
  have small: "unat (of_nat i :: u64) = i" if "i < Suc (unat stop)" for i
    using that unsigned_less [of stop, where ?'a = nat] by (simp add: unat_of_nat_less)
  have "takeWhile (\<lambda>k. ?m k \<noteq> None) (seq_keys start stop) =
      map of_nat (takeWhile (\<lambda>i. i < length es) ?js)"
    unfolding seq_keys_def takeWhile_map comp_def
    by (intro arg_cong [where f = "map of_nat"] takeWhile_cong refl) (simp add: rows small del: upt_Suc)
  then have "map (the \<circ> ?m) (takeWhile (\<lambda>k. ?m k \<noteq> None) (seq_keys start stop)) =
      map (\<lambda>i. the (?m (of_nat i))) [unat start..<min (Suc (unat stop)) (length es)]"
    by (simp add: takeWhile_less_upt comp_def del: upt_Suc)
  also have "\<dots> = map ((!) es) [unat start..<min (Suc (unat stop)) (length es)]"
    by (rule map_cong [OF refl]) (simp add: rows small)
  finally have "map (the \<circ> ?m) (takeWhile (\<lambda>k. ?m k \<noteq> None) (seq_keys start stop)) = \<dots>" .
  moreover have "(\<forall>k\<in>set (seq_keys start stop). ?m k \<noteq> None) \<longleftrightarrow>
      (\<forall>i. unat start \<le> i \<and> i < Suc (unat stop) \<longrightarrow> i < length es)"
    unfolding seq_keys_def by (auto simp: rows small simp del: upt_Suc)
  moreover have "\<dots> \<longleftrightarrow> unat stop < length es \<or> stop < start"
    by (auto simp: word_less_nat_alt not_less less_Suc_eq_le)
  ultimately show ?thesis
    using store_Range_eq [OF assms(2,3), of s t] by (simp only: map_nth_upt_slice)
qed

lemma unat_window:
  assumes "start \<le> (stop :: u64)" and "stop \<noteq> - 1"
  shows "unat (stop - start + 1) = Suc (unat stop - unat start)"
proof -
  have "stop - start \<le> stop"
    using assms(1) by (simp add: word_le_nat_alt unat_sub)
  then have "unat (stop - start + 1) = Suc (unat (stop - start))"
    using assms(2) by (rule unat_succ_below)
  then show ?thesis
    using assms(1) by (simp add: unat_sub word_le_nat_alt)
qed

subsection \<open>The sealer keeps every tenant's chain intact\<close>

definition head_ok :: "string \<Rightarrow> entry list \<Rightarrow> head option \<Rightarrow> bool" where
  "head_ok t es h \<longleftrightarrow>
     intact t es \<and> (\<forall>e\<in>set es. TenantID e = t) \<and>
     (case h of
        None \<Rightarrow> es = []
      | Some h \<Rightarrow> nextSeq h = of_nat (length es) \<and> prevHash h = tip (Genesis t) es)"

definition sealer_inv :: "sealer \<Rightarrow> bool" where
  "sealer_inv sl \<longleftrightarrow>
     distinct (map fst (entries (sl_store sl))) \<and> distinct (map fst (heads sl)) \<and>
     (\<forall>t. head_ok t (rows (sl_store sl) t) (map_of (heads sl) t))"

lemma rows_store_Append [simp]:
  "rows (store_Append e s) t = (if t = TenantID e then rows s t @ [e] else rows s t)"
  by (simp add: rows_def store_Append_def)

lemma distinct_store_Append [simp]:
  "distinct (map fst (entries s)) \<Longrightarrow> distinct (map fst (entries (store_Append e s)))"
  by (simp add: store_Append_def distinct_update)

lemma sealer_inv_new: "sealer_inv (NewSealer NewStore)"
  by (simp add: sealer_inv_def NewSealer_def NewStore_def head_ok_def rows_def)

lemma sealer_Seal_rows:
  "rows (sl_store (snd (sealer_Seal sl t src raw et it))) u =
    (if u = t then rows (sl_store sl) t @ [fst (sealer_Seal sl t src raw et it)]
     else rows (sl_store sl) u)"
  by (simp add: sealer_Seal_def Let_def)

lemma sealer_Seal_entry:
  fixes src raw et it
  assumes "head_ok t (rows (sl_store sl) t) (map_of (heads sl) t)"
  defines "e \<equiv> fst (sealer_Seal sl t src raw et it)"
  shows "TenantID e = t" "Seq e = of_nat (length (rows (sl_store sl) t))" "EventTime e = et"
    "IngestTime e = it" "Source e = src" "Raw e = raw"
    "PrevHash e = tip (Genesis t) (rows (sl_store sl) t)"
    "EntryHash e = ChainHash (PrevHash e) (leaf_of t e)"
  using assms by (auto simp: e_def sealer_Seal_def head_ok_def Let_def leaf_of_def split: option.splits)

lemma sealer_Seal_head:
  "map_of (heads (snd (sealer_Seal sl t src raw et it))) u =
    (if u = t then
       Some \<lparr>nextSeq = Seq (fst (sealer_Seal sl t src raw et it)) + 1,
             prevHash = EntryHash (fst (sealer_Seal sl t src raw et it))\<rparr>
     else map_of (heads sl) u)"
  by (simp add: sealer_Seal_def Let_def update_conv')

lemma sealer_inv_Seal:
  assumes "sealer_inv sl"
  shows "sealer_inv (snd (sealer_Seal sl t src raw et it))"
proof -
  let ?r = "sealer_Seal sl t src raw et it"
  have ok: "head_ok u (rows (sl_store sl) u) (map_of (heads sl) u)" for u
    using assms by (simp add: sealer_inv_def)
  have "head_ok u (rows (sl_store (snd ?r)) u) (map_of (heads (snd ?r)) u)" for u
    using ok [of u] ok [of t] sealer_Seal_entry [OF ok [of t], of src raw et it]
    by (auto simp: sealer_Seal_rows sealer_Seal_head head_ok_def)
  moreover have "distinct (map fst (entries (sl_store (snd ?r))))" "distinct (map fst (heads (snd ?r)))"
    using assms by (simp_all add: sealer_inv_def sealer_Seal_def Let_def distinct_update)
  ultimately show ?thesis by (simp add: sealer_inv_def)
qed

subsection \<open>Runs of the sealer\<close>

text \<open>
  A run of the sealer is the sequence of its \<open>Seal\<close> calls, in the order the mutex admits
  them. Its abstract specification is one list of sealed lines per tenant, in call order.
\<close>

type_synonym seal_req = "string \<times> string \<times> string \<times> i64 \<times> i64"

fun seal_all :: "sealer \<Rightarrow> seal_req list \<Rightarrow> sealer" where
  "seal_all sl [] = sl"
| "seal_all sl ((t, src, raw, et, it) # rs) = seal_all (snd (sealer_Seal sl t src raw et it)) rs"

definition line_of :: "entry \<Rightarrow> string \<times> string \<times> i64 \<times> i64" where
  "line_of e = (Source e, Raw e, EventTime e, IngestTime e)"

definition tenant_lines :: "string \<Rightarrow> seal_req list \<Rightarrow> (string \<times> string \<times> i64 \<times> i64) list" where
  "tenant_lines t rs = map snd (filter (\<lambda>r. fst r = t) rs)"

lemma seal_all_inv: "sealer_inv sl \<Longrightarrow> sealer_inv (seal_all sl rs)"
  by (induction sl rs rule: seal_all.induct) (simp_all add: sealer_inv_Seal)

lemma seal_all_lines:
  "sealer_inv sl \<Longrightarrow>
    map line_of (rows (sl_store (seal_all sl rs)) t) =
    map line_of (rows (sl_store sl) t) @ tenant_lines t rs"
proof (induction sl rs rule: seal_all.induct)
  case (2 sl u src raw et it rs)
  then have "head_ok u (rows (sl_store sl) u) (map_of (heads sl) u)"
    by (simp add: sealer_inv_def)
  from sealer_Seal_entry [OF this, of src raw et it] 2 show ?case
    by (auto simp: sealer_inv_Seal sealer_Seal_rows tenant_lines_def line_of_def)
qed (simp add: tenant_lines_def)

lemma sealed_rows_ok:
  "head_ok t (rows (sl_store (seal_all (NewSealer NewStore) reqs)) t)
    (map_of (heads (seal_all (NewSealer NewStore) reqs)) t)"
  using seal_all_inv [OF sealer_inv_new, of reqs] by (simp add: sealer_inv_def)

lemma sealed_rows_lines:
  "map line_of (rows (sl_store (seal_all (NewSealer NewStore) reqs)) t) = tenant_lines t reqs"
  using seal_all_lines [OF sealer_inv_new, of reqs t]
  by (simp add: NewSealer_def NewStore_def rows_def)

text \<open>
  C18 (internal/chain/sealer.go, Seal): for every sequence of \<open>Seal\<close> calls, over any
  tenants in any interleaving, each tenant's rows are exactly its lines in call order: every row
  carries its tenant, the \<open>i\<close>-th row has sequence number \<open>i\<close>, and the rows form a hash
  chain from the tenant's own genesis. Calls for other tenants leave no trace in them.
\<close>

theorem sealer_refines_per_tenant_logs:
  "let es = rows (sl_store (seal_all (NewSealer NewStore) reqs)) t
   in map line_of es = tenant_lines t reqs \<and> map TenantID es = replicate (length es) t \<and>
      map Seq es = map of_nat [0..<length es] \<and> intact t es"
proof -
  let ?es = "rows (sl_store (seal_all (NewSealer NewStore) reqs)) t"
  have "intact t ?es" and "map TenantID ?es = replicate (length ?es) t"
    using sealed_rows_ok [of t reqs] by (auto simp: head_ok_def intro!: nth_equalityI)
  then show ?thesis
    by (simp add: Let_def intact_Seq sealed_rows_lines)
qed

text \<open>
  In internal/chain/sealer.go and internal/crypto/canonical.go: the head hash binds the
  whole history. Two intact chains of one tenant with the same length and the same last entry
  hash agree in every sequence number, timestamp, source, raw line and hash, or the inputs hashed
  in replaying the two chains contain an explicit SHA-256 collision.
\<close>

theorem chain_head_binds_history:
  assumes "intact t es" and "intact t es'" and "length es = length es'"
    and "tip (Genesis t) es = tip (Genesis t) es'"
    and "sized t" and "list_all entry_sized es" and "list_all entry_sized es'"
  shows "map content es = map content es' \<or>
    collides (chain_inputs t (Genesis t) es) (chain_inputs t (Genesis t) es')"
  using assms by (intro chain_binding_aux) (auto simp: list_all_iff)

text \<open>
  In internal/chain/store.go, Range: on an intact chain, the window \<open>[start, end]\<close> is
  returned in order and reported complete exactly when it lies inside the chain; otherwise the
  call returns the part of the window before the first missing sequence number and reports it
  incomplete. It returns at all, neither panicking nor looping, for every window whose end is not
  the largest \<open>uint64\<close> and whose capacity can be allocated.
\<close>

theorem range_of_intact_chain:
  assumes "intact t (rows s t)" and "length (rows s t) \<le> 2 ^ 64"
    and "start \<le> stop" and "stop \<noteq> - 1" and "unat stop - unat start < 2 ^ 45"
  shows "store_Range s t start stop =
    Inr (take (Suc (unat stop) - unat start) (drop (unat start) (rows s t)),
      unat stop < length (rows s t))"
proof -
  have "\<not> make_panics 8 (stop - start + 1)"
    using assms(5) unat_window [OF assms(3,4)] by (simp add: make_panics_def)
  moreover have "\<not> stop < start"
    using assms(3) by simp
  ultimately show ?thesis
    using store_Range_slice [OF byseq_intact [OF assms(1,2)] assms(4)] by simp
qed

definition demo_rows :: store where
  "demo_rows = sl_store (seal_all (NewSealer NewStore)
     [(''acme'', ''api'', ''line'', 0, 0), (''globex'', ''app'', ''x'', 0, 0), (''acme'', ''api'', ''line'', 1, 1)])"

lemma demo_rows_acme:
  "intact ''acme'' (rows demo_rows ''acme'')"
  "map line_of (rows demo_rows ''acme'') = [(''api'', ''line'', 0, 0), (''api'', ''line'', 1, 1)]"
  "length (rows demo_rows ''acme'') = 2"
proof -
  show "intact ''acme'' (rows demo_rows ''acme'')"
    unfolding demo_rows_def using sealed_rows_ok head_ok_def by blast
  show lines: "map line_of (rows demo_rows ''acme'') = [(''api'', ''line'', 0, 0), (''api'', ''line'', 1, 1)]"
    unfolding demo_rows_def sealed_rows_lines by (simp add: tenant_lines_def)
  from arg_cong [OF this, of length] show "length (rows demo_rows ''acme'') = 2"
    by simp
qed

lemma demo_rows_sized: "list_all entry_sized (rows demo_rows ''acme'')"
  using demo_rows_acme(2)
  by (auto simp: line_of_def entry_sized_def sized_def list_all_iff map_eq_Cons_conv)

text \<open>Witnesses: a store sealed by the model itself.\<close>

theorem range_of_intact_chain_witness:
  "store_Range demo_rows ''acme'' 0 1 =
    Inr (take (Suc (unat (1 :: u64)) - unat (0 :: u64)) (drop (unat (0 :: u64)) (rows demo_rows ''acme'')),
      unat (1 :: u64) < length (rows demo_rows ''acme''))"
  by (rule range_of_intact_chain) (simp_all add: demo_rows_acme)

theorem chain_head_binds_history_witness:
  "map content (rows demo_rows ''acme'') = map content (rows demo_rows ''acme'') \<or>
    collides (chain_inputs ''acme'' (Genesis ''acme'') (rows demo_rows ''acme''))
      (chain_inputs ''acme'' (Genesis ''acme'') (rows demo_rows ''acme''))"
  by (rule chain_head_binds_history) (simp_all add: demo_rows_acme demo_rows_sized sized_def)

end
