(* ===== verification/Merkle.thy ===== *)
theory Merkle
  imports Canonical
begin

section \<open>Merkle root (internal/checkpoint/merkle.go)\<close>

text \<open>
  The level-by-level loop of \<open>MerkleRoot\<close>, its equality with the recursive definition of the
  tree it computes (\<open>mtree\<close>), and what the root commits to: for lists of equal length it binds
  every hash; on its own it does not bind the length, since the last node of an odd level is
  duplicated.
\<close>

definition leafPrefix :: bytes where
  "leafPrefix = [0x00]"

definition nodePrefix :: bytes where
  "nodePrefix = [0x01]"

definition merkle_leaf :: "bytes \<Rightarrow> bytes" where
  "merkle_leaf h = Hash (leafPrefix @ h)"

definition merkle_node :: "bytes \<Rightarrow> bytes \<Rightarrow> bytes" where
  "merkle_node left right = Hash (nodePrefix @ left @ right)"

text \<open>One pass of the inner loop, \<open>i += 2\<close> over a level.\<close>

fun next_level :: "bytes list \<Rightarrow> bytes list" where
  "next_level (left # right # level) = merkle_node left right # next_level level"
| "next_level [left] = [merkle_node left left]"
| "next_level [] = []"

lemma length_next_level [simp]: "length (next_level xs) = (length xs + 1) div 2"
  by (induction xs rule: next_level.induct) auto

function merkle_loop :: "bytes list \<Rightarrow> bytes" where
  "merkle_loop level = (if 1 < length level then merkle_loop (next_level level) else level ! 0)"
  by pat_completeness auto
termination
  by (relation "measure length") auto

declare merkle_loop.simps [simp del]

definition merkle_root :: "bytes list \<Rightarrow> bytes" where
  "merkle_root entryHashes =
     (if entryHashes = [] then Hash leafPrefix else merkle_loop (map merkle_leaf entryHashes))"

subsection \<open>The tree the loop computes\<close>

fun mtree :: "nat \<Rightarrow> bytes list \<Rightarrow> bytes" where
  "mtree 0 xs = xs ! 0"
| "mtree (Suc d) xs =
     (let left = mtree d (take (2 ^ d) xs)
      in merkle_node left (if length xs \<le> 2 ^ d then left else mtree d (drop (2 ^ d) xs)))"

lemma next_level_append:
  "even (length xs) \<Longrightarrow> next_level (xs @ ys) = next_level xs @ next_level ys"
  by (induction xs rule: next_level.induct) auto

lemma next_level_take: "next_level (take (2 * n) xs) = take n (next_level xs)"
proof (induction xs arbitrary: n rule: next_level.induct)
  case (1 l r xs)
  then show ?case by (cases n) auto
next
  case (2 l)
  then show ?case by (cases n) auto
qed simp

lemma next_level_drop: "next_level (drop (2 * n) xs) = drop n (next_level xs)"
proof (induction xs arbitrary: n rule: next_level.induct)
  case (1 l r xs)
  then show ?case by (cases n) auto
next
  case (2 l)
  then show ?case by (cases n) auto
qed simp

lemma mtree_next_level:
  "xs \<noteq> [] \<Longrightarrow> length xs \<le> 2 ^ Suc d \<Longrightarrow> mtree (Suc d) xs = mtree d (next_level xs)"
proof (induction d arbitrary: xs)
  case 0
  then show ?case by (cases xs rule: next_level.cases) auto
next
  case (Suc d)
  let ?n = "2 ^ d :: nat"
  have left: "mtree (Suc d) (take (2 * ?n) xs) = mtree d (take ?n (next_level xs))"
    using Suc.IH [of "take (2 * ?n) xs"] Suc.prems(1) by (simp add: next_level_take del: mtree.simps)
  have right: "mtree (Suc d) (drop (2 * ?n) xs) = mtree d (drop ?n (next_level xs))"
    if "2 * ?n < length xs"
    using Suc.IH [of "drop (2 * ?n) xs"] Suc.prems that by (simp add: next_level_drop del: mtree.simps)
  have "length (next_level xs) \<le> ?n \<longleftrightarrow> length xs \<le> 2 * ?n"
    by auto
  then show ?case
    using left right by (simp add: Let_def del: mtree.simps(2)) (simp add: mtree.simps(2) Let_def)
qed

lemma next_level_eq_Nil [simp]: "next_level xs = [] \<longleftrightarrow> xs = []"
  by (cases xs rule: next_level.cases) auto

lemma merkle_loop_mtree:
  "xs \<noteq> [] \<Longrightarrow> length xs \<le> 2 ^ d \<Longrightarrow> d = 0 \<or> 2 ^ (d - 1) < length xs \<Longrightarrow> merkle_loop xs = mtree d xs"
proof (induction d arbitrary: xs)
  case 0
  then show ?case by (simp add: merkle_loop.simps)
next
  case (Suc d)
  have "(1 :: nat) \<le> 2 ^ d" by simp
  also have "2 ^ d < length xs" using Suc.prems(3) by simp
  finally have "1 < length xs" .
  moreover
  have "d = 0 \<or> 2 ^ (d - 1) < length (next_level xs)"
    using Suc.prems(3) by (cases d) auto
  then have "merkle_loop (next_level xs) = mtree d (next_level xs)"
    using Suc.prems by (intro Suc.IH) auto
  ultimately show ?case
    using Suc.prems by (simp add: merkle_loop.simps [of xs] mtree_next_level del: mtree.simps)
qed

text \<open>
  C28 (internal/checkpoint/merkle.go, MerkleRoot): the level-by-level loop computes the root of
  the binary tree of the smallest depth \<open>d\<close> that holds the leaves, defined by recursion on
  \<open>d\<close>: the left subtree takes the first half of the \<open>2^d\<close> leaf slots, and a node whose right
  half is empty hashes its left child twice.
\<close>

theorem merkle_root_is_tree_root:
  assumes "hs \<noteq> []" and "length hs \<le> 2 ^ d" and "d = 0 \<or> 2 ^ (d - 1) < length hs"
  shows "merkle_root hs = mtree d (map merkle_leaf hs)"
  using assms by (simp add: merkle_root_def merkle_loop_mtree)

theorem merkle_root_is_tree_root_witness:
  "merkle_root [[1], [2], [3], [4], [5]] = mtree 3 (map merkle_leaf [[1], [2], [3], [4], [5]])"
  by (rule merkle_root_is_tree_root) simp_all

subsection \<open>What the root binds\<close>

fun level_inputs :: "bytes list \<Rightarrow> bytes list" where
  "level_inputs (left # right # level) = (nodePrefix @ left @ right) # level_inputs level"
| "level_inputs [left] = [nodePrefix @ left @ left]"
| "level_inputs [] = []"

function loop_inputs :: "bytes list \<Rightarrow> bytes list" where
  "loop_inputs level =
     (if 1 < length level then level_inputs level @ loop_inputs (next_level level) else [])"
  by pat_completeness auto
termination
  by (relation "measure length") auto

declare loop_inputs.simps [simp del]

definition merkle_inputs :: "bytes list \<Rightarrow> bytes list" where
  "merkle_inputs hs = map (\<lambda>h. leafPrefix @ h) hs @ loop_inputs (map merkle_leaf hs)"

lemma length_merkle_leaf [simp, byte_lengths]: "length (merkle_leaf h) = 32"
  by (simp add: merkle_leaf_def)

lemma length_merkle_node [simp, byte_lengths]: "length (merkle_node l r) = 32"
  by (simp add: merkle_node_def)

lemma merkle_node_binding:
  assumes "merkle_node l r = merkle_node l' r'" and "length l = length l'"
  shows "l = l' \<and> r = r' \<or> collides [nodePrefix @ l @ r] [nodePrefix @ l' @ r']"
  using assms by (auto simp: merkle_node_def Hash_def collides_def)

lemma merkle_leaf_binding:
  "merkle_leaf h = merkle_leaf h' \<Longrightarrow> h = h' \<or> collides [leafPrefix @ h] [leafPrefix @ h']"
  by (auto simp: merkle_leaf_def Hash_def collides_def)

definition digests :: "bytes list \<Rightarrow> bool" where
  "digests xs \<longleftrightarrow> (\<forall>x\<in>set xs. length x = 32)"

lemma digests_next_level [simp]: "digests (next_level xs)"
  by (induction xs rule: next_level.induct) (auto simp: digests_def)

lemma next_level_binding:
  "next_level xs = next_level ys \<Longrightarrow> length xs = length ys \<Longrightarrow> digests xs \<Longrightarrow> digests ys \<Longrightarrow>
    xs = ys \<or> collides (level_inputs xs) (level_inputs ys)"
proof (induction xs arbitrary: ys rule: next_level.induct)
  case (1 l r xs)
  then obtain l' r' ys' where ys: "ys = l' # r' # ys'"
    by (cases ys rule: next_level.cases) auto
  have node: "l = l' \<and> r = r' \<or> collides [nodePrefix @ l @ r] [nodePrefix @ l' @ r']"
    by (rule merkle_node_binding) (use "1.prems" ys in \<open>auto simp: digests_def\<close>)
  have rest: "xs = ys' \<or> collides (level_inputs xs) (level_inputs ys')"
    by (rule "1.IH") (use "1.prems" ys in \<open>auto simp: digests_def\<close>)
  have "collides (level_inputs (l # r # xs)) (level_inputs ys)"
    if "collides [nodePrefix @ l @ r] [nodePrefix @ l' @ r'] \<or> collides (level_inputs xs) (level_inputs ys')"
    using that unfolding ys by (auto elim!: collides_mono)
  with node rest ys show ?case by auto
next
  case (2 l)
  then obtain l' where ys: "ys = [l']"
    by (cases ys rule: next_level.cases) auto
  have "l = l' \<and> l = l' \<or> collides [nodePrefix @ l @ l] [nodePrefix @ l' @ l']"
    by (rule merkle_node_binding) (use "2.prems" ys in \<open>auto simp: digests_def\<close>)
  then show ?case by (auto simp: ys)
qed simp

lemma merkle_loop_binding:
  "merkle_loop xs = merkle_loop ys \<Longrightarrow> length xs = length ys \<Longrightarrow> digests xs \<Longrightarrow> digests ys \<Longrightarrow>
    xs = ys \<or> collides (loop_inputs xs) (loop_inputs ys)"
proof (induction xs arbitrary: ys rule: merkle_loop.induct)
  case (1 xs)
  show ?case
  proof (cases "1 < length xs")
    case True
    then have up: "next_level xs = next_level ys \<or>
        collides (loop_inputs (next_level xs)) (loop_inputs (next_level ys))"
      using "1.prems" by (intro "1.IH") (simp_all add: merkle_loop.simps [of xs] merkle_loop.simps [of ys])
    have "xs = ys \<or> collides (level_inputs xs) (level_inputs ys)" if "next_level xs = next_level ys"
      using that "1.prems" by (intro next_level_binding)
    moreover have "collides (loop_inputs xs) (loop_inputs ys)"
      if "collides (level_inputs xs) (level_inputs ys) \<or>
        collides (loop_inputs (next_level xs)) (loop_inputs (next_level ys))"
      using that True "1.prems"(2)
      by (auto simp: loop_inputs.simps [of xs] loop_inputs.simps [of ys] elim!: collides_mono)
    ultimately show ?thesis using up by blast
  next
    case False
    with "1.prems" show ?thesis
      by (cases xs; cases ys) (auto simp: merkle_loop.simps)
  qed
qed

lemma map_leaf_binding:
  "map merkle_leaf hs = map merkle_leaf hs' \<Longrightarrow>
    hs = hs' \<or> collides (map (\<lambda>h. leafPrefix @ h) hs) (map (\<lambda>h. leafPrefix @ h) hs')"
proof (induction hs arbitrary: hs')
  case (Cons h hs)
  then obtain k ks where hs': "hs' = k # ks" by auto
  with Cons.prems have "h = k \<or> collides [leafPrefix @ h] [leafPrefix @ k]"
    by (simp add: merkle_leaf_binding)
  moreover have "hs = ks \<or> collides (map (\<lambda>h. leafPrefix @ h) hs) (map (\<lambda>h. leafPrefix @ h) ks)"
    by (rule Cons.IH) (use Cons.prems hs' in simp)
  ultimately show ?case
    using hs' by (auto intro: collides_intros)
qed simp

lemma merkle_binding:
  assumes "merkle_root hs = merkle_root hs'" and "length hs = length hs'"
  shows "hs = hs' \<or> collides (merkle_inputs hs) (merkle_inputs hs')"
proof (cases "hs = []")
  case False
  with assms have "merkle_loop (map merkle_leaf hs) = merkle_loop (map merkle_leaf hs')"
    by (auto simp: merkle_root_def)
  then have "map merkle_leaf hs = map merkle_leaf hs' \<or>
      collides (loop_inputs (map merkle_leaf hs)) (loop_inputs (map merkle_leaf hs'))"
    by (rule merkle_loop_binding) (use assms(2) in \<open>auto simp: digests_def\<close>)
  then show ?thesis
    using map_leaf_binding [of hs hs'] by (auto simp: merkle_inputs_def intro: collides_intros)
qed (use assms in simp)

text \<open>
  In internal/checkpoint/merkle.go, MerkleRoot: for a known number of entries the root
  commits to every entry hash and its position. Two lists of hashes of the same length with the
  same root are equal, or the hashing of their leaves and nodes contains an explicit SHA-256
  collision.
\<close>

theorem merkle_root_binds_entries:
  assumes "merkle_root hs = merkle_root hs'" and "length hs = length hs'"
  shows "hs = hs' \<or> collides (merkle_inputs hs) (merkle_inputs hs')"
  using assms by (rule merkle_binding)

theorem merkle_root_binds_entries_witness:
  "[[1], [2], [3]] = [[1], [2], [3 :: byte]] \<or>
    collides (merkle_inputs [[1], [2], [3]]) (merkle_inputs [[1], [2], [3]])"
  by (rule merkle_root_binds_entries) simp_all

text \<open>
  In internal/checkpoint/merkle.go, the comment on odd levels: the root alone does not commit
  to the number of entries. A list of odd length, from three hashes on, has the same root as the
  list with its last hash repeated, with no collision of the hash function. This is why the
  checkpoint id must carry the entry count beside the root.
\<close>

theorem merkle_root_ignores_repeated_last:
  assumes "even (length hs)" and "hs \<noteq> []"
  shows "merkle_root (hs @ [h, h]) = merkle_root (hs @ [h])"
proof -
  have "next_level (map merkle_leaf hs @ [merkle_leaf h, merkle_leaf h]) =
      next_level (map merkle_leaf hs @ [merkle_leaf h])"
    using assms(1) by (simp add: next_level_append)
  with assms(2) show ?thesis
    by (simp add: merkle_root_def merkle_loop.simps [of "_ @ _"])
qed

theorem merkle_root_ignores_repeated_last_witness:
  "merkle_root ([[1], [2]] @ [[3], [3]]) = merkle_root ([[1], [2]] @ [[3 :: byte]])"
  by (rule merkle_root_ignores_repeated_last) simp_all

end
