(* ===== verification/Checkpoint.thy ===== *)
theory Checkpoint
  imports Chain Merkle
begin

section \<open>Checkpoints (internal/checkpoint/checkpoint.go)\<close>

text \<open>
  The checkpoint record and \<open>Build\<close>, which panics on an empty window (\<open>entries[0]\<close>), and
  the property the whole system rests on: the checkpoint id binds every entry hash of its window.
\<close>

record checkpoint =
  CpTenantID :: string
  SeqStart :: u64
  SeqEnd :: u64
  EntryCount :: u64
  HeadHash :: bytes
  MerkleRoot :: bytes
  PrevCheckpointHash :: bytes
  AnchoredAt :: i64
  CpCanonVersion :: i64
  CheckpointID :: bytes

definition Build :: "string \<Rightarrow> entry list \<Rightarrow> bytes \<Rightarrow> i64 \<Rightarrow> fault + checkpoint" where
  "Build tenantID es prevCheckpointID anchoredAt =
     (if es = [] then Inl Panic
      else
        (let hashes = map EntryHash es;
             seqStart = Seq (es ! 0);
             seqEnd = Seq (es ! (length es - 1));
             headHash = EntryHash (es ! (length es - 1));
             root = merkle_root hashes;
             count = of_nat (length es);
             cid = checkpoint_id tenantID seqStart seqEnd count headHash root prevCheckpointID anchoredAt
         in Inr \<lparr>CpTenantID = tenantID, SeqStart = seqStart, SeqEnd = seqEnd, EntryCount = count,
                 HeadHash = headHash, MerkleRoot = root, PrevCheckpointHash = prevCheckpointID,
                 AnchoredAt = anchoredAt, CpCanonVersion = CanonVersion, CheckpointID = cid\<rparr>))"

lemma Build_Nil [simp]: "Build t [] prev at = Inl Panic"
  by (simp add: Build_def)

lemma Build_Inr:
  "es \<noteq> [] \<Longrightarrow> \<exists>cp. Build t es prev at = Inr cp"
  by (simp add: Build_def Let_def)

lemma Build_fields:
  assumes "Build t es prev at = Inr cp"
  shows "es \<noteq> []" "CpTenantID cp = t" "SeqStart cp = Seq (hd es)" "SeqEnd cp = Seq (last es)"
    "EntryCount cp = of_nat (length es)" "HeadHash cp = EntryHash (last es)"
    "MerkleRoot cp = merkle_root (map EntryHash es)" "PrevCheckpointHash cp = prev"
    "AnchoredAt cp = at" "CpCanonVersion cp = CanonVersion"
    "CheckpointID cp = checkpoint_id t (SeqStart cp) (SeqEnd cp) (EntryCount cp) (HeadHash cp)
      (MerkleRoot cp) prev at"
  using assms by (auto simp: Build_def Let_def last_conv_nth hd_conv_nth split: if_splits)

lemma length_merkle_root [simp, byte_lengths]:
  "length (merkle_root hs) = 32"
proof -
  have "length (merkle_loop xs) = 32" if "xs \<noteq> []" "digests xs" for xs
    using that
  proof (induction xs rule: merkle_loop.induct)
    case (1 xs)
    show ?case
    proof (cases "1 < length xs")
      case True
      with 1 show ?thesis by (simp add: merkle_loop.simps [of xs])
    next
      case False
      with 1 show ?thesis
        by (cases xs) (auto simp: merkle_loop.simps [of "[_]"] digests_def)
    qed
  qed
  then show ?thesis
    by (simp add: merkle_root_def digests_def)
qed

text \<open>The inputs hashed by \<open>Build\<close>, and the one that gives the id.\<close>

definition id_input :: "checkpoint \<Rightarrow> bytes" where
  "id_input cp = encoder_Raw (checkpoint_encoder (CpTenantID cp) (SeqStart cp) (SeqEnd cp)
     (EntryCount cp) (HeadHash cp) (MerkleRoot cp) (PrevCheckpointHash cp) (AnchoredAt cp))"

definition window_inputs :: "entry list \<Rightarrow> bytes list" where
  "window_inputs es = merkle_inputs (map EntryHash es)"

lemma Build_id_input:
  "Build t es prev at = Inr cp \<Longrightarrow> CheckpointID cp = sha256 (id_input cp)"
  using Build_fields [of t es prev at cp]
  by (simp add: id_input_def encoder_Sum_unfold encoder_Raw_def checkpoint_encoding)

lemma id_input_inject:
  assumes "id_input cp = id_input cp'" 
    and "sized (CpTenantID cp)" "sized (HeadHash cp)" "sized (MerkleRoot cp)" "sized (PrevCheckpointHash cp)"
    and "sized (CpTenantID cp')" "sized (HeadHash cp')" "sized (MerkleRoot cp')" "sized (PrevCheckpointHash cp')"
  shows "CpTenantID cp = CpTenantID cp' \<and> SeqStart cp = SeqStart cp' \<and> SeqEnd cp = SeqEnd cp' \<and>
    EntryCount cp = EntryCount cp' \<and> HeadHash cp = HeadHash cp' \<and> MerkleRoot cp = MerkleRoot cp' \<and>
    PrevCheckpointHash cp = PrevCheckpointHash cp' \<and> AnchoredAt cp = AnchoredAt cp'"
  by (rule checkpoint_encoding_inject)
    (use assms in \<open>simp_all add: id_input_def encoder_Raw_def checkpoint_encoding\<close>)

lemma Build_binding:
  assumes cp: "Build t es prev at = Inr cp" and cp': "Build t es' prev' at' = Inr cp'"
    and "CheckpointID cp = CheckpointID cp'"
    and "sized t" "sized es" "sized es'" "sized prev" "sized prev'"
    and "list_all (\<lambda>e. length (EntryHash e) = 32) es" "list_all (\<lambda>e. length (EntryHash e) = 32) es'"
  shows "(prev = prev' \<and> at = at' \<and> length es = length es' \<and> HeadHash cp = HeadHash cp' \<and>
      SeqStart cp = SeqStart cp' \<and> SeqEnd cp = SeqEnd cp' \<and> map EntryHash es = map EntryHash es') \<or>
    collides (id_input cp # window_inputs es) (id_input cp' # window_inputs es')"
proof -
  note f = Build_fields [OF cp] and f' = Build_fields [OF cp']
  have len: "sized (HeadHash cp)" "sized (HeadHash cp')" "sized (MerkleRoot cp)" "sized (MerkleRoot cp')"
    using f f' assms(9,10) by (auto simp: sized_def list_all_iff)
  have "sha256 (id_input cp) = sha256 (id_input cp')"
    using assms(3) Build_id_input [OF cp] Build_id_input [OF cp'] by simp
  then consider "collides [id_input cp] [id_input cp']" | "id_input cp = id_input cp'"
    by (auto simp: collides_def)
  then show ?thesis
  proof cases
    case 2
    then have eq: "SeqStart cp = SeqStart cp'" "SeqEnd cp = SeqEnd cp'" "EntryCount cp = EntryCount cp'"
      "HeadHash cp = HeadHash cp'" "MerkleRoot cp = MerkleRoot cp'" "prev = prev'" "at = at'"
      using id_input_inject [of cp cp'] len f f' assms(4,7,8) by auto
    have lens: "length es = length es'"
      using eq(3) f(5) f'(5) assms(5,6) by (simp add: of_nat_u64_inject sized_def)
    have "map EntryHash es = map EntryHash es' \<or>
        collides (merkle_inputs (map EntryHash es)) (merkle_inputs (map EntryHash es'))"
      by (rule merkle_binding) (use eq(5) f(7) f'(7) lens in simp_all)
    then show ?thesis
      using eq lens by (auto simp: window_inputs_def intro: collides_intros)
  qed (auto intro: collides_intros)
qed

text \<open>
  C13 (internal/checkpoint/checkpoint.go, Build): the checkpoint id is a commitment to the
  window. Two windows of one tenant whose checkpoints have the same id have the same number of
  entries, the same sequence range, the same previous checkpoint and anchoring time, and the
  same entry hash at every position, or the inputs hashed by the two calls contain an explicit
  SHA-256 collision.
\<close>

theorem checkpoint_id_binds_window:
  assumes "Build t es prev at = Inr cp" and "Build t es' prev' at' = Inr cp'"
    and "CheckpointID cp = CheckpointID cp'"
    and "sized t" "sized es" "sized es'" "sized prev" "sized prev'"
    and "list_all (\<lambda>e. length (EntryHash e) = 32) es" "list_all (\<lambda>e. length (EntryHash e) = 32) es'"
  shows "(prev = prev' \<and> at = at' \<and> length es = length es' \<and> HeadHash cp = HeadHash cp' \<and>
      SeqStart cp = SeqStart cp' \<and> SeqEnd cp = SeqEnd cp' \<and> map EntryHash es = map EntryHash es') \<or>
    collides (id_input cp # window_inputs es) (id_input cp' # window_inputs es')"
  using assms by (rule Build_binding)

definition demo_checkpoint :: checkpoint where
  "demo_checkpoint = (case Build ''acme'' (rows demo_rows ''acme'') [] 1 of Inr cp \<Rightarrow> cp)"

lemma Build_Inr_case:
  "es \<noteq> [] \<Longrightarrow> Build t es prev at = Inr (case Build t es prev at of Inr cp \<Rightarrow> cp)"
  by (simp add: Build_def Let_def)

lemma demo_checkpoint: "Build ''acme'' (rows demo_rows ''acme'') [] 1 = Inr demo_checkpoint"
  using demo_rows_acme(3) unfolding demo_checkpoint_def by (intro Build_Inr_case) auto

lemma demo_checkpoint_fields:
  "CpTenantID demo_checkpoint = ''acme''" "SeqStart demo_checkpoint = 0" "SeqEnd demo_checkpoint = 1"
proof -
  have "map Seq (rows demo_rows ''acme'') = [0, 1]"
    using intact_Seq [OF demo_rows_acme(1)] by (simp add: demo_rows_acme(3) numeral_2_eq_2)
  then have "Seq (hd (rows demo_rows ''acme'')) = 0" "Seq (last (rows demo_rows ''acme'')) = 1"
    by (auto simp: map_eq_Cons_conv)
  then show "CpTenantID demo_checkpoint = ''acme''" "SeqStart demo_checkpoint = 0"
      "SeqEnd demo_checkpoint = 1"
    using Build_fields [OF demo_checkpoint] by simp_all
qed

theorem checkpoint_id_binds_window_witness:
  "let es = rows demo_rows ''acme''; cp = demo_checkpoint
   in ([] = ([] :: bytes) \<and> (1 :: i64) = 1 \<and> length es = length es \<and> HeadHash cp = HeadHash cp \<and>
        SeqStart cp = SeqStart cp \<and> SeqEnd cp = SeqEnd cp \<and> map EntryHash es = map EntryHash es) \<or>
      collides (id_input cp # window_inputs es) (id_input cp # window_inputs es)"
  unfolding Let_def
  by (rule checkpoint_id_binds_window [OF demo_checkpoint demo_checkpoint])
    (simp_all add: sized_def demo_rows_acme(3) list_all_iff links_hashes [OF demo_rows_acme(1)])

text \<open>
  In internal/checkpoint/checkpoint.go, the package comment: the committed entry count closes
  the gap the Merkle root leaves. Repeating the last entry of an odd window keeps the root and
  the head hash, but the two checkpoints have different ids, or their two encodings are an
  explicit SHA-256 collision.
\<close>

theorem entry_count_separates_repeated_tail:
  assumes "Build t (es @ [e]) prev at = Inr cp" and "Build t (es @ [e, e]) prev at = Inr cp'"
    and "even (length es)" and "es \<noteq> []" and "sized t" "sized (es @ [e, e])" "sized prev"
    and "length (EntryHash e) = 32"
  shows "MerkleRoot cp = MerkleRoot cp' \<and> HeadHash cp = HeadHash cp' \<and>
    (CheckpointID cp \<noteq> CheckpointID cp' \<or> collides [id_input cp] [id_input cp'])"
proof -
  note f = Build_fields [OF assms(1)] and f' = Build_fields [OF assms(2)]
  have "next_level (map merkle_leaf (map EntryHash es) @ [merkle_leaf (EntryHash e), merkle_leaf (EntryHash e)]) =
      next_level (map merkle_leaf (map EntryHash es) @ [merkle_leaf (EntryHash e)])"
    using assms(3) by (simp add: next_level_append)
  then have root: "MerkleRoot cp = MerkleRoot cp'"
    using f(7) f'(7) assms(4) by (simp add: merkle_root_def merkle_loop.simps [of "_ @ _"])
  have "EntryCount cp \<noteq> EntryCount cp'"
    using f(5) f'(5) assms(6) of_nat_u64_inject [of "Suc (length es)" "Suc (Suc (length es))"]
    by (auto simp: sized_def)
  then have "id_input cp \<noteq> id_input cp'"
    using id_input_inject [of cp cp'] f f' assms by (auto simp: sized_def)
  then show ?thesis
    using root f(6) f'(6) Build_id_input [OF assms(1)] Build_id_input [OF assms(2)]
    by (auto simp: collides_def)
qed

definition repeated_tail_checkpoint :: "nat \<Rightarrow> checkpoint" where
  "repeated_tail_checkpoint k =
     (let es = rows demo_rows ''acme''
      in case Build ''acme'' (es @ replicate k (last es)) [] 1 of Inr cp \<Rightarrow> cp)"

theorem entry_count_separates_repeated_tail_witness:
  "let cp = repeated_tail_checkpoint 1; cp' = repeated_tail_checkpoint 2
   in MerkleRoot cp = MerkleRoot cp' \<and> HeadHash cp = HeadHash cp' \<and>
      (CheckpointID cp \<noteq> CheckpointID cp' \<or> collides [id_input cp] [id_input cp'])"
proof -
  let ?es = "rows demo_rows ''acme''"
  have ne: "?es \<noteq> []"
    using demo_rows_acme(3) by auto
  then have last: "length (EntryHash (last ?es)) = 32"
    by (intro links_hashes [OF demo_rows_acme(1)]) simp
  have 1: "Build ''acme'' (?es @ [last ?es]) [] 1 = Inr (repeated_tail_checkpoint 1)"
    and 2: "Build ''acme'' (?es @ [last ?es, last ?es]) [] 1 = Inr (repeated_tail_checkpoint 2)"
    unfolding repeated_tail_checkpoint_def Let_def
    by (simp_all add: Build_Inr_case [symmetric] numeral_2_eq_2 del: One_nat_def)
      (simp_all add: Build_Inr_case [symmetric])
  show ?thesis
    unfolding Let_def
    by (rule entry_count_separates_repeated_tail [OF 1 2])
      (use ne last in \<open>simp_all add: demo_rows_acme(3) sized_def\<close>)
qed

end
