(* ===== verification/Codec.thy ===== *)
theory Codec
  imports Checkpoint Std_Json
begin

section \<open>Stored checkpoint documents (internal/checkpoint/codec.go)\<close>

text \<open>
  \<open>Marshal\<close> and \<open>Unmarshal\<close> of the JSON document that the WORM store and Postgres hold, with
  what \<open>encoding/json\<close> does with a document nobody marshalled: names matched without regard to
  case, repeated members, null, members of the wrong type. One error stands for the texts of
  all syntax errors. A checkpoint survives the round trip when its tenant id is valid UTF-8.
\<close>

subsection \<open>Integers in documents\<close>

text \<open>\<open>strconv.ParseUint\<close> and \<open>strconv.ParseInt\<close>, base 10, 64 bits.\<close>

definition parse_uint64 :: "string \<Rightarrow> u64 option" where
  "parse_uint64 s =
     (if s \<noteq> [] \<and> list_all is_digit s \<and> undec s < 2 ^ 64 then Some (of_nat (undec s)) else None)"

definition parse_int64 :: "string \<Rightarrow> i64 option" where
  "parse_int64 s =
     (let neg = starts_with CHR ''-'' s;
          ds = (if neg \<or> starts_with CHR ''+'' s then tl s else s)
      in if ds = [] \<or> \<not> list_all is_digit ds then None
         else if neg then (if undec ds \<le> 2 ^ 63 then Some (- of_nat (undec ds)) else None)
         else (if undec ds < 2 ^ 63 then Some (of_nat (undec ds)) else None))"

lemma parse_uint64_dec [simp]: "parse_uint64 (dec (unat n)) = Some n"
  using unsigned_less [of n, where ?'a = nat] dec_digits [of _ "unat n"]
  by (simp add: parse_uint64_def list_all_iff)

lemma parse_int64_sdec [simp]: "parse_int64 (sdec n) = Some n"
proof -
  have digits: "list_all is_digit (dec k)" for k
    using dec_digits [of _ k] by (simp add: list_all_iff)
  have plus: "\<not> starts_with CHR ''+'' (dec k)" for k
    using dec_digits [of "CHR ''+''" k] by (cases "dec k") (auto simp: is_digit_def)
  have minus: "\<not> starts_with CHR ''-'' (dec k)" for k
    using dec_not_minus [of k "[]"] by simp
  have range: "- (2 ^ 63) \<le> sint n" "sint n < 2 ^ 63"
    using sint_ge [of n] sint_lt [of n] by simp_all
  show ?thesis
  proof (cases "sint n < 0")
    case True
    then have "(of_nat (nat (- sint n)) :: i64) = of_int (- sint n)" by simp
    then have "- of_nat (nat (- sint n)) = n" by simp
    with True range digits show ?thesis
      by (simp add: parse_int64_def sdec_def)
  next
    case False
    then have "(of_nat (nat (sint n)) :: i64) = of_int (sint n)" by simp
    then have "of_nat (nat (sint n)) = n" by simp
    with False range digits plus minus show ?thesis
      by (simp add: parse_int64_def sdec_def)
  qed
qed

subsection \<open>The document\<close>

record wireCheckpoint =
  w_tenant_id :: string
  w_seq_start :: u64
  w_seq_end :: u64
  w_entry_count :: u64
  w_head_hash :: string
  w_merkle_root :: string
  w_prev_checkpoint_hash :: string
  w_anchored_at :: i64
  w_canon_version :: i64
  w_checkpoint_id :: string

definition wire_zero :: wireCheckpoint where
  "wire_zero =
     \<lparr>w_tenant_id = '''', w_seq_start = 0, w_seq_end = 0, w_entry_count = 0, w_head_hash = '''', w_merkle_root = '''',
      w_prev_checkpoint_hash = '''', w_anchored_at = 0, w_canon_version = 0, w_checkpoint_id = ''''\<rparr>"

definition wire_of :: "checkpoint \<Rightarrow> wireCheckpoint" where
  "wire_of cp =
     \<lparr>w_tenant_id = CpTenantID cp, w_seq_start = SeqStart cp, w_seq_end = SeqEnd cp, w_entry_count = EntryCount cp,
      w_head_hash = hex_encode (HeadHash cp), w_merkle_root = hex_encode (MerkleRoot cp),
      w_prev_checkpoint_hash = hex_encode (PrevCheckpointHash cp), w_anchored_at = AnchoredAt cp,
      w_canon_version = CpCanonVersion cp, w_checkpoint_id = hex_encode (CheckpointID cp)\<rparr>"

definition wire_members :: "wireCheckpoint \<Rightarrow> (string \<times> json) list" where
  "wire_members w =
     [(''tenant_id'', JStr (w_tenant_id w)),
      (''seq_start'', JNum (dec (unat (w_seq_start w)))),
      (''seq_end'', JNum (dec (unat (w_seq_end w)))),
      (''entry_count'', JNum (dec (unat (w_entry_count w)))),
      (''head_hash'', JStr (w_head_hash w)),
      (''merkle_root'', JStr (w_merkle_root w)),
      (''prev_checkpoint_hash'', JStr (w_prev_checkpoint_hash w)),
      (''anchored_at'', JNum (sdec (w_anchored_at w))),
      (''canon_version'', JNum (sdec (w_canon_version w))),
      (''checkpoint_id'', JStr (w_checkpoint_id w))]"

definition Marshal :: "checkpoint \<Rightarrow> error + bytes" where
  "Marshal cp = Inr (bytes_of (json_indented (wire_members (wire_of cp))))"

subsection \<open>Decoding a member\<close>

definition field_error :: "string \<Rightarrow> string \<Rightarrow> string \<Rightarrow> error" where
  "field_error val field typ =
     ErrText (''json: cannot unmarshal '' @ val @ '' into Go struct field wireCheckpoint.'' @ field @
       '' of type '' @ typ)"

text \<open>The decoder goes on after a member of the wrong type and reports the first.\<close>

definition save_error :: "error \<Rightarrow> 'a \<times> error option \<Rightarrow> 'a \<times> error option" where
  "save_error err st = (fst st, case snd st of None \<Rightarrow> Some err | Some e \<Rightarrow> Some e)"

definition store_string ::
    "string \<Rightarrow> ((string \<Rightarrow> string) \<Rightarrow> 'a \<Rightarrow> 'a) \<Rightarrow> json \<Rightarrow> 'a \<times> error option \<Rightarrow> 'a \<times> error option" where
  "store_string field upd v st =
     (case v of
        JStr s \<Rightarrow> (upd (\<lambda>_. s) (fst st), snd st)
      | JNull \<Rightarrow> st
      | _ \<Rightarrow> save_error (field_error (json_kind v) field ''string'') st)"

definition store_number ::
    "(string \<Rightarrow> 64 word option) \<Rightarrow> string \<Rightarrow> string \<Rightarrow> ((64 word \<Rightarrow> 64 word) \<Rightarrow> 'a \<Rightarrow> 'a) \<Rightarrow> json \<Rightarrow>
      'a \<times> error option \<Rightarrow> 'a \<times> error option" where
  "store_number parse field typ upd v st =
     (case v of
        JNum l \<Rightarrow>
          (case parse l of
             Some n \<Rightarrow> (upd (\<lambda>_. n) (fst st), snd st)
           | None \<Rightarrow> save_error (field_error (''number '' @ l) field typ) st)
      | JNull \<Rightarrow> st
      | _ \<Rightarrow> save_error (field_error (json_kind v) field typ) st)"

definition store_field ::
    "string \<Rightarrow> json \<Rightarrow> wireCheckpoint \<times> error option \<Rightarrow> wireCheckpoint \<times> error option" where
  "store_field f v st =
     (if f = ''tenant_id'' then store_string f w_tenant_id_update v st
      else if f = ''seq_start'' then store_number parse_uint64 f ''uint64'' w_seq_start_update v st
      else if f = ''seq_end'' then store_number parse_uint64 f ''uint64'' w_seq_end_update v st
      else if f = ''entry_count'' then store_number parse_uint64 f ''uint64'' w_entry_count_update v st
      else if f = ''head_hash'' then store_string f w_head_hash_update v st
      else if f = ''merkle_root'' then store_string f w_merkle_root_update v st
      else if f = ''prev_checkpoint_hash'' then store_string f w_prev_checkpoint_hash_update v st
      else if f = ''anchored_at'' then store_number parse_int64 f ''int64'' w_anchored_at_update v st
      else if f = ''canon_version'' then store_number parse_int64 f ''int'' w_canon_version_update v st
      else if f = ''checkpoint_id'' then store_string f w_checkpoint_id_update v st
      else st)"

text \<open>A name is looked up as it is, then folded.\<close>

definition field_names :: "string list" where
  "field_names = map fst (wire_members wire_zero)"

definition find_field :: "string \<Rightarrow> string option" where
  "find_field k =
     (if k \<in> set field_names then Some k else find (\<lambda>f. fold_name f = fold_name k) field_names)"

definition store_member ::
    "string \<times> json \<Rightarrow> wireCheckpoint \<times> error option \<Rightarrow> wireCheckpoint \<times> error option" where
  "store_member m st = (case find_field (fst m) of None \<Rightarrow> st | Some f \<Rightarrow> store_field f (snd m) st)"

definition syntax_error :: error where
  "syntax_error = ErrText ''json: syntax error''"

definition unmarshal_wire :: "string \<Rightarrow> error + wireCheckpoint" where
  "unmarshal_wire s =
     (case json_parse s of
        None \<Rightarrow> Inl syntax_error
      | Some (JObj ms) \<Rightarrow>
          (case fold store_member ms (wire_zero, None) of
             (w, None) \<Rightarrow> Inr w
           | (w, Some err) \<Rightarrow> Inl err)
      | Some JNull \<Rightarrow> Inr wire_zero
      | Some v \<Rightarrow>
          Inl (ErrText (''json: cannot unmarshal '' @ json_kind v @ '' into Go value of type checkpoint.wireCheckpoint'')))"

definition dec_hash :: "string \<Rightarrow> error + bytes" where
  "dec_hash s = (if s = '''' then Inr [] else hex_decode s)"

definition Unmarshal :: "bytes \<Rightarrow> error + checkpoint" where
  "Unmarshal b =
     bind_res (unmarshal_wire (string_of b)) (\<lambda>w.
     bind_res (dec_hash (w_head_hash w)) (\<lambda>hh.
     bind_res (dec_hash (w_merkle_root w)) (\<lambda>root.
     bind_res (dec_hash (w_prev_checkpoint_hash w)) (\<lambda>prev.
     bind_res (dec_hash (w_checkpoint_id w)) (\<lambda>cid.
       Inr \<lparr>CpTenantID = w_tenant_id w, SeqStart = w_seq_start w, SeqEnd = w_seq_end w,
            EntryCount = w_entry_count w, HeadHash = hh, MerkleRoot = root, PrevCheckpointHash = prev,
            AnchoredAt = w_anchored_at w, CpCanonVersion = w_canon_version w, CheckpointID = cid\<rparr>)))))"

subsection \<open>The round trip\<close>

lemma hex_digit_ascii: "d < 16 \<Longrightarrow> code (hex_digit d) < 128"
  by (simp add: code_def hex_digit_def)

lemma hex_encode_ascii: "list_all (\<lambda>c. code c < 128) (hex_encode bs)"
proof (induction bs)
  case (Cons b bs)
  have "unat b < 256"
    using unsigned_less [of b, where ?'a = nat] by simp
  then show ?case using Cons by (simp add: hex_digit_ascii)
qed simp

lemma sanitize_hex [simp]: "sanitize (hex_encode bs) = hex_encode bs"
  using sanitize_valid [OF valid_utf8_ascii] hex_encode_ascii by simp

lemma sanitize_names: "map (sanitize \<circ> fst) (wire_members w) = map fst (wire_members w)"
proof -
  have "list_all (\<lambda>k. list_all (\<lambda>c. code c < 128) k) (map fst (wire_members w))"
    by (simp add: wire_members_def code_of_char)
  then have "sanitize (fst m) = fst m" if "m \<in> set (wire_members w)" for m
    using that by (intro sanitize_valid valid_utf8_ascii) (auto simp: list_all_iff)
  then show ?thesis by simp
qed

lemma dec_hash_encode [simp]: "dec_hash (hex_encode b) = Inr b"
  by (simp add: dec_hash_def)

lemma unmarshal_marshal:
  "unmarshal_wire (json_indented (wire_members w)) =
    Inr (w\<lparr>w_tenant_id := sanitize (w_tenant_id w), w_head_hash := sanitize (w_head_hash w),
           w_merkle_root := sanitize (w_merkle_root w), w_prev_checkpoint_hash := sanitize (w_prev_checkpoint_hash w),
           w_checkpoint_id := sanitize (w_checkpoint_id w)\<rparr>)"
proof -
  have "wire_members w \<noteq> []" "list_all (\<lambda>m. scalar (snd m)) (wire_members w)"
    by (simp_all add: wire_members_def is_literal_dec is_literal_sdec)
  note parsed = json_parse_indented [OF this]
  have "map (\<lambda>(k, v). (sanitize k, clean v)) (wire_members w) =
      zip (map (sanitize \<circ> fst) (wire_members w)) (map (clean \<circ> snd) (wire_members w))"
    by (simp add: zip_map_map zip_same_conv_map case_prod_beta')
  also have "\<dots> = zip (map fst (wire_members w)) (map (clean \<circ> snd) (wire_members w))"
    by (simp only: sanitize_names)
  finally show ?thesis
    unfolding unmarshal_wire_def parsed
    by (simp add: wire_members_def store_member_def find_field_def field_names_def store_field_def store_string_def
        store_number_def wire_zero_def)
qed

lemma Unmarshal_Marshal:
  "Marshal cp = Inr b \<Longrightarrow> Unmarshal b = Inr (cp\<lparr>CpTenantID := sanitize (CpTenantID cp)\<rparr>)"
  by (auto simp: Marshal_def Unmarshal_def unmarshal_marshal wire_of_def)

text \<open>
  C22 (internal/checkpoint/codec.go, Marshal and Unmarshal): a stored document gives the
  checkpoint back. Marshalling always succeeds; unmarshalling its result gives the same
  checkpoint, every field and every hash, except that bytes of the tenant id that are not valid
  UTF-8 come back as U+FFFD.
\<close>

theorem checkpoint_document_roundtrip:
  "bind_res (Marshal cp) Unmarshal = Inr (cp\<lparr>CpTenantID := sanitize (CpTenantID cp)\<rparr>) \<and>
    (if valid_utf8 (CpTenantID cp) then bind_res (Marshal cp) Unmarshal = Inr cp else True)"
proof -
  obtain b where "Marshal cp = Inr b" by (simp add: Marshal_def)
  with Unmarshal_Marshal [OF this] show ?thesis
    by (simp add: sanitize_valid)
qed

end
