(* ===== verification/Witness.thy ===== *)
theory Witness
  imports Checkpoint Std_Text
begin

section \<open>Witnesses (internal/witness/witness.go)\<close>

text \<open>
  The two kinds of witness and what the rest of the program may rely on, as locales: a
  \<open>CheckpointStore\<close> is an append-only map from (tenant, last sequence number) to checkpoints
  that refuses to overwrite (\<open>worm_store\<close>), a \<open>Notary\<close> accepts what it has stamped
  (\<open>notary_contract\<close>). \<open>MemStore\<close> and \<open>MockNotary\<close> are the implementations of this
  package; the proof ledger is a plain mutable map.
\<close>

subsection \<open>Proofs and notaries\<close>

record notary_proof =
  Notary :: string
  Format :: string
  Token :: bytes

text \<open>
  A value of the Go interface \<open>Notary\<close>. \<open>Verify\<close> gives a nil error (\<open>Inr None\<close>), an
  error, or does not return (the OpenTimestamps parser can panic).
\<close>

record notary =
  n_Name :: string
  n_Stamp :: "bytes \<Rightarrow> failure + notary_proof"
  n_Verify :: "notary_proof \<Rightarrow> bytes \<Rightarrow> fault + error option"

locale notary_contract =
  fixes n :: notary
    and stampable :: "bytes \<Rightarrow> bool"
  assumes stamp_names: "n_Stamp n cid = Inr p \<Longrightarrow> Notary p = n_Name n"
    and stamp_verifies: "stampable cid \<Longrightarrow> n_Stamp n cid = Inr p \<Longrightarrow> n_Verify n p cid = Inr None"
begin

lemma stamped_no_error:
  "stampable cid \<Longrightarrow> n_Stamp n cid = Inr p \<Longrightarrow> n_Verify n p cid \<noteq> Inr (Some e) \<and> n_Verify n p cid \<noteq> Inl f"
  by (simp add: stamp_verifies)

end

subsection \<open>The proof ledger\<close>

record proof_ledger =
  ledger_m :: "(string \<times> notary_proof list) list"

definition NewProofLedger :: proof_ledger where
  "NewProofLedger = \<lparr>ledger_m = []\<rparr>"

definition ledgerKey :: "string \<Rightarrow> u64 \<Rightarrow> string" where
  "ledgerKey tenantID seqEnd = tenantID @ ''/'' @ dec (unat seqEnd)"

definition ledger_Add :: "string \<Rightarrow> u64 \<Rightarrow> notary_proof \<Rightarrow> proof_ledger \<Rightarrow> proof_ledger" where
  "ledger_Add t seqEnd p l =
     l\<lparr>ledger_m := AList.update (ledgerKey t seqEnd) (get_or [] (ledger_m l) (ledgerKey t seqEnd) @ [p])
        (ledger_m l)\<rparr>"

definition ledger_Get :: "string \<Rightarrow> u64 \<Rightarrow> proof_ledger \<Rightarrow> notary_proof list" where
  "ledger_Get t seqEnd l = get_or [] (ledger_m l) (ledgerKey t seqEnd)"

lemma ledgerKey_inj: "ledgerKey t m = ledgerKey u n \<longleftrightarrow> t = u \<and> m = n"
proof
  assume "ledgerKey t m = ledgerKey u n"
  then have "t @ CHR ''/'' # dec (unat m) = u @ CHR ''/'' # dec (unat n)"
    by (simp add: ledgerKey_def)
  moreover have "CHR ''/'' \<notin> set (dec k)" for k
    using dec_digits [of "CHR ''/''" k] by auto
  ultimately have "t = u \<and> dec (unat m) = dec (unat n)"
    by (intro split_at_last_sep)
  then show "t = u \<and> m = n" by (simp add: word_unat_eq_iff)
qed simp

lemma ledger_Get_Add [simp]:
  "ledger_Get u n (ledger_Add t m p l) =
    (if u = t \<and> n = m then ledger_Get t m l @ [p] else ledger_Get u n l)"
  by (auto simp: ledger_Get_def ledger_Add_def ledgerKey_inj)

text \<open>
  In internal/witness/witness.go, ProofLedger: the ledger keeps the proofs of different
  checkpoints apart, whatever the tenant id contains: a proof added for one tenant and sequence
  end is appended to that entry and is invisible under every other. (The key is the formatted
  string \<open>"tenant/seqEnd"\<close>, and tenant ids may themselves contain slashes and digits.)
\<close>

theorem ledger_get_after_add:
  "ledger_Get u n (ledger_Add t m p l) =
    (if u = t \<and> n = m then ledger_Get t m l @ [p] else ledger_Get u n l)"
  by (rule ledger_Get_Add)

lemma ledger_Get_new [simp]: "ledger_Get t n NewProofLedger = []"
  by (simp add: ledger_Get_def NewProofLedger_def)

subsection \<open>Checkpoint stores\<close>

text \<open>The first checkpoint of a list for a tenant and a sequence end.\<close>

definition first_for :: "string \<Rightarrow> u64 \<Rightarrow> checkpoint list \<Rightarrow> checkpoint option" where
  "first_for t m cps = find (\<lambda>cp. CpTenantID cp = t \<and> SeqEnd cp = m) cps"

locale worm_store =
  fixes put :: "checkpoint \<Rightarrow> 's \<Rightarrow> error option \<times> 's"
    and get :: "string \<Rightarrow> u64 \<Rightarrow> 's \<Rightarrow> error + checkpoint option"
    and all :: "string \<Rightarrow> 's \<Rightarrow> error + checkpoint list"
    and inv :: "'s \<Rightarrow> bool"
    and ok :: "string \<Rightarrow> bool"
  assumes inv_put: "inv s \<Longrightarrow> ok (CpTenantID cp) \<Longrightarrow> put cp s = (r, s') \<Longrightarrow> inv s'"
    and put_fresh: "inv s \<Longrightarrow> ok (CpTenantID cp) \<Longrightarrow> get (CpTenantID cp) (SeqEnd cp) s = Inr None \<Longrightarrow> put cp s = (r, s') \<Longrightarrow>
      r = None \<and> get (CpTenantID cp) (SeqEnd cp) s' = Inr (Some cp)"
    and put_taken: "inv s \<Longrightarrow> ok (CpTenantID cp) \<Longrightarrow> get (CpTenantID cp) (SeqEnd cp) s = Inr (Some cp') \<Longrightarrow> put cp s = (r, s') \<Longrightarrow>
      r = Some ErrImmutable \<and> get (CpTenantID cp) (SeqEnd cp) s' = Inr (Some cp')"
    and put_frame: "inv s \<Longrightarrow> ok (CpTenantID cp) \<Longrightarrow> ok t \<Longrightarrow> put cp s = (r, s') \<Longrightarrow> (t, m) \<noteq> (CpTenantID cp, SeqEnd cp) \<Longrightarrow>
      get t m s' = get t m s"
    and get_keyed: "inv s \<Longrightarrow> ok t \<Longrightarrow> get t m s = Inr (Some cp) \<Longrightarrow> CpTenantID cp = t \<and> SeqEnd cp = m"
    and get_total: "inv s \<Longrightarrow> ok t \<Longrightarrow> \<exists>r. get t m s = Inr r"
    and all_total: "inv s \<Longrightarrow> ok t \<Longrightarrow> \<exists>cps. all t s = Inr cps"
    and all_get: "inv s \<Longrightarrow> ok t \<Longrightarrow> all t s = Inr cps \<Longrightarrow> cp \<in> set cps \<longleftrightarrow> get t (SeqEnd cp) s = Inr (Some cp)"
    and all_sorted: "inv s \<Longrightarrow> ok t \<Longrightarrow> all t s = Inr cps \<Longrightarrow> sorted (map SeqEnd cps) \<and> distinct (map SeqEnd cps)"
begin

text \<open>A checkpoint in the store stays there, unchanged, under any sequence of writes.\<close>

lemma inv_snd_put: "inv s \<Longrightarrow> ok (CpTenantID cp) \<Longrightarrow> inv (snd (put cp s))"
  by (auto intro: inv_put prod.collapse [symmetric])

lemma inv_puts: "inv s \<Longrightarrow> list_all (\<lambda>cp. ok (CpTenantID cp)) cps \<Longrightarrow> inv (fold (\<lambda>cp s. snd (put cp s)) cps s)"
  by (induction cps arbitrary: s) (auto intro: inv_snd_put)

lemma get_put_kept:
  assumes "inv s" and "ok (CpTenantID cp)" and "ok t" and "get t m s = Inr (Some c)"
  shows "get t m (snd (put cp s)) = Inr (Some c)"
proof (cases "(t, m) = (CpTenantID cp, SeqEnd cp)")
  case True
  with assms show ?thesis
    using put_taken [OF assms(1,2), of c "fst (put cp s)" "snd (put cp s)"] by simp
next
  case False
  then show ?thesis
    using put_frame [OF assms(1-3), of "fst (put cp s)" "snd (put cp s)" m] assms(4) by simp
qed

lemma get_puts_kept:
  "inv s \<Longrightarrow> list_all (\<lambda>cp. ok (CpTenantID cp)) cps \<Longrightarrow> ok t \<Longrightarrow>
    get t m s = Inr (Some c) \<Longrightarrow> get t m (fold (\<lambda>cp s. snd (put cp s)) cps s) = Inr (Some c)"
  by (induction cps arbitrary: s) (auto intro: inv_snd_put get_put_kept)

text \<open>After any sequence of writes, a fresh key holds the first checkpoint written to it.\<close>

lemma get_puts:
  "inv s \<Longrightarrow> list_all (\<lambda>cp. ok (CpTenantID cp)) cps \<Longrightarrow> ok t \<Longrightarrow> get t m s = Inr None \<Longrightarrow>
    get t m (fold (\<lambda>cp s. snd (put cp s)) cps s) = Inr (first_for t m cps)"
proof (induction cps arbitrary: s)
  case (Cons cp cps)
  obtain r s' where p: "put cp s = (r, s')" by fastforce
  have inv': "inv s'" using inv_put [OF Cons.prems(1) _ p] Cons.prems(2) by simp
  show ?case
  proof (cases "CpTenantID cp = t \<and> SeqEnd cp = m")
    case True
    then have "get t m s' = Inr (Some cp)"
      using put_fresh [OF Cons.prems(1) _ _ p] Cons.prems(2,4) by simp
    from get_puts_kept [OF inv' _ Cons.prems(3) this] True p Cons.prems(2)
    show ?thesis by (simp add: first_for_def)
  next
    case False
    then have "get t m s' = Inr None"
      using put_frame [OF Cons.prems(1) _ Cons.prems(3) p, of m] Cons.prems(2,4) by auto
    from Cons.IH [OF inv' _ Cons.prems(3) this] False p Cons.prems(2)
    show ?thesis by (auto simp: first_for_def)
  qed
qed (simp add: first_for_def)

text \<open>What \<open>All\<close> lists is never withdrawn or replaced.\<close>

lemma all_puts_kept:
  assumes "inv s" and "list_all (\<lambda>cp. ok (CpTenantID cp)) cps" and "ok t" and "all t s = Inr xs" and "all t (fold (\<lambda>cp s. snd (put cp s)) cps s) = Inr ys"
  shows "set xs \<subseteq> set ys"
  using all_get [OF assms(1,3,4)] all_get [OF inv_puts [OF assms(1,2)] assms(3,5)] get_puts_kept [OF assms(1-3)]
  by blast

lemma sorted_by_end_unique:
  assumes "set xs = set ys" and "sorted (map SeqEnd xs) \<and> distinct (map SeqEnd xs)"
    and "sorted (map SeqEnd ys) \<and> distinct (map SeqEnd ys)"
  shows "xs = ys"
  using assms by (intro map_sorted_distinct_set_unique [of SeqEnd]) (auto simp: distinct_map)

lemma all_put_other:
  assumes "inv s" and "ok (CpTenantID cp)" and "ok t" and "t \<noteq> CpTenantID cp"
  shows "all t (snd (put cp s)) = all t s"
proof -
  let ?s' = "snd (put cp s)"
  have p: "put cp s = (fst (put cp s), ?s')" by simp
  have inv': "inv ?s'" using assms(1,2) p by (rule inv_put)
  obtain xs ys where xs: "all t s = Inr xs" and ys: "all t ?s' = Inr ys"
    using all_total [OF assms(1,3)] all_total [OF inv' assms(3)] by blast
  have "set ys = set xs"
    using all_get [OF assms(1,3) xs] all_get [OF inv' assms(3) ys] put_frame [OF assms(1-3) p] assms(4) by auto
  then have "ys = xs"
    using all_sorted [OF inv' assms(3) ys] all_sorted [OF assms(1,3) xs] by (rule sorted_by_end_unique)
  with xs ys show ?thesis by simp
qed

lemma all_put_append:
  assumes "inv s" and "ok (CpTenantID cp)" and "all (CpTenantID cp) s = Inr cps" and "\<And>c. c \<in> set cps \<Longrightarrow> SeqEnd c < SeqEnd cp"
  shows "\<exists>s'. put cp s = (None, s') \<and> inv s' \<and> all (CpTenantID cp) s' = Inr (cps @ [cp])"
proof -
  let ?t = "CpTenantID cp" and ?s' = "snd (put cp s)"
  have p: "put cp s = (fst (put cp s), ?s')" by simp
  have inv': "inv ?s'" using assms(1,2) p by (rule inv_put)
  have "get ?t (SeqEnd cp) s \<noteq> Inr (Some c)" for c
    using all_get [OF assms(1-3), of c] get_keyed [OF assms(1,2)] assms(4) by fastforce
  then have "get ?t (SeqEnd cp) s = Inr None"
    using get_total [OF assms(1,2), of "SeqEnd cp"] by (metis not_Some_eq)
  from put_fresh [OF assms(1,2) this p] have stored: "fst (put cp s) = None" "get ?t (SeqEnd cp) ?s' = Inr (Some cp)"
    by auto
  obtain ys where ys: "all ?t ?s' = Inr ys"
    using all_total [OF inv' assms(2)] by blast
  have "x \<in> set ys \<longleftrightarrow> x \<in> set (cps @ [cp])" for x
    using all_get [OF inv' assms(2) ys, of x] all_get [OF assms(1-3), of x] put_frame [OF assms(1,2,2) p, of "SeqEnd x"]
      stored(2) assms(4) [of x]
    by (cases "SeqEnd x = SeqEnd cp") auto
  then have "ys = cps @ [cp]"
    using all_sorted [OF inv' assms(2) ys] all_sorted [OF assms(1-3)] assms(4)
    by (intro sorted_by_end_unique) (fastforce simp: sorted_append less_imp_le)+
  with ys stored(1) p inv' show ?thesis by (metis prod.collapse)
qed

end

subsection \<open>MemStore\<close>

record mem_store =
  ms_name :: string
  records :: "(string \<times> (u64 \<times> checkpoint) list) list"

definition NewMemStore :: "string \<Rightarrow> mem_store" where
  "NewMemStore name = \<lparr>ms_name = name, records = []\<rparr>"

definition mem_Put :: "checkpoint \<Rightarrow> mem_store \<Rightarrow> error option \<times> mem_store" where
  "mem_Put cp s =
     (let t = CpTenantID cp;
          byTenant = get_or [] (records s) t;
          s = (case map_of (records s) t of
                 None \<Rightarrow> s\<lparr>records := AList.update t [] (records s)\<rparr>
               | Some _ \<Rightarrow> s)
      in case map_of byTenant (SeqEnd cp) of
           Some _ \<Rightarrow> (Some ErrImmutable, s)
         | None \<Rightarrow>
             (None, s\<lparr>records := AList.update t (AList.update (SeqEnd cp) cp byTenant) (records s)\<rparr>))"

definition mem_Get :: "string \<Rightarrow> u64 \<Rightarrow> mem_store \<Rightarrow> error + checkpoint option" where
  "mem_Get t seqEnd s = Inr (map_of (get_or [] (records s) t) seqEnd)"

definition mem_All :: "string \<Rightarrow> mem_store \<Rightarrow> error + checkpoint list" where
  "mem_All t s = Inr (sort_key SeqEnd (map snd (get_or [] (records s) t)))"

text \<open>Every record is filed under its own tenant and sequence end, once.\<close>

definition mem_inv :: "mem_store \<Rightarrow> bool" where
  "mem_inv s \<longleftrightarrow>
     (\<forall>t. distinct (map fst (get_or [] (records s) t)) \<and>
       (\<forall>(m, cp)\<in>set (get_or [] (records s) t). CpTenantID cp = t \<and> SeqEnd cp = m))"

lemma mem_Put_records:
  "get_or [] (records (snd (mem_Put cp s))) t =
    (if t = CpTenantID cp \<and> map_of (get_or [] (records s) t) (SeqEnd cp) = None
     then AList.update (SeqEnd cp) cp (get_or [] (records s) t)
     else get_or [] (records s) t)"
  by (auto simp: mem_Put_def Let_def get_or_def update_conv' split: option.splits)

lemma mem_Put_result:
  "fst (mem_Put cp s) =
    (case map_of (get_or [] (records s) (CpTenantID cp)) (SeqEnd cp) of
       None \<Rightarrow> None | Some _ \<Rightarrow> Some ErrImmutable)"
  by (auto simp: mem_Put_def Let_def split: option.splits)

lemma mem_Get_Put:
  "mem_Get t m (snd (mem_Put cp s)) =
    (if t = CpTenantID cp \<and> m = SeqEnd cp \<and> mem_Get t m s = Inr None then Inr (Some cp) else mem_Get t m s)"
  by (auto simp: mem_Get_def mem_Put_records update_conv')

lemma mem_inv_new: "mem_inv (NewMemStore name)"
  by (simp add: mem_inv_def NewMemStore_def)

lemma set_update_subset: "set (AList.update k v al) \<subseteq> insert (k, v) (set al)"
  by (induction al) auto

lemma mem_inv_Put: "mem_inv s \<Longrightarrow> mem_inv (snd (mem_Put cp s))"
  using set_update_subset [of "SeqEnd cp" cp "get_or [] (records s) (CpTenantID cp)"]
  by (fastforce simp: mem_inv_def mem_Put_records distinct_update)

lemma mem_records_map_of:
  "mem_inv s \<Longrightarrow> map_of (get_or [] (records s) t) m = Some cp \<longleftrightarrow>
    SeqEnd cp = m \<and> (m, cp) \<in> set (get_or [] (records s) t)"
  by (auto simp: mem_inv_def dest: map_of_SomeD)

lemma mem_records_ends:
  "mem_inv s \<Longrightarrow> map SeqEnd (map snd (get_or [] (records s) t)) = map fst (get_or [] (records s) t)"
  by (force simp: mem_inv_def)

interpretation mem: worm_store mem_Put mem_Get mem_All mem_inv "\<lambda>_. True"
proof (unfold_locales, goal_cases)
  case (1 s cp r s')
  then show ?case using mem_inv_Put [of s cp] by simp
next
  case (2 s cp r s')
  then show ?case using mem_Put_result [of cp s] mem_Get_Put [of "CpTenantID cp" "SeqEnd cp" cp s]
    by (simp add: mem_Get_def)
next
  case (3 s cp cp' r s')
  then show ?case using mem_Put_result [of cp s] mem_Get_Put [of "CpTenantID cp" "SeqEnd cp" cp s]
    by (simp add: mem_Get_def)
next
  case (4 s cp t r s' m)
  then show ?case using mem_Get_Put [of t m cp s] by auto
next
  case (5 s t m cp)
  then show ?case by (force simp: mem_Get_def mem_records_map_of mem_inv_def)
next
  case (6 s t m)
  show ?case by (simp add: mem_Get_def)
next
  case (7 s t)
  show ?case by (simp add: mem_All_def)
next
  case (8 s t cps cp)
  then show ?case
    by (force simp: mem_All_def mem_Get_def mem_records_map_of mem_inv_def)
next
  case (9 s t cps)
  then have "cps = sort_key SeqEnd (map snd (get_or [] (records s) t))"
    by (simp add: mem_All_def)
  moreover have "distinct (map SeqEnd (map snd (get_or [] (records s) t)))"
    using 9(1) by (simp only: mem_records_ends) (simp add: mem_inv_def)
  ultimately show ?case
    by (simp add: distinct_map_sort_key)
qed

text \<open>
  In internal/witness/witness.go, \<open>MemStore\<close>: the store is append-only. A checkpoint it holds
  is returned, unchanged, by \<open>Get\<close> and stays in \<open>All\<close> after any sequence of \<open>Put\<close> calls,
  whatever those try to write; and a \<open>Put\<close> to its key is refused with \<open>ErrImmutable\<close>.
\<close>

theorem mem_store_append_only:
  assumes "mem_inv s" and "mem_Get t m s = Inr (Some cp)"
    and "CpTenantID cp' = t" and "SeqEnd cp' = m"
  defines "s' \<equiv> \<lambda>cps. fold (\<lambda>cp s. snd (mem_Put cp s)) cps s"
  shows "mem_Get t m (s' cps) = Inr (Some cp) \<and> (\<exists>ys. mem_All t (s' cps) = Inr ys \<and> cp \<in> set ys) \<and>
    fst (mem_Put cp' (s' cps)) = Some ErrImmutable"
proof -
  have inv: "mem_inv (s' cps)"
    unfolding s'_def by (intro mem.inv_puts assms(1)) (simp add: list_all_iff)
  have got: "mem_Get t m (s' cps) = Inr (Some cp)"
    unfolding s'_def by (intro mem.get_puts_kept TrueI assms(1,2)) (simp add: list_all_iff)
  moreover have "SeqEnd cp = m"
    using mem.get_keyed [OF assms(1) TrueI assms(2)] by simp
  ultimately show ?thesis
    using mem.all_get [OF inv TrueI, of t _ cp] mem.all_total [OF inv TrueI, of t]
      mem.put_taken [OF inv, of cp' cp, OF _ _ prod.collapse [symmetric]] assms(3,4)
    by auto
qed

theorem mem_store_append_only_witness:
  "let s = snd (mem_Put demo_checkpoint (NewMemStore ''WORM''));
       s' = fold (\<lambda>cp s. snd (mem_Put cp s)) [demo_checkpoint\<lparr>MerkleRoot := []\<rparr>] s
   in mem_Get ''acme'' 1 s' = Inr (Some demo_checkpoint) \<and>
      (\<exists>ys. mem_All ''acme'' s' = Inr ys \<and> demo_checkpoint \<in> set ys) \<and>
      fst (mem_Put (demo_checkpoint\<lparr>MerkleRoot := []\<rparr>) s') = Some ErrImmutable"
proof -
  note cp = demo_checkpoint_fields
  have "mem_Get ''acme'' 1 (snd (mem_Put demo_checkpoint (NewMemStore ''WORM''))) = Inr (Some demo_checkpoint)"
    by (simp add: mem_Get_Put cp) (simp add: mem_Get_def NewMemStore_def)
  then show ?thesis
    unfolding Let_def by (intro mem_store_append_only mem_inv_Put mem_inv_new) (simp_all add: cp)
qed

subsection \<open>MockNotary\<close>

record mock_notary =
  mn_name :: string
  mn_secret :: bytes

definition NewMockNotary :: "string \<Rightarrow> string \<Rightarrow> mock_notary" where
  "NewMockNotary name secret = \<lparr>mn_name = name, mn_secret = bytes_of secret\<rparr>"

definition mock_mac :: "mock_notary \<Rightarrow> bytes \<Rightarrow> bytes" where
  "mock_mac n checkpointID = hmac_sha256 (mn_secret n) checkpointID"

definition mock_Stamp :: "mock_notary \<Rightarrow> bytes \<Rightarrow> failure + notary_proof" where
  "mock_Stamp n checkpointID =
     Inr \<lparr>Notary = mn_name n, Format = ''mock-hmac'', Token = mock_mac n checkpointID\<rparr>"

definition mock_Verify :: "mock_notary \<Rightarrow> notary_proof \<Rightarrow> bytes \<Rightarrow> fault + error option" where
  "mock_Verify n p checkpointID =
     (if Token p \<noteq> mock_mac n checkpointID
      then Inr (Some (ErrText (''witness: proof from \"'' @ mn_name n @
             ''\" does not attest this checkpoint id'')))
      else Inr None)"

definition mock_iface :: "mock_notary \<Rightarrow> notary" where
  "mock_iface n = \<lparr>n_Name = mn_name n, n_Stamp = mock_Stamp n, n_Verify = mock_Verify n\<rparr>"

interpretation mock: notary_contract "mock_iface m" "\<lambda>_. True" for m
  by unfold_locales (auto simp: mock_iface_def mock_Stamp_def mock_Verify_def)

text \<open>
  The inputs hashed by an HMAC, so that a proof that verifies against another id exhibits a
  collision.
\<close>

definition hmac_inputs :: "bytes \<Rightarrow> bytes \<Rightarrow> bytes list" where
  "hmac_inputs k m =
     (let i = map (\<lambda>b. b XOR 0x36) (hmac_key k) @ m
      in [i, map (\<lambda>b. b XOR 0x5c) (hmac_key k) @ sha256 i])"

lemma hmac_binding:
  assumes "hmac_sha256 k m = hmac_sha256 k m'"
  shows "m = m' \<or> collides (hmac_inputs k m) (hmac_inputs k m')"
  using assms by (auto simp: hmac_sha256_def hmac_inputs_def Let_def collides_def)

text \<open>
  In internal/witness/witness.go, MockNotary: a notary accepts its own proof of an id, and
  only for that id: a proof stamped for one checkpoint id verifies against another id exactly
  when the two MACs are equal, which exhibits a SHA-256 collision between the inputs hashed.
\<close>

theorem mock_notary_proof_binds_id:
  assumes "mock_Stamp n cid = Inr p"
  shows "mock_Verify n p cid = Inr None \<and> Notary p = mn_name n \<and>
    (if mock_Verify n p cid' = Inr None
     then cid' = cid \<or> collides (hmac_inputs (mn_secret n) cid) (hmac_inputs (mn_secret n) cid')
     else cid' \<noteq> cid)"
proof -
  have p: "Token p = hmac_sha256 (mn_secret n) cid" "Notary p = mn_name n"
    using assms by (auto simp: mock_Stamp_def mock_mac_def)
  then show ?thesis
    using hmac_binding [of "mn_secret n" cid cid'] by (simp add: mock_Verify_def mock_mac_def) metis
qed

theorem mock_notary_proof_binds_id_witness:
  "let n = NewMockNotary ''TSA'' ''k1'';
       p = \<lparr>Notary = ''TSA'', Format = ''mock-hmac'', Token = mock_mac n [1, 2]\<rparr>
   in mock_Verify n p [1, 2] = Inr None \<and> Notary p = mn_name n \<and>
      (if mock_Verify n p [3] = Inr None
       then [3] = [1, 2 :: byte] \<or> collides (hmac_inputs (mn_secret n) [1, 2]) (hmac_inputs (mn_secret n) [3])
       else [3] \<noteq> [1, 2 :: byte])"
  unfolding Let_def
  by (rule mock_notary_proof_binds_id) (simp add: mock_Stamp_def NewMockNotary_def)

subsection \<open>Display\<close>

definition Hex :: "bytes \<Rightarrow> string" where
  "Hex b = (let s = hex_encode b in if 16 < length s then take 16 s else s)"

end
