(* ===== verification/Log_Store.thy ===== *)
theory Log_Store
  imports Chain Std_Text
begin

section \<open>The ClickHouse log store (internal/logstore/clickhouse.go)\<close>

text \<open>
  The table of sealed entries and the queries on it. The table is the list of its rows; hashes
  are stored in hexadecimal; the \<open>DateTime64(9)\<close> columns hold the nanoseconds. Every call to
  the server may fail: a read takes the error it ends with, if any, and a write says whether
  the server applied it and whether the client learned so. ClickHouse leaves the order of rows
  with equal sort keys open; the model keeps insertion order there. How the driver renders a
  \<open>time.Time\<close> argument is its own business and a parameter of \<open>Search\<close>.
\<close>

subsection \<open>Rows\<close>

record ch_row =
  col_tenant_id :: string
  col_seq :: u64
  col_event_time :: i64
  col_ingest_time :: i64
  col_source :: string
  col_raw :: string
  col_prev_hash :: string
  col_entry_hash :: string

type_synonym ch_table = "ch_row list"

text \<open>
  The fate of a write: acknowledged (applied, or refused with an error), or applied although
  the client got an error, as when the connection breaks after the server has committed.
\<close>

datatype write_ack = Ack "error option" | Unacknowledged error

definition to_row :: "entry \<Rightarrow> ch_row" where
  "to_row e =
     \<lparr>col_tenant_id = TenantID e, col_seq = Seq e, col_event_time = EventTime e, col_ingest_time = IngestTime e,
      col_source = Source e, col_raw = Raw e, col_prev_hash = hex_encode (PrevHash e),
      col_entry_hash = hex_encode (EntryHash e)\<rparr>"

definition scan_row :: "ch_row \<Rightarrow> error + entry" where
  "scan_row r =
     bind_res (hex_decode (col_prev_hash r)) (\<lambda>prev.
     bind_res (hex_decode (col_entry_hash r)) (\<lambda>hash.
       Inr \<lparr>TenantID = col_tenant_id r, Seq = col_seq r, EventTime = col_event_time r, IngestTime = col_ingest_time r,
            Source = col_source r, Raw = col_raw r, PrevHash = prev, EntryHash = hash\<rparr>))"

fun scanEntries :: "ch_row list \<Rightarrow> error + entry list" where
  "scanEntries [] = Inr []"
| "scanEntries (r # rs) =
     bind_res (scan_row r) (\<lambda>e. bind_res (scanEntries rs) (\<lambda>es. Inr (e # es)))"

subsection \<open>Writing and resuming\<close>

definition ch_Append :: "write_ack \<Rightarrow> entry list \<Rightarrow> ch_table \<Rightarrow> error option \<times> ch_table" where
  "ch_Append w es tbl =
     (if es = [] then (None, tbl)
      else case w of
             Ack None \<Rightarrow> (None, tbl @ map to_row es)
           | Ack (Some err) \<Rightarrow> (Some err, tbl)
           | Unacknowledged err \<Rightarrow> (Some err, tbl @ map to_row es))"

text \<open>The rows a tenant's queries see, in ascending order of \<open>seq\<close>.\<close>

definition tenant_rows :: "ch_table \<Rightarrow> string \<Rightarrow> ch_row list" where
  "tenant_rows tbl t = sort_key col_seq (filter (\<lambda>r. col_tenant_id r = t) tbl)"

definition ch_Head :: "error option \<Rightarrow> string \<Rightarrow> ch_table \<Rightarrow> error + u64 \<times> bytes" where
  "ch_Head fail tenantID tbl =
     (case fail of
        Some err \<Rightarrow> Inl err
      | None \<Rightarrow>
          (let rs = tenant_rows tbl tenantID
           in if rs = [] then Inr (0, Genesis tenantID)
              else bind_res (hex_decode (col_entry_hash (last rs))) (\<lambda>prev. Inr (col_seq (last rs) + 1, prev))))"

subsection \<open>Reading\<close>

definition ch_Tenants :: "error option \<Rightarrow> ch_table \<Rightarrow> error + string list" where
  "ch_Tenants fail tbl =
     (case fail of Some err \<Rightarrow> Inl err | None \<Rightarrow> Inr (remdups (map col_tenant_id tbl)))"

definition ch_EntriesAsc ::
    "error option \<Rightarrow> string \<Rightarrow> u64 \<Rightarrow> int \<Rightarrow> ch_table \<Rightarrow> error + entry list" where
  "ch_EntriesAsc fail tenantID startSeq limit tbl =
     (let limit = (if limit \<le> 0 then 100000 else limit)
      in case fail of
           Some err \<Rightarrow> Inl err
         | None \<Rightarrow>
             scanEntries (take (nat limit) (filter (\<lambda>r. startSeq \<le> col_seq r) (tenant_rows tbl tenantID))))"

record search_params =
  sp_Start :: "int option"
  sp_End :: "int option"
  sp_Text :: string
  sp_Source :: string
  sp_Limit :: int

definition lower_ascii :: "char \<Rightarrow> char" where
  "lower_ascii c =
     (let n = (of_char c :: nat) in if 65 \<le> n \<and> n \<le> 90 then char_of (n + 32) else c)"

fun contains_at_start :: "string \<Rightarrow> string \<Rightarrow> bool" where
  "contains_at_start [] s \<longleftrightarrow> True"
| "contains_at_start (c # cs) [] \<longleftrightarrow> False"
| "contains_at_start (c # cs) (d # ds) \<longleftrightarrow> c = d \<and> contains_at_start cs ds"

fun contains :: "string \<Rightarrow> string \<Rightarrow> bool" where
  "contains p [] \<longleftrightarrow> p = []"
| "contains p (c # cs) \<longleftrightarrow> contains_at_start p (c # cs) \<or> contains p cs"

text \<open>\<open>positionCaseInsensitive(col_raw, text) > 0\<close>.\<close>

definition matches_text :: "string \<Rightarrow> string \<Rightarrow> bool" where
  "matches_text text s \<longleftrightarrow> contains (map lower_ascii text) (map lower_ascii s)"

definition search_where :: "(int \<Rightarrow> int) \<Rightarrow> string \<Rightarrow> search_params \<Rightarrow> ch_row \<Rightarrow> bool" where
  "search_where bind_time tenantID p r \<longleftrightarrow>
     col_tenant_id r = tenantID \<and>
     (case sp_Start p of None \<Rightarrow> True | Some t \<Rightarrow> bind_time t \<le> sint (col_ingest_time r)) \<and>
     (case sp_End p of None \<Rightarrow> True | Some t \<Rightarrow> sint (col_ingest_time r) \<le> bind_time t) \<and>
     (if sp_Text p \<noteq> '''' then matches_text (sp_Text p) (col_raw r) else True) \<and>
     (if sp_Source p \<noteq> '''' then col_source r = sp_Source p else True)"

definition search_limit :: "search_params \<Rightarrow> nat" where
  "search_limit p = nat (if sp_Limit p \<le> 0 \<or> sp_Limit p > 10000 then 1000 else sp_Limit p)"

definition ch_Search ::
    "error option \<Rightarrow> (int \<Rightarrow> int) \<Rightarrow> string \<Rightarrow> search_params \<Rightarrow> ch_table \<Rightarrow> error + entry list" where
  "ch_Search fail bind_time tenantID p tbl =
     (case fail of
        Some err \<Rightarrow> Inl err
      | None \<Rightarrow>
          scanEntries (take (search_limit p)
            (rev (sort_key col_seq (filter (search_where bind_time tenantID p) tbl)))))"

subsection \<open>Rows and entries\<close>

lemma scan_to_row [simp]: "scan_row (to_row e) = Inr e"
  by (simp add: scan_row_def to_row_def)

lemma scanEntries_append:
  "scanEntries (xs @ ys) = bind_res (scanEntries xs) (\<lambda>es. bind_res (scanEntries ys) (\<lambda>fs. Inr (es @ fs)))"
  by (induction xs) (auto simp: bind_res_def split: sum.splits)

lemma scanEntries_map [simp]: "scanEntries (map to_row es) = Inr es"
  by (induction es) simp_all

lemma scanEntries_mem: "scanEntries rs = Inr es \<Longrightarrow> e \<in> set es \<Longrightarrow> \<exists>r\<in>set rs. scan_row r = Inr e"
  by (induction rs arbitrary: es) (auto simp: bind_res_eq_Inr)

lemma scanEntries_ex: "set rs \<subseteq> range to_row \<Longrightarrow> \<exists>es. scanEntries rs = Inr es"
  by (induction rs) auto

lemma scan_row_fields:
  "scan_row r = Inr e \<Longrightarrow> TenantID e = col_tenant_id r \<and> Seq e = col_seq r \<and> EventTime e = col_event_time r \<and>
    IngestTime e = col_ingest_time r \<and> Source e = col_source r \<and> Raw e = col_raw r"
  by (auto simp: scan_row_def bind_res_eq_Inr)

lemma scanEntries_seq: "scanEntries rs = Inr es \<Longrightarrow> map Seq es = map col_seq rs"
  by (induction rs arbitrary: es) (auto simp: bind_res_eq_Inr scan_row_fields)

lemma to_row_fields [simp]: "col_tenant_id (to_row e) = TenantID e" "col_seq (to_row e) = Seq e"
  "col_source (to_row e) = Source e" "col_raw (to_row e) = Raw e" "col_ingest_time (to_row e) = IngestTime e"
  by (simp_all add: to_row_def)

lemma to_row_inject [simp]: "to_row e = to_row e' \<longleftrightarrow> e = e'"
  by (metis scan_to_row sum.inject(2))

text \<open>
  A table is well formed when its rows hold hexadecimal hashes, so that it is a table of entries:
  \<open>ch_entries\<close> are the tenant's, in the order the queries give them.
\<close>

definition ch_wf :: "ch_table \<Rightarrow> bool" where
  "ch_wf tbl \<longleftrightarrow> tbl \<in> range (map to_row)"

definition ch_entries :: "ch_table \<Rightarrow> string \<Rightarrow> entry list" where
  "ch_entries tbl t = projr (scanEntries (tenant_rows tbl t))"

lemma ch_wf_Nil: "ch_wf []"
  by (simp add: ch_wf_def image_iff)

lemma ch_wf_append: "ch_wf tbl \<Longrightarrow> ch_wf (tbl @ map to_row es)"
  unfolding ch_wf_def by (metis (no_types, lifting) imageE map_append rangeI)

lemma sort_key_map: "sort_key f (map g xs) = map g (sort_key (f \<circ> g) xs)"
proof (induction xs)
  case (Cons x xs)
  have "insort_key f (g x) (map g ys) = map g (insort_key (f \<circ> g) x ys)" for ys
    by (induction ys) auto
  with Cons show ?case by (simp add: comp_def)
qed simp

lemma tenant_rows_map:
  "tenant_rows (map to_row es) t = map to_row (sort_key Seq (filter (\<lambda>e. TenantID e = t) es))"
  by (simp add: tenant_rows_def filter_map sort_key_map comp_def)

lemma ch_entries_map: "ch_entries (map to_row es) t = sort_key Seq (filter (\<lambda>e. TenantID e = t) es)"
  by (simp add: ch_entries_def tenant_rows_map)

lemma tenant_rows_wf: "ch_wf tbl \<Longrightarrow> tenant_rows tbl t = map to_row (ch_entries tbl t)"
  by (auto simp: ch_wf_def tenant_rows_map ch_entries_map)

lemma ch_entries_tenant: "ch_wf tbl \<Longrightarrow> e \<in> set (ch_entries tbl t) \<Longrightarrow> TenantID e = t"
  by (auto simp: ch_wf_def ch_entries_map)

lemma ch_entries_sorted: "ch_wf tbl \<Longrightarrow> sorted (map Seq (ch_entries tbl t))"
  by (auto simp: ch_wf_def ch_entries_map)

lemma ch_entries_Nil [simp]: "ch_entries [] t = []"
  by (simp add: ch_entries_def tenant_rows_def)

lemma filter_same_key: "filter (\<lambda>x. f k = f x) (sort_key f xs) = filter (\<lambda>x. f k = f x) xs"
proof -
  have "sorted (map f (filter (\<lambda>x. f k = f x) xs))"
    by (rule sorted_map_same [where g = "\<lambda>_. f k", simplified eq_commute [of _ "f k"]])
  then show ?thesis
    by (simp add: filter_sort sort_key_sorted)
qed

lemma sort_key_append_left: "sort_key f (sort_key f xs @ ys) = sort_key f (xs @ ys)"
  by (rule properties_for_sort_key) (simp_all add: filter_same_key del: filter_sort)

lemma ch_entries_add:
  "ch_wf tbl \<Longrightarrow> ch_entries (tbl @ map to_row es) t =
    sort_key Seq (ch_entries tbl t @ filter (\<lambda>e. TenantID e = t) es)"
proof -
  assume "ch_wf tbl"
  then obtain ds where tbl: "tbl = map to_row ds" by (auto simp: ch_wf_def)
  show ?thesis
    by (simp add: tbl ch_entries_map sort_key_append_left flip: map_append)
qed

lemma ch_entries_filter_start:
  "ch_wf tbl \<Longrightarrow> ch_EntriesAsc None t start limit tbl =
    Inr (take (nat (if limit \<le> 0 then 100000 else limit)) (filter (\<lambda>e. start \<le> Seq e) (ch_entries tbl t)))"
  by (simp add: ch_EntriesAsc_def tenant_rows_wf filter_map take_map comp_def)

lemma ch_Append_entries:
  assumes "ch_wf tbl" and "list_all (\<lambda>e. TenantID e = t) es"
  shows "ch_entries (tbl @ map to_row es) u =
    (if u = t then sort_key Seq (ch_entries tbl t @ es) else ch_entries tbl u)"
proof -
  have "filter (\<lambda>e. TenantID e = u) es = (if u = t then es else [])"
    using assms(2) by (induction es) auto
  then show ?thesis
    using ch_entries_sorted [OF assms(1)] by (simp add: ch_entries_add [OF assms(1)] sort_key_sorted)
qed

lemma ch_Append_intact:
  assumes "ch_wf tbl" and "list_all (\<lambda>e. TenantID e = t) es"
    and "intact t (ch_entries tbl t @ es)" and "length (ch_entries tbl t @ es) \<le> 2 ^ 64"
  shows "ch_entries (tbl @ map to_row es) u = (if u = t then ch_entries tbl t @ es else ch_entries tbl u)"
  using ch_Append_entries [OF assms(1,2)] intact_sorted [OF assms(3,4)] by simp

lemma ch_Head_intact:
  assumes "ch_wf tbl" and "intact t (ch_entries tbl t)"
  shows "ch_Head None t tbl =
    Inr (of_nat (length (ch_entries tbl t)), tip (Genesis t) (ch_entries tbl t))"
proof (cases "ch_entries tbl t = []")
  case False
  let ?es = "ch_entries tbl t"
  have "Seq (last ?es) = of_nat (length ?es - 1)"
    using links_Seq_nth [OF assms(2), of "length ?es - 1"] False by (simp add: last_conv_nth)
  then have "Seq (last ?es) + 1 = of_nat (length ?es)"
    using False by (cases ?es) (simp_all add: add.commute)
  moreover have "col_entry_hash (last (map to_row ?es)) = hex_encode (EntryHash (last ?es))"
    using False by (simp add: last_map to_row_def)
  ultimately show ?thesis
    using False by (simp add: ch_Head_def tenant_rows_wf [OF assms(1)] last_map tip_last)
qed (simp add: ch_Head_def tenant_rows_wf [OF assms(1)])

lemma sort_key_eq_Nil [simp]: "sort_key f xs = [] \<longleftrightarrow> xs = []"
  by (metis length_0_conv length_sort)

lemma ch_Tenants_entries:
  "ch_wf tbl \<Longrightarrow> ch_Tenants None tbl = Inr ts \<Longrightarrow> t \<in> set ts \<longleftrightarrow> ch_entries tbl t \<noteq> []"
  by (auto simp: ch_wf_def ch_Tenants_def ch_entries_map filter_empty_conv)

subsection \<open>Properties\<close>

lemma ch_Search_scoped:
  assumes "ch_Search fail bind_time t p tbl = Inr es"
  shows "list_all (\<lambda>e. TenantID e = t \<and> (\<exists>r\<in>set tbl. scan_row r = Inr e \<and> search_where bind_time t p r)) es \<and>
    sorted (map Seq (rev es)) \<and>
    length es = min (search_limit p) (length (filter (search_where bind_time t p) tbl)) \<and>
    search_limit p \<le> 10000"
proof -
  let ?rs = "take (search_limit p) (rev (sort_key col_seq (filter (search_where bind_time t p) tbl)))"
  have scan: "scanEntries ?rs = Inr es"
    using assms by (simp add: ch_Search_def split: option.splits)
  have "TenantID e = t \<and> (\<exists>r\<in>set tbl. scan_row r = Inr e \<and> search_where bind_time t p r)" if e: "e \<in> set es" for e
  proof -
    obtain r where r: "r \<in> set ?rs" "scan_row r = Inr e"
      using scanEntries_mem [OF scan e] by blast
    then have "r \<in> set tbl" "search_where bind_time t p r"
      by (auto dest!: in_set_takeD)
    with r show ?thesis
      using scan_row_fields [OF r(2)] by (auto simp: search_where_def)
  qed
  moreover have keys: "map Seq es = map col_seq ?rs"
    using scan by (rule scanEntries_seq)
  then have "map Seq (rev es) = map col_seq (rev ?rs)"
    by (simp only: rev_map [symmetric])
  then have "sorted (map Seq (rev es))"
    by (simp add: rev_take sorted_wrt_drop flip: drop_map)
  moreover have "length es = min (search_limit p) (length (filter (search_where bind_time t p) tbl))"
    using arg_cong [OF keys, of length] by simp
  moreover have "search_limit p \<le> 10000"
    by (auto simp: search_limit_def)
  ultimately show ?thesis
    by (simp add: list_all_iff)
qed

text \<open>
  In internal/logstore/clickhouse.go, Search: a search is confined to one tenant and to its
  filters. Whatever rows the table holds, every entry returned is a row of exactly the tenant
  asked for that satisfies the time, text and source filters; entries come newest first; and
  their number is that of the matching rows, cut at the limit, which is never above 10000.
\<close>

theorem search_is_tenant_scoped:
  assumes "ch_Search fail bind_time t p tbl = Inr es"
  shows "list_all (\<lambda>e. TenantID e = t \<and> (\<exists>r\<in>set tbl. scan_row r = Inr e \<and> search_where bind_time t p r)) es \<and>
    sorted (map Seq (rev es)) \<and>
    length es = min (search_limit p) (length (filter (search_where bind_time t p) tbl)) \<and>
    search_limit p \<le> 10000"
  by (rule ch_Search_scoped [OF assms])

definition sample_table :: ch_table where
  "sample_table =
     map to_row (rows demo_rows ''acme'' @ [(rows demo_rows ''acme'' ! 0)\<lparr>TenantID := ''globex''\<rparr>])"

definition sample_params :: search_params where
  "sample_params = \<lparr>sp_Start = None, sp_End = None, sp_Text = ''LIN'', sp_Source = [], sp_Limit = 5\<rparr>"

theorem search_is_tenant_scoped_witness:
  "\<exists>es. list_all (\<lambda>e. TenantID e = ''globex'' \<and>
        (\<exists>r\<in>set sample_table. scan_row r = Inr e \<and> search_where id ''globex'' sample_params r)) es \<and>
      sorted (map Seq (rev es)) \<and>
      length es = min (search_limit sample_params) (length (filter (search_where id ''globex'' sample_params) sample_table)) \<and>
      search_limit sample_params \<le> 10000"
proof -
  have "set (take (search_limit p) (rev (sort_key col_seq (filter (search_where id t p) sample_table)))) \<subseteq> range to_row"
    for p t
    by (auto simp: sample_table_def dest!: in_set_takeD)
  from scanEntries_ex [OF this] obtain es where "ch_Search None id ''globex'' sample_params sample_table = Inr es"
    by (auto simp: ch_Search_def)
  then show ?thesis
    by (intro exI search_is_tenant_scoped)
qed

end
