(* ===== verification/Anchor_Store.thy ===== *)
theory Anchor_Store
  imports Witness Log_Store
begin

section \<open>The working copy of checkpoints and proofs (internal/anchorstore/anchorstore.go)\<close>

text \<open>
  The two Postgres tables and the statements on them. A write whose primary key is taken does
  nothing and succeeds (\<open>ON CONFLICT DO NOTHING\<close>). The rows of a query without \<open>ORDER BY\<close> come
  in table order. \<open>marshal\<close> is the JSON document of a checkpoint; sequence numbers are below
  \<open>2^63\<close>, so that they fit a \<open>bigint\<close>.
\<close>

record cp_row =
  pg_tenant :: string
  pg_seq_start :: u64
  pg_seq_end :: u64
  pg_entry_count :: u64
  pg_checkpoint_id :: string
  pg_anchored_at :: i64
  pg_document :: bytes
  pg_worm_stored :: bool

record proof_row =
  pf_tenant :: string
  pf_seq_end :: u64
  pf_notary :: string
  pf_format :: string
  pf_token :: bytes

record anchor_db =
  checkpoints :: "cp_row list"
  checkpoint_proofs :: "proof_row list"

definition empty_db :: anchor_db where
  "empty_db = \<lparr>checkpoints = [], checkpoint_proofs = []\<rparr>"

definition LastCheckpoint ::
    "error option \<Rightarrow> string \<Rightarrow> anchor_db \<Rightarrow> error + (u64 \<times> bytes) option" where
  "LastCheckpoint fail tenantID db =
     (case fail of
        Some err \<Rightarrow> Inl err
      | None \<Rightarrow>
          (let rs = sort_key pg_seq_end (filter (\<lambda>r. pg_tenant r = tenantID) (checkpoints db))
           in if rs = [] then Inr None
              else bind_res (hex_decode (pg_checkpoint_id (last rs))) (\<lambda>cid.
                     Inr (Some (pg_seq_end (last rs), cid)))))"

definition PutCheckpoint ::
    "write_ack \<Rightarrow> (checkpoint \<Rightarrow> error + bytes) \<Rightarrow> checkpoint \<Rightarrow> bool \<Rightarrow> anchor_db \<Rightarrow> error option \<times> anchor_db"
where
  "PutCheckpoint w marshal cp wormStored db =
     (case marshal cp of
        Inl err \<Rightarrow> (Some err, db)
      | Inr doc \<Rightarrow>
          (let r = \<lparr>pg_tenant = CpTenantID cp, pg_seq_start = SeqStart cp, pg_seq_end = SeqEnd cp,
                    pg_entry_count = EntryCount cp, pg_checkpoint_id = hex_encode (CheckpointID cp),
                    pg_anchored_at = AnchoredAt cp, pg_document = doc, pg_worm_stored = wormStored\<rparr>;
               db' = (if list_ex (\<lambda>q. pg_tenant q = CpTenantID cp \<and> pg_seq_end q = SeqEnd cp) (checkpoints db)
                      then db else db\<lparr>checkpoints := checkpoints db @ [r]\<rparr>)
           in case w of
                Ack None \<Rightarrow> (None, db')
              | Ack (Some err) \<Rightarrow> (Some err, db)
              | Unacknowledged err \<Rightarrow> (Some err, db')))"

definition PutProof ::
    "write_ack \<Rightarrow> string \<Rightarrow> u64 \<Rightarrow> notary_proof \<Rightarrow> anchor_db \<Rightarrow> error option \<times> anchor_db" where
  "PutProof w tenantID seqEnd p db =
     (let r = \<lparr>pf_tenant = tenantID, pf_seq_end = seqEnd, pf_notary = Notary p, pf_format = Format p,
               pf_token = Token p\<rparr>;
          db' = (if list_ex (\<lambda>q. pf_tenant q = tenantID \<and> pf_seq_end q = seqEnd \<and> pf_notary q = Notary p)
                   (checkpoint_proofs db)
                 then db else db\<lparr>checkpoint_proofs := checkpoint_proofs db @ [r]\<rparr>)
      in case w of
           Ack None \<Rightarrow> (None, db')
         | Ack (Some err) \<Rightarrow> (Some err, db)
         | Unacknowledged err \<Rightarrow> (Some err, db'))"

definition proof_of :: "proof_row \<Rightarrow> notary_proof" where
  "proof_of r = \<lparr>Notary = pf_notary r, Format = pf_format r, Token = pf_token r\<rparr>"

definition LoadLedger :: "error option \<Rightarrow> string \<Rightarrow> anchor_db \<Rightarrow> proof_ledger \<Rightarrow> error + proof_ledger" where
  "LoadLedger fail tenantID db ledger =
     (case fail of
        Some err \<Rightarrow> Inl err
      | None \<Rightarrow>
          Inr (fold (\<lambda>r l. ledger_Add tenantID (pf_seq_end r) (proof_of r) l)
            (filter (\<lambda>r. pf_tenant r = tenantID) (checkpoint_proofs db)) ledger))"

subsection \<open>What the statements change\<close>

text \<open>The working copy of one tenant, and the proofs held for one checkpoint.\<close>

definition cps_of :: "anchor_db \<Rightarrow> string \<Rightarrow> cp_row list" where
  "cps_of db t = filter (\<lambda>r. pg_tenant r = t) (checkpoints db)"

definition proofs_of :: "anchor_db \<Rightarrow> string \<Rightarrow> u64 \<Rightarrow> notary_proof list" where
  "proofs_of db t n =
     map proof_of (filter (\<lambda>r. pf_tenant r = t \<and> pf_seq_end r = n) (checkpoint_proofs db))"

lemma PutProof_checkpoints [simp]: "checkpoints (snd (PutProof w t n p db)) = checkpoints db"
  by (simp add: PutProof_def Let_def split: write_ack.splits option.splits)

lemma Notary_proof_of [simp]: "Notary (proof_of r) = pf_notary r"
  by (simp add: proof_of_def)

lemma proofs_of_Notary:
  "x \<in> Notary ` set (proofs_of db t n) \<longleftrightarrow>
    list_ex (\<lambda>q. pf_tenant q = t \<and> pf_seq_end q = n \<and> pf_notary q = x) (checkpoint_proofs db)"
  by (auto simp: proofs_of_def list_ex_iff image_image)

lemma PutProof_ok:
  "PutProof (Ack None) t n p db = (r, db') \<Longrightarrow> r = None \<and>
    proofs_of db' u m = (if u = t \<and> m = n \<and> Notary p \<notin> Notary ` set (proofs_of db t n)
      then proofs_of db t n @ [p] else proofs_of db u m)"
  unfolding proofs_of_Notary
  by (auto simp: PutProof_def Let_def proofs_of_def proof_of_def split: if_splits)

lemma PutCheckpoint_proofs [simp]: "checkpoint_proofs (snd (PutCheckpoint w marshal cp b db)) = checkpoint_proofs db"
  by (simp add: PutCheckpoint_def Let_def split: write_ack.splits option.splits sum.splits)

lemma PutCheckpoint_proofs_of [simp]: "proofs_of (snd (PutCheckpoint w marshal cp b db)) t n = proofs_of db t n"
  by (simp add: proofs_of_def)

lemma PutProof_cps_of [simp]: "cps_of (snd (PutProof w t n p db)) u = cps_of db u"
  by (simp add: cps_of_def)

lemma LastCheckpoint_cps_of:
  "cps_of db t = cps_of db' t \<Longrightarrow> LastCheckpoint fail t db = LastCheckpoint fail t db'"
  by (cases fail) (simp_all add: LastCheckpoint_def cps_of_def Let_def)

lemma PutCheckpoint_other:
  "t \<noteq> CpTenantID cp \<Longrightarrow> cps_of (snd (PutCheckpoint w marshal cp b db)) t = cps_of db t"
  by (auto simp: PutCheckpoint_def cps_of_def Let_def split: write_ack.splits option.splits sum.splits)

lemma ledger_Get_fold:
  "ledger_Get u n (fold (\<lambda>r l. ledger_Add t (pf_seq_end r) (proof_of r) l) rs l) =
    ledger_Get u n l @ (if u = t then map proof_of (filter (\<lambda>r. pf_seq_end r = n) rs) else [])"
  by (induction rs arbitrary: l) auto

lemma LoadLedger_Get:
  "LoadLedger None t db l = Inr l' \<Longrightarrow>
    ledger_Get u n l' = ledger_Get u n l @ (if u = t then proofs_of db t n else [])"
  by (auto simp: LoadLedger_def ledger_Get_fold proofs_of_def filter_filter conj_commute)

text \<open>\<open>LastCheckpoint\<close> after a checkpoint past all others of its tenant.\<close>

lemma sort_key_snoc_max:
  fixes f :: "'a \<Rightarrow> 'b :: linorder"
  assumes "\<And>x. x \<in> set xs \<Longrightarrow> f x < f y"
  shows "sort_key f (xs @ [y]) = sort_key f xs @ [y]"
  using assms by (intro properties_for_sort_key) (auto simp: sorted_append filter_same_key less_imp_le)

lemma PutCheckpoint_last:
  assumes "PutCheckpoint (Ack None) marshal cp b db = (r, db')" and "marshal cp = Inr doc"
    and "\<And>q. q \<in> set (cps_of db (CpTenantID cp)) \<Longrightarrow> pg_seq_end q < SeqEnd cp"
  shows "r = None" "LastCheckpoint None (CpTenantID cp) db' = Inr (Some (SeqEnd cp, CheckpointID cp))"
    "\<And>q. q \<in> set (cps_of db' (CpTenantID cp)) \<Longrightarrow> pg_seq_end q \<le> SeqEnd cp"
proof -
  let ?t = "CpTenantID cp"
  have fresh: "\<not> list_ex (\<lambda>q. pg_tenant q = ?t \<and> pg_seq_end q = SeqEnd cp) (checkpoints db)"
    using assms(3) by (fastforce simp: list_ex_iff cps_of_def)
  then obtain q where db': "db' = db\<lparr>checkpoints := checkpoints db @ [q]\<rparr>" "r = None"
    and q: "pg_tenant q = ?t" "pg_seq_end q = SeqEnd cp" "pg_checkpoint_id q = hex_encode (CheckpointID cp)"
    using assms(1,2) by (auto simp: PutCheckpoint_def Let_def)
  show "r = None" by (rule db'(2))
  have "sort_key pg_seq_end (cps_of db ?t @ [q]) = sort_key pg_seq_end (cps_of db ?t) @ [q]"
    using assms(3) q(2) by (intro sort_key_snoc_max) simp
  then show "LastCheckpoint None ?t db' = Inr (Some (SeqEnd cp, CheckpointID cp))"
    using q by (simp add: LastCheckpoint_def db' cps_of_def)
  show "pg_seq_end q' \<le> SeqEnd cp" if "q' \<in> set (cps_of db' ?t)" for q'
    using that assms(3) [of q'] q by (auto simp: db' cps_of_def less_imp_le)
qed

end
