(* ===== verification/Verify.thy ===== *)
theory Verify
  imports Witness
begin

section \<open>Verification (internal/verify/verify.go)\<close>

text \<open>
  \<open>Verify\<close> replays every tenant's chain and rebuilds every anchored checkpoint, matching the
  result against the WORM store and the notary proofs. The model follows the code's three
  functions; the loop bodies are functions of their own. A call ends in a \<open>fault\<close> where the
  code panics (\<open>Build\<close> on an empty window, an impossible capacity in \<open>Range\<close>, a notary that
  panics) and otherwise in the report, together with the store, whose rows \<open>Tenant\<close> sorts in
  place. The WORM store is passed as its \<open>All\<close> method, the notaries as interface values.
\<close>

record issue =
  Tenant :: string
  IssueSeq :: u64
  HasSeq :: bool
  Kind :: string
  Detail :: string

definition issue_String :: "issue \<Rightarrow> string" where
  "issue_String i =
     ''['' @ Kind i @ ''] tenant='' @ Tenant i @
     (if HasSeq i then '' @ seq '' @ dec (unat (IssueSeq i)) else '''') @ '': '' @ Detail i"

record report =
  Issues :: "issue list"
  EntriesChecked :: nat
  CheckpointsSeen :: nat
  ProofsChecked :: nat

definition report_OK :: "report \<Rightarrow> bool" where
  "report_OK r \<longleftrightarrow> length (Issues r) = 0"

definition empty_report :: report where
  "empty_report = \<lparr>Issues = [], EntriesChecked = 0, CheckpointsSeen = 0, ProofsChecked = 0\<rparr>"

definition add_issue :: "issue \<Rightarrow> report \<Rightarrow> report" where
  "add_issue i r = r\<lparr>Issues := Issues r @ [i]\<rparr>"

subsection \<open>The chain\<close>

fun chain_loop :: "string \<Rightarrow> bytes \<Rightarrow> u64 \<Rightarrow> entry list \<Rightarrow> report \<Rightarrow> report" where
  "chain_loop tenant prev want [] r = r"
| "chain_loop tenant prev want (e # es) r =
     (let r = r\<lparr>EntriesChecked := EntriesChecked r + 1\<rparr>
      in if Seq e \<noteq> want then
           add_issue \<lparr>Tenant = tenant, IssueSeq = want, HasSeq = True, Kind = ''sequence-gap'',
             Detail = ''expected seq '' @ dec (unat want) @ '', found '' @ dec (unat (Seq e)) @
               '' (entry deleted or reordered)''\<rparr> r
         else if PrevHash e \<noteq> prev then
           add_issue \<lparr>Tenant = tenant, IssueSeq = Seq e, HasSeq = True, Kind = ''chain-break'',
             Detail = ''prev_hash does not link to the previous entry''\<rparr> r
         else
           (let leaf = EntryLeaf tenant (Seq e) (EventTime e) (IngestTime e) (Source e) (Raw e);
                recomputed = ChainHash prev leaf
            in if EntryHash e \<noteq> recomputed then
                 add_issue \<lparr>Tenant = tenant, IssueSeq = Seq e, HasSeq = True, Kind = ''entry-tamper'',
                   Detail = ''stored entry_hash does not match the entry contents''\<rparr> r
               else chain_loop tenant (EntryHash e) (want + 1) es r))"

definition verifyChain :: "string \<Rightarrow> store \<Rightarrow> report \<Rightarrow> report \<times> store" where
  "verifyChain tenant s r =
     (case store_Tenant tenant s of
        (es, s') \<Rightarrow> (chain_loop tenant (Genesis tenant) 0 es r, s'))"

subsection \<open>The checkpoints\<close>

fun verify_proofs ::
    "(string \<rightharpoonup> notary) \<Rightarrow> string \<Rightarrow> u64 \<Rightarrow> bytes \<Rightarrow> notary_proof list \<Rightarrow> report \<Rightarrow> fault + report" where
  "verify_proofs notaries tenant seqEnd rebuilt [] r = Inr r"
| "verify_proofs notaries tenant seqEnd rebuilt (p # ps) r =
     (case notaries (Notary p) of
        None \<Rightarrow> verify_proofs notaries tenant seqEnd rebuilt ps r
      | Some nt \<Rightarrow>
          (let r = r\<lparr>ProofsChecked := ProofsChecked r + 1\<rparr>
           in bind_res (n_Verify nt p rebuilt) (\<lambda>err.
                verify_proofs notaries tenant seqEnd rebuilt ps
                  (case err of
                     None \<Rightarrow> r
                   | Some e \<Rightarrow>
                       add_issue \<lparr>Tenant = tenant, IssueSeq = seqEnd, HasSeq = True,
                         Kind = ''notary-mismatch'',
                         Detail = Notary p @ '': '' @ error_text e\<rparr> r))))"

definition verify_checkpoint ::
    "store \<Rightarrow> proof_ledger \<Rightarrow> (string \<rightharpoonup> notary) \<Rightarrow> string \<Rightarrow> bytes \<Rightarrow> checkpoint \<Rightarrow> report \<Rightarrow> fault + report"
where
  "verify_checkpoint s ledger notaries tenant prevID cp r =
     (let r = r\<lparr>CheckpointsSeen := CheckpointsSeen r + 1\<rparr>
      in bind_res (store_Range s tenant (SeqStart cp) (SeqEnd cp)) (\<lambda>(es, complete).
           if \<not> complete then
             (let firstMissing = SeqStart cp + of_nat (length es)
              in Inr (add_issue \<lparr>Tenant = tenant, IssueSeq = firstMissing, HasSeq = True,
                   Kind = ''truncation'',
                   Detail = ''checkpoint committed entries '' @ dec (unat (SeqStart cp)) @ ''..'' @
                     dec (unat (SeqEnd cp)) @ '' ('' @ dec (unat (EntryCount cp)) @
                     '' total) but seq '' @ dec (unat firstMissing) @
                     '' is missing from the store''\<rparr> r))
           else
             bind_res (Build tenant es prevID (AnchoredAt cp)) (\<lambda>rebuilt.
               (let r = (if CheckpointID rebuilt \<noteq> CheckpointID cp then
                           add_issue \<lparr>Tenant = tenant, IssueSeq = SeqEnd cp, HasSeq = True,
                             Kind = ''checkpoint-mismatch'',
                             Detail = ''entries in window '' @ dec (unat (SeqStart cp)) @ ''..'' @
                               dec (unat (SeqEnd cp)) @
                               '' no longer match the checkpoint anchored to WORM''\<rparr> r
                         else r)
                in verify_proofs notaries tenant (SeqEnd cp) (CheckpointID rebuilt)
                     (ledger_Get tenant (SeqEnd cp) ledger) r))))"

fun checkpoint_loop ::
    "store \<Rightarrow> proof_ledger \<Rightarrow> (string \<rightharpoonup> notary) \<Rightarrow> string \<Rightarrow> bytes \<Rightarrow> checkpoint list \<Rightarrow> report \<Rightarrow>
      fault + report" where
  "checkpoint_loop s ledger notaries tenant prevID [] r = Inr r"
| "checkpoint_loop s ledger notaries tenant prevID (cp # cps) r =
     bind_res (verify_checkpoint s ledger notaries tenant prevID cp r)
       (checkpoint_loop s ledger notaries tenant (CheckpointID cp) cps)"

definition verifyCheckpoints ::
    "store \<Rightarrow> (string \<Rightarrow> error + checkpoint list) \<Rightarrow> proof_ledger \<Rightarrow> (string \<rightharpoonup> notary) \<Rightarrow> string \<Rightarrow>
      report \<Rightarrow> fault + report" where
  "verifyCheckpoints s worm_All ledger notaries tenant r =
     (case worm_All tenant of
        Inl err \<Rightarrow>
          Inr (add_issue \<lparr>Tenant = tenant, IssueSeq = 0, HasSeq = False, Kind = ''worm-error'',
            Detail = ''could not read WORM store: '' @ error_text err\<rparr> r)
      | Inr anchored \<Rightarrow> checkpoint_loop s ledger notaries tenant [] anchored r)"

subsection \<open>Verify\<close>

definition by_name :: "notary list \<Rightarrow> string \<rightharpoonup> notary" where
  "by_name notaries = foldl (\<lambda>m n. m(n_Name n \<mapsto> n)) Map.empty notaries"

fun verify_tenants ::
    "(string \<Rightarrow> error + checkpoint list) \<Rightarrow> proof_ledger \<Rightarrow> (string \<rightharpoonup> notary) \<Rightarrow> string list \<Rightarrow> store \<Rightarrow>
      report \<Rightarrow> fault + report \<times> store" where
  "verify_tenants worm_All ledger notaries [] s r = Inr (r, s)"
| "verify_tenants worm_All ledger notaries (tenant # ts) s r =
     (case verifyChain tenant s r of
        (r, s) \<Rightarrow>
          bind_res (verifyCheckpoints s worm_All ledger notaries tenant r)
            (verify_tenants worm_All ledger notaries ts s))"

definition Verify ::
    "store \<Rightarrow> (string \<Rightarrow> error + checkpoint list) \<Rightarrow> proof_ledger \<Rightarrow> notary list \<Rightarrow> fault + report \<times> store"
where
  "Verify s worm_All ledger notaries =
     verify_tenants worm_All ledger (by_name notaries) (store_Tenants s) s empty_report"

subsection \<open>Reports only grow\<close>

text \<open>
  Every step appends issues to the report it is given, so a clean report was clean at every step.
\<close>

lemma add_issue_Issues [simp]: "Issues (add_issue i r) = Issues r @ [i]"
  by (simp add: add_issue_def)

definition grows :: "report \<Rightarrow> report \<Rightarrow> bool" where
  "grows r r' \<longleftrightarrow> (\<exists>is. Issues r' = Issues r @ is)"

lemma grows_refl [intro, simp]: "grows r r"
  by (simp add: grows_def)

lemma grows_trans: "grows r r' \<Longrightarrow> grows r' r'' \<Longrightarrow> grows r r''"
  by (auto simp: grows_def)

lemma grows_add_issue [intro]: "grows r (add_issue i r)"
  by (auto simp: grows_def)

lemma grows_counters [simp]:
  "grows (r\<lparr>EntriesChecked := n\<rparr>) r' \<longleftrightarrow> grows r r'"
  "grows (r\<lparr>CheckpointsSeen := n\<rparr>) r' \<longleftrightarrow> grows r r'"
  "grows (r\<lparr>ProofsChecked := n\<rparr>) r' \<longleftrightarrow> grows r r'"
  by (simp_all add: grows_def)

lemma grows_add_issue_left: "grows (add_issue i r) r' \<Longrightarrow> grows r r'"
  by (auto simp: grows_def)

lemma grows_OK: "grows r r' \<Longrightarrow> report_OK r' \<Longrightarrow> report_OK r"
  by (auto simp: grows_def report_OK_def)

lemma grows_add_issue_counter: "grows r (add_issue i (r\<lparr>EntriesChecked := n\<rparr>))"
  by (simp add: grows_def)

lemma chain_loop_grows: "grows r (chain_loop t p w es r)"
proof (induction es arbitrary: p w r)
  case (Cons e es)
  have "grows r (chain_loop t p' w' es (r\<lparr>EntriesChecked := n\<rparr>))" for p' w' n
    using Cons.IH [of "r\<lparr>EntriesChecked := n\<rparr>"] by simp
  then show ?case
    by (simp add: Let_def grows_add_issue_counter)
qed simp

lemma verify_proofs_grows: "verify_proofs ns t n cid ps r = Inr r' \<Longrightarrow> grows r r'"
proof (induction ps arbitrary: r)
  case (Cons p ps)
  then show ?case
    by (auto simp: Let_def bind_res_eq_Inr split: option.splits dest!: Cons.IH grows_add_issue_left)
qed simp

lemma verify_checkpoint_grows: "verify_checkpoint s l ns t prev cp r = Inr r' \<Longrightarrow> grows r r'"
  by (auto simp: verify_checkpoint_def Let_def bind_res_eq_Inr grows_def add_issue_def
      split: if_splits dest!: verify_proofs_grows)

lemma checkpoint_loop_grows: "checkpoint_loop s l ns t prev cps r = Inr r' \<Longrightarrow> grows r r'"
  by (induction cps arbitrary: prev r)
    (auto simp: bind_res_eq_Inr intro: grows_trans verify_checkpoint_grows)

lemma verifyCheckpoints_grows: "verifyCheckpoints s w l ns t r = Inr r' \<Longrightarrow> grows r r'"
  by (auto simp: verifyCheckpoints_def split: sum.splits dest: checkpoint_loop_grows)

lemma verifyChain_grows: "verifyChain t s r = (r', s') \<Longrightarrow> grows r r'"
  by (auto simp: verifyChain_def chain_loop_grows split: prod.splits)

lemma verify_tenants_grows: "verify_tenants w l ns ts s r = Inr (r', s') \<Longrightarrow> grows r r'"
proof (induction ts arbitrary: s r)
  case (Cons t ts)
  obtain r1 s1 where c: "verifyChain t s r = (r1, s1)" by fastforce
  with Cons.prems obtain r2 where r2: "verifyCheckpoints s1 w l ns t r1 = Inr r2"
      and rest: "verify_tenants w l ns ts s1 r2 = Inr (r', s')"
    by (auto simp: bind_res_eq_Inr)
  show ?case
    using verifyChain_grows [OF c] verifyCheckpoints_grows [OF r2] Cons.IH [OF rest]
    by (blast intro: grows_trans)
qed simp

subsection \<open>The chain check is exact\<close>

lemma links_tl: "links t p w (e # es) \<Longrightarrow> links t (EntryHash e) (w + 1) es"
  using links.simps(2) [of t p w e es] by blast

lemma chain_loop_append:
  "links t p w xs \<Longrightarrow> chain_loop t p w (xs @ ys) r =
    chain_loop t (tip p xs) (w + of_nat (length xs)) ys (r\<lparr>EntriesChecked := EntriesChecked r + length xs\<rparr>)"
proof (induction xs arbitrary: p w r)
  case (Cons x xs)
  have "links t (EntryHash x) (w + 1) xs"
    using Cons.prems by (rule links_tl)
  from Cons.IH [OF this, of "r\<lparr>EntriesChecked := EntriesChecked r + 1\<rparr>"] Cons.prems show ?case
    by (auto simp: leaf_of_def add.commute add.left_commute)
qed simp

lemma chain_loop_links:
  "links t p w es \<Longrightarrow> chain_loop t p w es r = r\<lparr>EntriesChecked := EntriesChecked r + length es\<rparr>"
  using chain_loop_append [of t p w es "[]" r] by simp

definition chain_issue :: "string \<Rightarrow> bytes \<Rightarrow> u64 \<Rightarrow> entry \<Rightarrow> issue" where
  "chain_issue t p w e =
     (if Seq e \<noteq> w then
        \<lparr>Tenant = t, IssueSeq = w, HasSeq = True, Kind = ''sequence-gap'',
         Detail = ''expected seq '' @ dec (unat w) @ '', found '' @ dec (unat (Seq e)) @
           '' (entry deleted or reordered)''\<rparr>
      else if PrevHash e \<noteq> p then
        \<lparr>Tenant = t, IssueSeq = w, HasSeq = True, Kind = ''chain-break'',
         Detail = ''prev_hash does not link to the previous entry''\<rparr>
      else
        \<lparr>Tenant = t, IssueSeq = w, HasSeq = True, Kind = ''entry-tamper'',
         Detail = ''stored entry_hash does not match the entry contents''\<rparr>)"

lemma chain_loop_bad:
  "\<not> links t p w [e] \<Longrightarrow> chain_loop t p w (e # es) r =
    add_issue (chain_issue t p w e) (r\<lparr>EntriesChecked := EntriesChecked r + 1\<rparr>)"
  by (auto simp: Let_def leaf_of_def chain_issue_def)

lemma not_links_split:
  "\<not> links t p w es \<Longrightarrow> \<exists>xs e ys. es = xs @ e # ys \<and> links t p w xs \<and>
    \<not> links t (tip p xs) (w + of_nat (length xs)) [e]"
proof (induction es arbitrary: p w)
  case (Cons e es)
  show ?case
  proof (cases "links t p w [e]")
    case True
    then have "\<not> links t (EntryHash e) (w + 1) es"
      using Cons.prems by (metis links.simps)
    then obtain xs e' ys where "es = xs @ e' # ys" "links t (EntryHash e) (w + 1) xs"
        "\<not> links t (tip (EntryHash e) xs) (w + 1 + of_nat (length xs)) [e']"
      using Cons.IH by blast
    with True show ?thesis
      by (intro exI [of _ "e # xs"]) (auto simp: algebra_simps)
  next
    case False
    then show ?thesis
      by (intro exI [of _ "[]"]) auto
  qed
qed simp

lemma chain_loop_split:
  assumes "links t p w xs" and "\<not> links t (tip p xs) (w + of_nat (length xs)) [e]"
  shows "chain_loop t p w (xs @ e # ys) r =
    add_issue (chain_issue t (tip p xs) (w + of_nat (length xs)) e)
      (r\<lparr>EntriesChecked := EntriesChecked r + Suc (length xs)\<rparr>)"
  by (simp add: chain_loop_append [OF assms(1)] chain_loop_bad [OF assms(2)] del: chain_loop.simps)

lemma chain_loop_exact:
  "Issues (chain_loop t p w es r) = Issues r \<longleftrightarrow> links t p w es"
proof (cases "links t p w es")
  case False
  then show ?thesis
    using not_links_split [OF False] chain_loop_split by fastforce
qed (simp add: chain_loop_links)

lemma fst_verifyChain:
  "fst (verifyChain t s r) = chain_loop t (Genesis t) 0 (sort_key Seq (rows s t)) r"
  by (simp add: verifyChain_def store_Tenant_def Let_def)

end
