(* ===== verification/Verify_Props.thy ===== *)
theory Verify_Props
  imports Verify
begin

section \<open>What a verification report means\<close>

text \<open>
  Soundness, completeness and totality of \<open>Verify\<close> (internal/verify/verify.go). Soundness: when
  a report is clean, the stored rows agree with the rows that were anchored, up to an explicit
  SHA-256 collision, for every checkpoint in the WORM store that was built from them.
  Completeness: an honest history gives a clean report with exact counters, whatever intact rows
  follow the last anchored window. Totality: the call returns for every list of checkpoints whose
  windows are not empty.
\<close>

subsection \<open>The store under verification\<close>

lemma rows_store_Tenant:
  "rows (snd (store_Tenant t s)) u = (if u = t then sort_key Seq (rows s t) else rows s u)"
  by (auto simp: store_Tenant_def Let_def rows_def get_or_def update_conv' split: option.splits)

lemma verifyChain_snd: "snd (verifyChain t s r) = snd (store_Tenant t s)"
  by (simp add: verifyChain_def split: prod.splits)

lemma sort_key_idem [simp]: "sort_key f (sort_key f xs) = sort_key f xs"
  by (rule sort_key_sorted) simp

definition window :: "entry list \<Rightarrow> nat \<Rightarrow> nat \<Rightarrow> entry list" where
  "window es a b = take (Suc b - a) (drop a es)"

lemma window_props:
  assumes "a \<le> b" and "b < length es"
  shows "window es a b \<noteq> []" "hd (window es a b) = es ! a" "last (window es a b) = es ! b"
    "length (window es a b) = Suc b - a" "set (window es a b) \<subseteq> set es"
proof -
  show ne: "window es a b \<noteq> []" and len: "length (window es a b) = Suc b - a"
    using assms by (auto simp: window_def)
  show "hd (window es a b) = es ! a"
    using assms ne by (simp add: hd_conv_nth window_def)
  have "b - a < length (window es a b)" "last (window es a b) = window es a b ! (b - a)"
    using assms ne len by (auto simp: last_conv_nth Suc_diff_le)
  then show "last (window es a b) = es ! b"
    using assms by (simp add: window_def)
  show "set (window es a b) \<subseteq> set es"
    by (auto simp: window_def dest: in_set_takeD in_set_dropD)
qed

lemma intact_window:
  assumes "a \<le> b" and "b < length es" and "intact t es" and "sized es"
  shows "sized (window es a b)" "list_all (\<lambda>e. length (EntryHash e) = 32) (window es a b)"
  using window_props [OF assms(1,2)] assms links_hashes [OF assms(3)]
  by (auto simp: sized_def list_all_iff)

lemma store_Range_intact_window:
  assumes "store_Range s t (of_nat a) (of_nat b) = Inr (es, True)"
    and "intact t (rows s t)" and "length (rows s t) \<le> 2 ^ 64" and "a \<le> b" and "b < 2 ^ 63"
  shows "es = window (rows s t) a b" "b < length (rows s t)"
proof -
  have ab: "unat (of_nat a :: u64) = a" "unat (of_nat b :: u64) = b"
    using assms(4,5) by (simp_all add: unat_of_nat_less)
  have "(of_nat b :: u64) \<noteq> - 1"
  proof
    assume "(of_nat b :: u64) = - 1"
    then have "b = unat (- 1 :: u64)" using ab(2) by simp
    with assms(5) show False by (simp add: unsigned_minus_1_eq_mask mask_eq_exp_minus_1)
  qed
  moreover have "\<not> make_panics 8 ((of_nat b :: u64) - of_nat a + 1)"
    using assms(1) by (auto simp: store_Range_def split: if_splits)
  ultimately have "Inr (es, True) = (Inr (window (rows s t) a b,
      b < length (rows s t) \<or> (of_nat b :: u64) < of_nat a) :: fault + _)"
    using store_Range_slice [OF byseq_intact [OF assms(2,3)], where stop = "of_nat b" and start = "of_nat a"] assms(1) ab
    by (simp add: window_def)
  moreover have "\<not> (of_nat b :: u64) < of_nat a"
    using assms(4) ab by (simp add: word_less_nat_alt)
  ultimately show "es = window (rows s t) a b" "b < length (rows s t)"
    by simp_all
qed

subsection \<open>A clean report, step by step\<close>

lemma verify_checkpoint_clean:
  assumes "verify_checkpoint s l ns t prev cp r = Inr r'" and "report_OK r'"
  shows "\<exists>es cp'. store_Range s t (SeqStart cp) (SeqEnd cp) = Inr (es, True) \<and>
    Build t es prev (AnchoredAt cp) = Inr cp' \<and> CheckpointID cp' = CheckpointID cp"
proof -
  have add: "\<not> report_OK (add_issue i r)" for i r
    by (simp add: report_OK_def)
  obtain es complete where range: "store_Range s t (SeqStart cp) (SeqEnd cp) = Inr (es, complete)"
    using assms(1) by (auto simp: verify_checkpoint_def Let_def bind_res_eq_Inr)
  then have complete
    using assms add by (auto simp: verify_checkpoint_def Let_def split: if_splits)
  then obtain cp' where cp': "Build t es prev (AnchoredAt cp) = Inr cp'"
    using assms(1) range by (auto simp: verify_checkpoint_def Let_def bind_res_eq_Inr)
  have "CheckpointID cp' = CheckpointID cp"
  proof (rule ccontr)
    assume ne: "CheckpointID cp' \<noteq> CheckpointID cp"
    then obtain i r0 where "verify_proofs ns t (SeqEnd cp) (CheckpointID cp')
        (ledger_Get t (SeqEnd cp) l) (add_issue i r0) = Inr r'"
      using assms(1) range cp' \<open>complete\<close> by (auto simp: verify_checkpoint_def Let_def)
    from grows_OK [OF verify_proofs_grows [OF this] assms(2)] add show False by blast
  qed
  with range cp' \<open>complete\<close> show ?thesis by auto
qed

lemma checkpoint_loop_clean:
  assumes "checkpoint_loop s l ns t prev cps r = Inr r'" and "report_OK r'" and "cp \<in> set cps"
  shows "\<exists>prev'\<in>insert prev (CheckpointID ` set cps). \<exists>es cp'.
    store_Range s t (SeqStart cp) (SeqEnd cp) = Inr (es, True) \<and>
    Build t es prev' (AnchoredAt cp) = Inr cp' \<and> CheckpointID cp' = CheckpointID cp"
  using assms
proof (induction cps arbitrary: prev r)
  case (Cons c cps)
  then obtain r1 where r1: "verify_checkpoint s l ns t prev c r = Inr r1"
      and rest: "checkpoint_loop s l ns t (CheckpointID c) cps r1 = Inr r'"
    by (auto simp: bind_res_eq_Inr)
  have "report_OK r1"
    using checkpoint_loop_grows [OF rest] Cons.prems(2) by (rule grows_OK)
  show ?case
  proof (cases "cp \<in> set cps")
    case True
    from Cons.IH [OF rest Cons.prems(2) True] show ?thesis
      by (auto 0 4)
  next
    case False
    then have "cp = c" using Cons.prems(3) by simp
    with verify_checkpoint_clean [OF r1 \<open>report_OK r1\<close>] show ?thesis by auto
  qed
qed simp

lemma verify_tenants_clean:
  assumes "verify_tenants w l ns ts s r = Inr (r', s')" and "report_OK r'" and "t \<in> set ts"
  shows "intact t (sort_key Seq (rows s t)) \<and>
    (\<exists>s1 r1 r2. rows s1 t = sort_key Seq (rows s t) \<and> verifyCheckpoints s1 w l ns t r1 = Inr r2 \<and>
      report_OK r2)"
  using assms
proof (induction ts arbitrary: s r)
  case (Cons u ts)
  obtain r1 s1 where c: "verifyChain u s r = (r1, s1)" by fastforce
  with Cons.prems(1) obtain r2 where r2: "verifyCheckpoints s1 w l ns u r1 = Inr r2"
      and rest: "verify_tenants w l ns ts s1 r2 = Inr (r', s')"
    by (auto simp: bind_res_eq_Inr)
  have s1: "rows s1 t = (if t = u then sort_key Seq (rows s t) else rows s t)"
    using verifyChain_snd [of u s r] rows_store_Tenant [of u s t] c by simp
  have ok2: "report_OK r2"
    using verify_tenants_grows [OF rest] Cons.prems(2) by (rule grows_OK)
  then have ok1: "report_OK r1"
    by (rule grows_OK [OF verifyCheckpoints_grows [OF r2]])
  show ?case
  proof (cases "t = u")
    case True
    have "r1 = chain_loop u (Genesis u) 0 (sort_key Seq (rows s u)) r"
      using fst_verifyChain [of u s r] c by simp
    moreover have "Issues r = []"
      using verifyChain_grows [OF c] ok1 by (auto simp: grows_def report_OK_def)
    ultimately have "intact u (sort_key Seq (rows s u))"
      using ok1 chain_loop_exact [of u "Genesis u" 0 _ r] by (simp add: report_OK_def)
    with True s1 r2 ok2 show ?thesis by auto
  next
    case False
    with Cons.IH [OF rest Cons.prems(2)] Cons.prems(3) s1 show ?thesis by auto
  qed
qed simp

subsection \<open>Soundness\<close>

text \<open>
  The inputs hashed when the chain is replayed up to row \<open>b\<close> and the checkpoint of the
  window \<open>a..b\<close> is rebuilt on top of \<open>prev\<close>.
\<close>

definition replay_inputs :: "string \<Rightarrow> entry list \<Rightarrow> nat \<Rightarrow> nat \<Rightarrow> bytes \<Rightarrow> i64 \<Rightarrow> bytes list" where
  "replay_inputs t es a b prev at =
     chain_inputs t (Genesis t) (take (Suc b) es) @
     (case Build t (window es a b) prev at of
        Inl _ \<Rightarrow> [] | Inr cp \<Rightarrow> id_input cp # window_inputs (window es a b))"

lemma links_take: "links t p w es \<Longrightarrow> links t p w (take n es)"
  by (metis append_take_drop_id links_append)

lemma collides_left: "collides xs ys \<Longrightarrow> collides (xs @ xs') (ys @ ys')"
  and collides_right: "collides xs' ys' \<Longrightarrow> collides (xs @ xs') (ys @ ys')"
  by (auto elim: collides_mono)

lemma rebuilt_prefix:
  assumes st: "intact t st" "sized st" "b < length st" "list_all entry_sized st"
    and es: "intact t es" "sized es" "b < length es" "list_all entry_sized es"
    and "a \<le> b" and cp: "Build t (window es a b) prev at = Inr cp"
    and cp': "Build t (window st a b) prev' at = Inr cp'" and ids: "CheckpointID cp' = CheckpointID cp"
    and "sized t" "sized prev" "sized prev'"
  shows "map content (take (Suc b) st) = map content (take (Suc b) es) \<or>
    collides (replay_inputs t st a b prev' at) (replay_inputs t es a b prev at)"
proof -
  note w = window_props [OF \<open>a \<le> b\<close> st(3)] and w' = window_props [OF \<open>a \<le> b\<close> es(3)]
  have "HeadHash cp' = HeadHash cp \<or>
      collides (id_input cp' # window_inputs (window st a b)) (id_input cp # window_inputs (window es a b))"
    using Build_binding [OF cp' cp ids \<open>sized t\<close>] intact_window [OF \<open>a \<le> b\<close>] st es assms(14,15)
    by blast
  moreover have "map content (take (Suc b) st) = map content (take (Suc b) es) \<or>
      collides (chain_inputs t (Genesis t) (take (Suc b) st)) (chain_inputs t (Genesis t) (take (Suc b) es))"
    if "HeadHash cp' = HeadHash cp"
  proof (rule chain_binding_aux)
    show "intact t (take (Suc b) st)" "intact t (take (Suc b) es)"
      using st(1) es(1) by (simp_all add: links_take)
    show "length (take (Suc b) st) = length (take (Suc b) es)"
      using st(3) es(3) by simp
    show "tip (Genesis t) (take (Suc b) st) = tip (Genesis t) (take (Suc b) es)"
      using that Build_fields [OF cp] Build_fields [OF cp'] w(3) w'(3) by (simp add: tip_take st(3) es(3))
    show "entry_sized e" if "e \<in> set (take (Suc b) st) \<union> set (take (Suc b) es)" for e
      using that st(4) es(4) by (auto simp: list_all_iff dest: in_set_takeD)
  qed (use \<open>sized t\<close> in simp_all)
  ultimately show ?thesis
    unfolding replay_inputs_def cp cp' sum.case by (auto intro: collides_left collides_right)
qed

lemma verify_sound:
  assumes "Verify s worm_All ledger notaries = Inr (r, s')" and "report_OK r"
    and "t \<in> set (store_Tenants s)" and "worm_All t = Inr cps" and "cp \<in> set cps"
    and "intact t es" and "a \<le> b" and "b < length es" and cp: "Build t (window es a b) prev at = Inr cp"
    and "sized t" "sized es" "sized prev" "list_all entry_sized es"
    and "sized (rows s t)" "list_all entry_sized (rows s t)" "list_all (\<lambda>c. sized (CheckpointID c)) cps"
  shows "map content (take (Suc b) (sort_key Seq (rows s t))) = map content (take (Suc b) es) \<or>
    (\<exists>prev'\<in>insert [] (CheckpointID ` set cps).
      collides (replay_inputs t (sort_key Seq (rows s t)) a b prev' at) (replay_inputs t es a b prev at))"
proof -
  let ?st = "sort_key Seq (rows s t)"
  have st: "sized ?st" "list_all entry_sized ?st"
    using assms(14,15) by (simp_all add: sized_def list_all_iff)
  obtain s1 r1 r2 where intact: "intact t ?st" and s1: "rows s1 t = ?st"
      and vc: "verifyCheckpoints s1 worm_All ledger (by_name notaries) t r1 = Inr r2" "report_OK r2"
    using verify_tenants_clean [OF assms(1) [unfolded Verify_def] assms(2,3)] by blast
  have "checkpoint_loop s1 ledger (by_name notaries) t [] cps r1 = Inr r2"
    using vc(1) assms(4) by (simp add: verifyCheckpoints_def)
  from checkpoint_loop_clean [OF this vc(2) assms(5)] obtain prev' w cp'
    where prev': "prev' \<in> insert [] (CheckpointID ` set cps)"
      and range: "store_Range s1 t (SeqStart cp) (SeqEnd cp) = Inr (w, True)"
      and cp': "Build t w prev' (AnchoredAt cp) = Inr cp'" "CheckpointID cp' = CheckpointID cp"
    by blast
  note f = Build_fields [OF cp] and w = window_props [OF assms(7,8)]
  have "SeqStart cp = of_nat a" "SeqEnd cp = of_nat b"
    using f(3,4) w(2,3) links_Seq_nth [OF assms(6)] assms(7,8) by simp_all
  then have "w = window ?st a b" "b < length ?st"
    using store_Range_intact_window [of s1 t a b w] range intact s1 st(1) assms(7,8,11)
    by (simp_all add: sized_def)
  moreover have "sized prev'"
    using prev' assms(16) by (auto simp: list_all_iff sized_def)
  ultimately have "map content (take (Suc b) ?st) = map content (take (Suc b) es) \<or>
      collides (replay_inputs t ?st a b prev' at) (replay_inputs t es a b prev at)"
    using rebuilt_prefix [OF intact st(1) _ st(2) assms(6,11,8,13,7) cp, of prev' cp'] cp' f(9) assms(10,12)
    by simp
  with prev' show ?thesis by blast
qed

subsection \<open>Completeness\<close>

text \<open>
  An honest tenant: its rows are an intact chain, its WORM record is a list of checkpoints built
  from consecutive windows of it, each on top of the previous one, and every proof filed under
  one of them by a configured notary verifies. What follows the last window is not constrained.
\<close>

fun anchored :: "string \<Rightarrow> bytes \<Rightarrow> entry list \<Rightarrow> checkpoint list \<Rightarrow> bool" where
  "anchored t prev es [] \<longleftrightarrow> True"
| "anchored t prev es (cp # cps) \<longleftrightarrow>
     (let n = unat (EntryCount cp)
      in n \<le> length es \<and> Build t (take n es) prev (AnchoredAt cp) = Inr cp \<and>
         anchored t (CheckpointID cp) (drop n es) cps)"

definition genuine :: "(string \<rightharpoonup> notary) \<Rightarrow> proof_ledger \<Rightarrow> string \<Rightarrow> checkpoint \<Rightarrow> bool" where
  "genuine ns l t cp \<longleftrightarrow>
     list_all (\<lambda>p. case ns (Notary p) of None \<Rightarrow> True | Some nt \<Rightarrow> n_Verify nt p (CheckpointID cp) = Inr None)
       (ledger_Get t (SeqEnd cp) l)"

definition checked_proofs :: "(string \<rightharpoonup> notary) \<Rightarrow> proof_ledger \<Rightarrow> string \<Rightarrow> checkpoint list \<Rightarrow> nat" where
  "checked_proofs ns l t cps =
     sum_list (map (\<lambda>cp. length (filter (\<lambda>p. ns (Notary p) \<noteq> None) (ledger_Get t (SeqEnd cp) l))) cps)"

definition tenant_ok ::
    "(string \<rightharpoonup> notary) \<Rightarrow> proof_ledger \<Rightarrow> (string \<Rightarrow> error + checkpoint list) \<Rightarrow> store \<Rightarrow> string \<Rightarrow> bool"
where
  "tenant_ok ns l worm_All s t \<longleftrightarrow>
     (case worm_All t of
        Inl _ \<Rightarrow> False
      | Inr cps \<Rightarrow>
          (let es = sort_key Seq (rows s t)
           in intact t es \<and> length es < 2 ^ 45 \<and> anchored t [] es cps \<and> list_all (genuine ns l t) cps))"

lemma verify_proofs_genuine:
  "list_all (\<lambda>p. case ns (Notary p) of None \<Rightarrow> True | Some nt \<Rightarrow> n_Verify nt p cid = Inr None) ps \<Longrightarrow>
    verify_proofs ns t n cid ps r =
      Inr (r\<lparr>ProofsChecked := ProofsChecked r + length (filter (\<lambda>p. ns (Notary p) \<noteq> None) ps)\<rparr>)"
  by (induction ps arbitrary: r) (auto split: option.splits)

lemma store_Range_window:
  assumes rows: "rows s t = pre @ w @ post" and "intact t (rows s t)" and "length (rows s t) < 2 ^ 45"
    and "w \<noteq> []"
  shows "store_Range s t (Seq (hd w)) (Seq (last w)) = Inr (w, True)"
proof -
  define a where "a = length pre"
  define b where "b = length pre + (length w - 1)"
  have b: "b < length (rows s t)" "a \<le> b" and small: "length (rows s t) < 2 ^ 63"
    and win: "window (rows s t) a b = w"
    using rows assms(3,4) by (cases w; simp add: a_def b_def window_def)+
  have "hd w = rows s t ! a" "last w = rows s t ! b"
    using window_props [OF b(2,1)] win by simp_all
  then have q: "Seq (hd w) = of_nat a" "Seq (last w) = of_nat b"
    using links_Seq_nth [OF assms(2)] b by simp_all
  have u: "unat (of_nat a :: u64) = a" "unat (of_nat b :: u64) = b"
    using b small by (simp_all add: unat_of_nat_less)
  have stop: "(of_nat b :: u64) \<noteq> - 1"
    using b small u(2) by (auto simp: unsigned_minus_1_eq_mask mask_eq_exp_minus_1)
  have le: "(of_nat a :: u64) \<le> of_nat b"
    using b u by (simp add: word_le_nat_alt)
  have "\<not> make_panics 8 ((of_nat b :: u64) - of_nat a + 1)"
    using unat_window [OF le stop] b assms(3) u by (simp add: make_panics_def)
  moreover have "length (rows s t) \<le> 2 ^ 64"
    using small by simp
  ultimately show ?thesis
    using store_Range_slice [OF byseq_intact [OF assms(2)] stop, of "of_nat a"] u b win
    by (simp add: q window_def)
qed

lemma checkpoint_loop_genuine:
  assumes "rows s t = pre @ es" and "intact t (rows s t)" and "length (rows s t) < 2 ^ 45"
    and "anchored t prev es cps" and "list_all (genuine ns l t) cps"
  shows "checkpoint_loop s l ns t prev cps r =
    Inr (r\<lparr>CheckpointsSeen := CheckpointsSeen r + length cps,
           ProofsChecked := ProofsChecked r + checked_proofs ns l t cps\<rparr>)"
  using assms(1,4,5)
proof (induction cps arbitrary: prev pre es r)
  case (Cons cp cps)
  let ?n = "unat (EntryCount cp)" and ?r = "r\<lparr>CheckpointsSeen := CheckpointsSeen r + 1\<rparr>"
  let ?k = "length (filter (\<lambda>p. ns (Notary p) \<noteq> None) (ledger_Get t (SeqEnd cp) l))"
  have cp: "Build t (take ?n es) prev (AnchoredAt cp) = Inr cp"
    and rest: "anchored t (CheckpointID cp) (drop ?n es) cps"
    using Cons.prems(2) by (simp_all add: Let_def)
  note f = Build_fields [OF cp]
  have "store_Range s t (SeqStart cp) (SeqEnd cp) = Inr (take ?n es, True)"
    using store_Range_window [of s t pre "take ?n es" "drop ?n es"] Cons.prems(1) assms(2,3) f(1,3,4) by simp
  then have "verify_checkpoint s l ns t prev cp r = Inr (?r\<lparr>ProofsChecked := ProofsChecked r + ?k\<rparr>)"
    using Cons.prems(3) cp by (simp add: verify_checkpoint_def Let_def genuine_def verify_proofs_genuine)
  moreover have "rows s t = (pre @ take ?n es) @ drop ?n es"
    using Cons.prems(1) by simp
  note IH = Cons.IH [OF this rest]
  ultimately show ?case
    using IH Cons.prems(3) by (simp add: checked_proofs_def add.assoc)
qed (simp add: checked_proofs_def)

definition clean_report ::
    "(string \<rightharpoonup> notary) \<Rightarrow> proof_ledger \<Rightarrow> (string \<Rightarrow> error + checkpoint list) \<Rightarrow> store \<Rightarrow> string list \<Rightarrow>
      report \<Rightarrow> report" where
  "clean_report ns l worm_All s ts r =
     r\<lparr>EntriesChecked := EntriesChecked r + sum_list (map (\<lambda>t. length (rows s t)) ts),
       CheckpointsSeen := CheckpointsSeen r + sum_list (map (\<lambda>t. length (projr (worm_All t))) ts),
       ProofsChecked := ProofsChecked r +
         sum_list (map (\<lambda>t. checked_proofs ns l t (projr (worm_All t))) ts)\<rparr>"

lemma clean_report_cong:
  "(\<And>t. length (rows s t) = length (rows s' t)) \<Longrightarrow> clean_report ns l w s ts r = clean_report ns l w s' ts r"
  by (simp add: clean_report_def)

lemma verify_tenants_genuine:
  "list_all (tenant_ok ns l worm_All s) ts \<Longrightarrow>
    \<exists>s'. verify_tenants worm_All l ns ts s r = Inr (clean_report ns l worm_All s ts r, s')"
proof (induction ts arbitrary: s r)
  case Nil
  then show ?case by (simp add: clean_report_def)
next
  case (Cons t ts)
  let ?es = "sort_key Seq (rows s t)"
  let ?r = "r\<lparr>EntriesChecked := EntriesChecked r + length (rows s t)\<rparr>"
  obtain cps where cps: "worm_All t = Inr cps" "intact t ?es" "length ?es < 2 ^ 45"
      "anchored t [] ?es cps" "list_all (genuine ns l t) cps"
    using Cons.prems by (auto simp: tenant_ok_def Let_def split: sum.splits)
  obtain r1 s1 where c: "verifyChain t s r = (r1, s1)" by fastforce
  have s1: "rows s1 u = (if u = t then ?es else rows s u)" for u
    using verifyChain_snd [of t s r] rows_store_Tenant [of t s u] c by simp
  have "r1 = ?r"
    using fst_verifyChain [of t s r] c cps(2) by (simp add: chain_loop_links)
  then have vc: "verifyCheckpoints s1 worm_All l ns t r1 =
      Inr (?r\<lparr>CheckpointsSeen := CheckpointsSeen r + length cps,
             ProofsChecked := ProofsChecked r + checked_proofs ns l t cps\<rparr>)" (is "_ = Inr ?r2")
    using checkpoint_loop_genuine [of s1 t "[]" ?es "[]" cps ns l ?r] cps s1
    by (simp add: verifyCheckpoints_def)
  have "tenant_ok ns l worm_All s1 u = tenant_ok ns l worm_All s u" for u
    by (simp add: tenant_ok_def s1 cong: sum.case_cong)
  then have "list_all (tenant_ok ns l worm_All s1) ts"
    using Cons.prems by (simp add: list_all_iff)
  from Cons.IH [OF this, of ?r2] obtain s' where
    "verify_tenants worm_All l ns ts s1 ?r2 = Inr (clean_report ns l worm_All s1 ts ?r2, s')" ..
  moreover have "clean_report ns l worm_All s1 ts ?r2 = clean_report ns l worm_All s (t # ts) r"
    by (subst clean_report_cong [of s1 s]) (simp_all add: s1 clean_report_def cps(1))
  ultimately show ?case
    using c vc by simp
qed

subsection \<open>Totality\<close>

text \<open>A window the WORM record may hold: not empty, and small enough for \<open>Range\<close> to allocate.\<close>

definition window_ok :: "checkpoint \<Rightarrow> bool" where
  "window_ok cp \<longleftrightarrow>
     SeqStart cp \<le> SeqEnd cp \<and> SeqEnd cp \<noteq> - 1 \<and> unat (SeqEnd cp) - unat (SeqStart cp) < 2 ^ 45"

lemma store_Range_returns:
  assumes "window_ok cp"
  shows "\<exists>es complete. store_Range s t (SeqStart cp) (SeqEnd cp) = Inr (es, complete) \<and> (es = [] \<longrightarrow> \<not> complete)"
proof -
  have w: "SeqStart cp \<le> SeqEnd cp" "SeqEnd cp \<noteq> - 1"
    using assms by (simp_all add: window_ok_def)
  moreover have "\<not> make_panics 8 (SeqEnd cp - SeqStart cp + 1)"
    using unat_window [OF w] assms by (simp add: make_panics_def window_ok_def)
  ultimately show ?thesis
    by (simp add: store_Range_eq seq_keys_Cons)
qed

text \<open>A clean report covers every anchored window: no row of it is missing at the end.\<close>

lemma verify_clean_covers:
  assumes v: "Verify s worm_All l notaries = Inr (r, s')" "report_OK r" and "t \<in> set (store_Tenants s)"
    and "worm_All t = Inr cps" and "cp \<in> set cps" and "window_ok cp" and "length (rows s t) \<le> 2 ^ 64"
    and "unat (SeqEnd cp) < 2 ^ 63"
  shows "unat (SeqEnd cp) < length (rows s t)"
proof -
  obtain s1 r1 r2 where st: "intact t (sort_key Seq (rows s t))" "rows s1 t = sort_key Seq (rows s t)"
    and vc: "verifyCheckpoints s1 worm_All l (by_name notaries) t r1 = Inr r2" "report_OK r2"
    using verify_tenants_clean [OF v(1) [unfolded Verify_def] v(2) assms(3)] by blast
  have "checkpoint_loop s1 l (by_name notaries) t [] cps r1 = Inr r2"
    using vc(1) assms(4) by (simp add: verifyCheckpoints_def)
  from checkpoint_loop_clean [OF this vc(2) assms(5)] obtain w where
    "store_Range s1 t (SeqStart cp) (SeqEnd cp) = Inr (w, True)" by blast
  then show ?thesis
    using store_Range_intact_window [of s1 t "unat (SeqStart cp)" "unat (SeqEnd cp)" w] st assms(6-8)
    by (simp add: window_ok_def word_le_nat_alt)
qed

definition answers :: "notary \<Rightarrow> bool" where
  "answers n \<longleftrightarrow> (\<forall>p cid. \<exists>r. n_Verify n p cid = Inr r)"

lemma verify_proofs_returns:
  "(\<And>name n. ns name = Some n \<Longrightarrow> answers n) \<Longrightarrow> \<exists>r'. verify_proofs ns t m cid ps r = Inr r'"
proof (induction ps arbitrary: r)
  case (Cons p ps)
  show ?case
  proof (cases "ns (Notary p)")
    case (Some nt)
    then obtain err where "n_Verify nt p cid = Inr err"
      using Cons.prems by (force simp: answers_def)
    with Some Cons show ?thesis by (simp add: Let_def)
  qed (use Cons in simp)
qed simp

lemma checkpoint_loop_returns:
  assumes ns: "\<And>name n. ns name = Some n \<Longrightarrow> answers n"
  shows "list_all window_ok cps \<Longrightarrow> \<exists>r'. checkpoint_loop s l ns t prev cps r = Inr r'"
proof (induction cps arbitrary: prev r)
  case (Cons cp cps)
  then obtain es complete where "store_Range s t (SeqStart cp) (SeqEnd cp) = Inr (es, complete)"
      "es = [] \<longrightarrow> \<not> complete"
    using store_Range_returns [of cp s t] by auto
  then have "\<exists>r'. verify_checkpoint s l ns t prev cp r = Inr r'"
    using Build_Inr [of es t prev "AnchoredAt cp"] verify_proofs_returns [OF ns]
    by (cases complete) (auto simp: verify_checkpoint_def Let_def)
  with Cons show ?case by auto
qed simp

lemma by_name_ran: "by_name notaries name = Some n \<Longrightarrow> n \<in> set notaries"
  unfolding by_name_def by (induction notaries rule: rev_induct) (auto split: if_splits)

lemma Verify_returns:
  assumes "list_all answers notaries"
    and "list_all (\<lambda>t. case worm_All t of Inl _ \<Rightarrow> True | Inr cps \<Rightarrow> list_all window_ok cps) (store_Tenants s)"
  shows "\<exists>r s'. Verify s worm_All ledger notaries = Inr (r, s')"
proof -
  have "\<exists>r' s'. verify_tenants worm_All ledger (by_name notaries) ts s r = Inr (r', s')"
    if "list_all (\<lambda>t. case worm_All t of Inl _ \<Rightarrow> True | Inr cps \<Rightarrow> list_all window_ok cps) ts" for ts s r
    using that
  proof (induction ts arbitrary: s r)
    case (Cons t ts)
    have ns: "answers n" if "by_name notaries name = Some n" for name n
      using by_name_ran [OF that] assms(1) by (simp add: list_all_iff)
    have "\<exists>r''. verifyCheckpoints s' worm_All ledger (by_name notaries) t r' = Inr r''" for s' r'
      using Cons.prems checkpoint_loop_returns [OF ns]
      by (auto simp: verifyCheckpoints_def split: sum.splits)
    then show ?case
      using Cons by (auto simp: bind_res_eq_Inr split: prod.splits) (metis surj_pair)
  qed simp
  with assms(2) show ?thesis by (simp add: Verify_def)
qed

subsection \<open>Properties\<close>

text \<open>
  C7 (internal/verify/verify.go, Verify): a clean report is sound. Take a tenant the report
  covers and a checkpoint in the WORM store that was built from the window \<open>a..b\<close> of the
  tenant's original rows. If \<open>Verify\<close> reports no issue, the stored rows up to \<open>b\<close> agree
  with the original ones in every sequence number, both timestamps, source, raw line and both
  hashes, whoever rewrote the store, its hashes and the proof ledger in between; otherwise the
  inputs hashed in replaying the two histories contain an explicit SHA-256 collision. The
  \<open>TenantID\<close> a row carries is not compared: \<open>Verify\<close> never reads it, but goes by the tenant under
  which the store holds the row.
\<close>

theorem verify_ok_means_history_unaltered:
  assumes "Verify s worm_All ledger notaries = Inr (r, s')" and "report_OK r"
    and "t \<in> set (store_Tenants s)" and "worm_All t = Inr cps" and "cp \<in> set cps"
    and "intact t es" and "a \<le> b" and "b < length es" and "Build t (window es a b) prev at = Inr cp"
    and "sized t" "sized es" "sized prev" "list_all entry_sized es"
    and "sized (rows s t)" "list_all entry_sized (rows s t)" "list_all (\<lambda>c. sized (CheckpointID c)) cps"
  shows "map content (take (Suc b) (sort_key Seq (rows s t))) = map content (take (Suc b) es) \<or>
    (\<exists>prev'\<in>insert [] (CheckpointID ` set cps).
      collides (replay_inputs t (sort_key Seq (rows s t)) a b prev' at) (replay_inputs t es a b prev at))"
  using assms by (rule verify_sound)

text \<open>
  In internal/verify/verify.go, Verify: an honest history verifies. If every tenant's rows are
  an intact chain whose WORM record holds the checkpoints of consecutive windows, and every
  ledger proof of a configured notary attests its checkpoint, then \<open>Verify\<close> returns a report
  without issues whose counters are the number of rows, of checkpoints and of proofs of
  configured notaries. Rows after the last window are free: any intact continuation passes.
\<close>

theorem honest_history_verifies:
  assumes "list_all (tenant_ok (by_name notaries) ledger worm_All s) (store_Tenants s)"
  shows "\<exists>s'. Verify s worm_All ledger notaries =
    Inr (\<lparr>Issues = [],
           EntriesChecked = sum_list (map (\<lambda>t. length (rows s t)) (store_Tenants s)),
           CheckpointsSeen = sum_list (map (\<lambda>t. length (projr (worm_All t))) (store_Tenants s)),
           ProofsChecked = sum_list (map (\<lambda>t. checked_proofs (by_name notaries) ledger t (projr (worm_All t)))
             (store_Tenants s))\<rparr>, s')"
  using verify_tenants_genuine [OF assms, of empty_report]
  by (simp add: Verify_def clean_report_def empty_report_def)

text \<open>
  C24 (internal/verify/verify.go, Verify): verification always returns a report. It neither
  panics nor loops, whatever the stored rows and the ledger hold, as long as no anchored window
  is empty, ends at the largest \<open>uint64\<close> or is too large to allocate, and the notaries return.
\<close>

theorem verify_always_reports:
  assumes "list_all answers notaries"
    and "list_all (\<lambda>t. case worm_All t of Inl _ \<Rightarrow> True | Inr cps \<Rightarrow> list_all window_ok cps) (store_Tenants s)"
  shows "\<exists>r s'. Verify s worm_All ledger notaries = Inr (r, s')"
  using assms by (rule Verify_returns)

text \<open>
  C17 (internal/verify/verify.go, verifyChain): the chain check pinpoints the first bad row. If
  the rows, sorted by sequence number, are linked up to a row that does not continue the chain,
  exactly one issue is added, at the sequence number expected there; its kind says what the row
  got wrong first: its number, its link, or its hash. If all rows are linked, no issue is added.
\<close>

theorem chain_check_pinpoints_first_bad_row:
  "let es = sort_key Seq (rows s t); r' = fst (verifyChain t s r)
   in if intact t es then r' = r\<lparr>EntriesChecked := EntriesChecked r + length es\<rparr>
      else \<exists>xs e ys. es = xs @ e # ys \<and> intact t xs \<and>
        Issues r' = Issues r @ [chain_issue t (tip (Genesis t) xs) (of_nat (length xs)) e] \<and>
        EntriesChecked r' = EntriesChecked r + Suc (length xs) \<and>
        \<not> (Seq e = of_nat (length xs) \<and> PrevHash e = tip (Genesis t) xs \<and>
            EntryHash e = ChainHash (tip (Genesis t) xs) (leaf_of t e))"
proof (cases "intact t (sort_key Seq (rows s t))")
  case False
  from not_links_split [OF this] obtain xs e ys where split: "sort_key Seq (rows s t) = xs @ e # ys"
      "intact t xs" "\<not> links t (tip (Genesis t) xs) (0 + of_nat (length xs)) [e]"
    by blast
  from chain_loop_split [OF split(2,3), of ys r] have
    "fst (verifyChain t s r) = add_issue (chain_issue t (tip (Genesis t) xs) (of_nat (length xs)) e)
      (r\<lparr>EntriesChecked := EntriesChecked r + Suc (length xs)\<rparr>)"
    by (simp add: fst_verifyChain split(1))
  with False split show ?thesis
    by (simp add: add_issue_def Let_def) blast
qed (simp add: fst_verifyChain chain_loop_links)

lemma edit_in_place:
  assumes "intact t es" and "length es \<le> 2 ^ 64" and "i < length es"
    and "Seq e = Seq (es ! i)" "PrevHash e = PrevHash (es ! i)" "EntryHash e = EntryHash (es ! i)"
    and "content e \<noteq> content (es ! i)"
    and "sized t" "entry_sized e" "list_all entry_sized es"
  shows "sort_key Seq (es[i := e]) = take i es @ e # drop (Suc i) es" (is ?sort)
    and "\<not> links t (tip (Genesis t) (take i es)) (of_nat i) [e] \<or>
      collides [leaf_input t e, PrevHash e @ leaf_of t e] [leaf_input t (es ! i), PrevHash e @ leaf_of t (es ! i)]"
      (is ?link)
    and "chain_issue t (tip (Genesis t) (take i es)) (of_nat i) e =
      \<lparr>Tenant = t, IssueSeq = of_nat i, HasSeq = True, Kind = ''entry-tamper'',
       Detail = ''stored entry_hash does not match the entry contents''\<rparr>" (is ?issue)
proof -
  have upd: "es[i := e] = take i es @ e # drop (Suc i) es"
    by (rule upd_conv_take_nth_drop) (rule assms(3))
  have "map Seq (es[i := e]) = map Seq es"
    using assms(3,4) by (simp add: map_update) (metis list_update_id nth_map)
  then show ?sort
    using assms(1,2) by (simp add: upd [symmetric] sort_key_sorted intact_Seq sorted_of_nat_u64)
  have "links t (Genesis t) 0 (take i es @ es ! i # drop (Suc i) es)"
    using assms(1,3) by (simp add: id_take_nth_drop [symmetric])
  then have ei: "Seq (es ! i) = of_nat i" "PrevHash (es ! i) = tip (Genesis t) (take i es)"
      "EntryHash (es ! i) = ChainHash (PrevHash (es ! i)) (leaf_of t (es ! i))"
      and pre: "intact t (take i es)"
    using assms(3) by auto
  then show ?issue
    using assms(4,5) by (simp add: chain_issue_def)
  have p: "length (PrevHash e) = 32"
    using ei(2) assms(5) links_length_hash [OF pre] by simp
  show ?link
  proof (cases "ChainHash (PrevHash e) (leaf_of t e) = ChainHash (PrevHash e) (leaf_of t (es ! i))")
    case True
    then have "leaf_of t e = leaf_of t (es ! i) \<or>
        collides [PrevHash e @ leaf_of t e] [PrevHash e @ leaf_of t (es ! i)]"
      using chain_hash_binding [OF True p p] by simp
    moreover have "entry_sized (es ! i)"
      using assms(3,10) by (simp add: list_all_length)
    ultimately show ?thesis
      using leaf_of_binding [of t e "es ! i"] assms(4-9)
      by (auto simp: content_def intro: collides_intros)
  next
    case False
    then show ?thesis
      using ei assms(5,6) by simp
  qed
qed

text \<open>
  In internal/verify/verify.go, verifyChain: an edit in place is caught. Replace any row of an
  intact chain by one that keeps the sequence number and the two stored hashes and changes the
  timestamps, the source or the line: the check reports one issue, an \<open>entry-tamper\<close> at that
  row, or the two rows are an explicit SHA-256 collision.
\<close>

theorem edit_in_place_is_reported:
  assumes "rows s t = es[i := e]" and "intact t es" and "length es \<le> 2 ^ 64" and "i < length es"
    and "Seq e = Seq (es ! i)" "PrevHash e = PrevHash (es ! i)" "EntryHash e = EntryHash (es ! i)"
    and "content e \<noteq> content (es ! i)"
    and "sized t" "entry_sized e" "list_all entry_sized es"
  shows "Issues (fst (verifyChain t s r)) = Issues r @
      [\<lparr>Tenant = t, IssueSeq = of_nat i, HasSeq = True, Kind = ''entry-tamper'',
        Detail = ''stored entry_hash does not match the entry contents''\<rparr>] \<or>
    collides [leaf_input t e, PrevHash e @ leaf_of t e] [leaf_input t (es ! i), PrevHash e @ leaf_of t (es ! i)]"
proof -
  note e = edit_in_place [OF assms(2-11)]
  show ?thesis
  proof (cases "links t (tip (Genesis t) (take i es)) (of_nat i) [e]")
    case True
    with e(2) show ?thesis by blast
  next
    case False
    then show ?thesis
      using chain_loop_split [of t "Genesis t" 0 "take i es" e "drop (Suc i) es" r]
        links_take [OF assms(2), of i] assms(1,4) e(1,3)
      by (simp add: fst_verifyChain del: links.simps)
  qed
qed

text \<open>
  In internal/verify/verify.go, verifyCheckpoints: truncation is caught and located. If the
  stored chain is intact but stops before the end of an anchored window, the checkpoint adds
  exactly one issue, a \<open>truncation\<close> at the first sequence number of the window that is missing,
  and neither the checkpoint id nor the proofs are looked at.
\<close>

theorem truncation_is_located:
  assumes "intact t (rows s t)" and "length (rows s t) \<le> unat (SeqEnd cp)" and "window_ok cp"
  shows "let missing = of_nat (max (unat (SeqStart cp)) (length (rows s t)))
    in verify_checkpoint s ledger notaries t prev cp r =
      Inr (add_issue \<lparr>Tenant = t, IssueSeq = missing, HasSeq = True, Kind = ''truncation'',
             Detail = ''checkpoint committed entries '' @ dec (unat (SeqStart cp)) @ ''..'' @
               dec (unat (SeqEnd cp)) @ '' ('' @ dec (unat (EntryCount cp)) @ '' total) but seq '' @
               dec (unat missing) @ '' is missing from the store''\<rparr>
           (r\<lparr>CheckpointsSeen := CheckpointsSeen r + 1\<rparr>))"
proof -
  let ?es = "rows s t" and ?a = "unat (SeqStart cp)" and ?b = "unat (SeqEnd cp)"
  have w: "SeqStart cp \<le> SeqEnd cp" "SeqEnd cp \<noteq> - 1"
    using assms(3) by (simp_all add: window_ok_def)
  have "\<not> make_panics 8 (SeqEnd cp - SeqStart cp + 1)"
    using unat_window [OF w] assms(3) by (simp add: make_panics_def window_ok_def)
  moreover have "length ?es \<le> 2 ^ 64"
    using assms(2) unsigned_less [of "SeqEnd cp", where ?'a = nat] by simp
  ultimately have range: "store_Range s t (SeqStart cp) (SeqEnd cp) =
      Inr (take (Suc ?b - ?a) (drop ?a ?es), False)"
    using store_Range_slice [OF byseq_intact [OF assms(1)] w(2), of "SeqStart cp"] w(1) assms(2) by simp
  have "length (take (Suc ?b - ?a) (drop ?a ?es)) = length ?es - ?a"
    using assms(2) by simp
  moreover have "SeqStart cp + of_nat (length ?es - ?a) = of_nat (max ?a (length ?es))"
    by (cases "?a \<le> length ?es") (simp_all add: max_def of_nat_diff)
  ultimately show ?thesis
    by (simp add: verify_checkpoint_def range Let_def)
qed

subsection \<open>Witnesses\<close>

text \<open>The store sealed in \<open>Chain\<close>, with its first tenant anchored.\<close>

definition demo_worm :: "string \<Rightarrow> error + checkpoint list" where
  "demo_worm t = Inr (if t = ''acme'' then [demo_checkpoint] else [])"

lemma demo_rows_any:
  "intact t (rows demo_rows t)" "length (rows demo_rows t) < 2 ^ 45" "sized (rows demo_rows t)"
proof -
  show "intact t (rows demo_rows t)"
    unfolding demo_rows_def using sealed_rows_ok head_ok_def by blast
  have "length (rows demo_rows t) = length (map line_of (rows demo_rows t))" by simp
  also have "\<dots> \<le> 3"
    unfolding demo_rows_def sealed_rows_lines by (simp add: tenant_lines_def)
  finally show "length (rows demo_rows t) < 2 ^ 45" "sized (rows demo_rows t)"
    by (simp_all add: sized_def)
qed

lemma demo_rows_sorted: "sort_key Seq (rows demo_rows t) = rows demo_rows t"
  using demo_rows_any(1,3) [of t] by (intro intact_sorted) (auto simp: sized_def)

lemma demo_tenant_ok: "tenant_ok ns NewProofLedger demo_worm demo_rows t"
proof -
  have "Build ''acme'' (rows demo_rows ''acme'') [] (AnchoredAt demo_checkpoint) = Inr demo_checkpoint"
    using demo_checkpoint Build_fields(9) [OF demo_checkpoint] by simp
  moreover have "unat (EntryCount demo_checkpoint) = length (rows demo_rows ''acme'')"
    using Build_fields(5) [OF demo_checkpoint] by (simp add: demo_rows_acme(3))
  ultimately show ?thesis
    using demo_rows_any(2)
    by (simp add: tenant_ok_def demo_worm_def demo_rows_sorted demo_rows_any(1) genuine_def Let_def)
qed

lemma demo_rows_acme_listed: "''acme'' \<in> set (store_Tenants demo_rows)"
proof -
  have "map_of (entries demo_rows) ''acme'' \<noteq> None"
    using demo_rows_acme(3) by (auto simp: rows_def get_or_def split: option.splits)
  then show ?thesis
    by (simp add: store_Tenants_def map_of_None_keys)
qed

lemma demo_verifies:
  "\<exists>s'. Verify demo_rows demo_worm NewProofLedger [] =
    Inr (clean_report (by_name []) NewProofLedger demo_worm demo_rows (store_Tenants demo_rows) empty_report, s')"
  unfolding Verify_def by (rule verify_tenants_genuine) (simp add: list_all_iff demo_tenant_ok)

theorem honest_history_verifies_witness:
  "\<exists>s'. Verify demo_rows demo_worm NewProofLedger [] =
    Inr (\<lparr>Issues = [],
           EntriesChecked = sum_list (map (\<lambda>t. length (rows demo_rows t)) (store_Tenants demo_rows)),
           CheckpointsSeen = sum_list (map (\<lambda>t. length (projr (demo_worm t))) (store_Tenants demo_rows)),
           ProofsChecked = sum_list (map (\<lambda>t. checked_proofs (by_name []) NewProofLedger t (projr (demo_worm t)))
             (store_Tenants demo_rows))\<rparr>, s')"
  by (rule honest_history_verifies) (simp add: list_all_iff demo_tenant_ok)

theorem verify_ok_means_history_unaltered_witness:
  "let es = rows demo_rows ''acme''
   in map content (take (Suc 1) (sort_key Seq es)) = map content (take (Suc 1) es) \<or>
      (\<exists>prev'\<in>insert [] (CheckpointID ` set [demo_checkpoint]).
        collides (replay_inputs ''acme'' (sort_key Seq es) 0 1 prev' 1) (replay_inputs ''acme'' es 0 1 [] 1))"
proof -
  let ?r = "clean_report (by_name []) NewProofLedger demo_worm demo_rows (store_Tenants demo_rows) empty_report"
  obtain s' where v: "Verify demo_rows demo_worm NewProofLedger [] = Inr (?r, s')"
    using demo_verifies ..
  have ok: "report_OK ?r"
    by (simp add: report_OK_def clean_report_def empty_report_def)
  have cp: "Build ''acme'' (window (rows demo_rows ''acme'') 0 1) [] 1 = Inr demo_checkpoint"
    using demo_checkpoint by (simp add: window_def demo_rows_acme(3))
  show ?thesis
    unfolding Let_def
    by (rule verify_ok_means_history_unaltered [OF v ok demo_rows_acme_listed _ _ demo_rows_acme(1) _ _ cp])
      (simp_all add: demo_worm_def demo_rows_acme(3) demo_rows_any demo_rows_sized sized_def
        Build_fields(11) [OF demo_checkpoint])
qed

theorem verify_always_reports_witness:
  "\<exists>r s'. Verify demo_rows demo_worm NewProofLedger [mock_iface (NewMockNotary ''TSA'' ''k'')] = Inr (r, s')"
proof (rule verify_always_reports)
  show "list_all answers [mock_iface (NewMockNotary ''TSA'' ''k'')]"
    by (simp add: answers_def mock_iface_def mock_Verify_def)
  show "list_all (\<lambda>t. case demo_worm t of Inl _ \<Rightarrow> True | Inr cps \<Rightarrow> list_all window_ok cps)
      (store_Tenants demo_rows)"
    by (simp add: demo_worm_def list_all_iff window_ok_def demo_checkpoint_fields)
qed

definition edited_entry :: entry where
  "edited_entry = (rows demo_rows ''acme'' ! 0)\<lparr>Raw := ''LINE''\<rparr>"

definition edited_rows :: store where
  "edited_rows = \<lparr>entries = [(''acme'', (rows demo_rows ''acme'')[0 := edited_entry])]\<rparr>"

theorem edit_in_place_is_reported_witness:
  "Issues (fst (verifyChain ''acme'' edited_rows empty_report)) = Issues empty_report @
      [\<lparr>Tenant = ''acme'', IssueSeq = of_nat 0, HasSeq = True, Kind = ''entry-tamper'',
        Detail = ''stored entry_hash does not match the entry contents''\<rparr>] \<or>
    collides [leaf_input ''acme'' edited_entry, PrevHash edited_entry @ leaf_of ''acme'' edited_entry]
      [leaf_input ''acme'' (rows demo_rows ''acme'' ! 0),
       PrevHash edited_entry @ leaf_of ''acme'' (rows demo_rows ''acme'' ! 0)]"
proof -
  have raw: "Raw (rows demo_rows ''acme'' ! 0) = ''line''" "Source (rows demo_rows ''acme'' ! 0) = ''api''"
    using demo_rows_acme(2) by (auto simp: map_eq_Cons_conv line_of_def)
  have "rows edited_rows ''acme'' = (rows demo_rows ''acme'')[0 := edited_entry]"
    by (simp add: edited_rows_def rows_def get_or_def)
  then show ?thesis
    by (rule edit_in_place_is_reported)
      (simp_all add: demo_rows_acme edited_entry_def content_def raw entry_sized_def sized_def demo_rows_sized)
qed

definition long_checkpoint :: checkpoint where
  "long_checkpoint = demo_checkpoint\<lparr>SeqEnd := 9, EntryCount := 10\<rparr>"

theorem truncation_is_located_witness:
  "let missing = of_nat (max (unat (SeqStart long_checkpoint)) (length (rows demo_rows ''acme'')))
    in verify_checkpoint demo_rows NewProofLedger (by_name []) ''acme'' [] long_checkpoint empty_report =
      Inr (add_issue \<lparr>Tenant = ''acme'', IssueSeq = missing, HasSeq = True, Kind = ''truncation'',
             Detail = ''checkpoint committed entries '' @ dec (unat (SeqStart long_checkpoint)) @ ''..'' @
               dec (unat (SeqEnd long_checkpoint)) @ '' ('' @ dec (unat (EntryCount long_checkpoint)) @
               '' total) but seq '' @ dec (unat missing) @ '' is missing from the store''\<rparr>
           (empty_report\<lparr>CheckpointsSeen := CheckpointsSeen empty_report + 1\<rparr>))"
  by (rule truncation_is_located)
    (simp_all add: demo_rows_acme long_checkpoint_def window_ok_def demo_checkpoint_fields)

end
