(* ===== verification/Ingest_Sealer.thy ===== *)
theory Ingest_Sealer
  imports Log_Store Verify
begin

section \<open>The persistent sealer (internal/ingest/sealer.go)\<close>

text \<open>
  \<open>SealBatch\<close> over any log store. The interface \<open>LogStore\<close> is the locale \<open>log_store\<close>: what
  \<open>Head\<close> says of an intact chain, and that \<open>Append\<close> either appends and succeeds or fails and
  writes nothing. Its client lemmas show that sealing keeps every tenant's chain intact, whether
  writes fail, and across restarts of the sealer. The ClickHouse store of \<open>Log_Store\<close> provides
  the contract for writes whose fate is acknowledged; what happens when it is not is proved at
  the end.
\<close>

record record_in =
  r_Source :: string
  r_Raw :: string
  r_EventTime :: i64
  r_IngestTime :: i64

record head_state =
  hs_nextSeq :: u64
  hs_prevHash :: bytes

type_synonym sealer_heads = "(string \<times> head_state) list"

fun seal_records :: "string \<Rightarrow> u64 \<Rightarrow> bytes \<Rightarrow> record_in list \<Rightarrow> entry list \<times> u64 \<times> bytes" where
  "seal_records tenantID seq prev [] = ([], seq, prev)"
| "seal_records tenantID seq prev (r # rs) =
     (let leaf = EntryLeaf tenantID seq (r_EventTime r) (r_IngestTime r) (r_Source r) (r_Raw r);
          entryHash = ChainHash prev leaf;
          e = \<lparr>TenantID = tenantID, Seq = seq, EventTime = r_EventTime r, IngestTime = r_IngestTime r,
               Source = r_Source r, Raw = r_Raw r, PrevHash = prev, EntryHash = entryHash\<rparr>
      in case seal_records tenantID (seq + 1) entryHash rs of (es, seq', prev') \<Rightarrow> (e # es, seq', prev'))"

text \<open>
  \<open>get_head\<close> and \<open>put_rows\<close> are the store's methods; the state is the store's and the map of heads.
  A head read from the store is cached before the write, and advanced only after it.
\<close>

definition SealBatch ::
    "(string \<Rightarrow> 's \<Rightarrow> error + u64 \<times> bytes) \<Rightarrow> (entry list \<Rightarrow> 's \<Rightarrow> error option \<times> 's) \<Rightarrow>
      string \<Rightarrow> record_in list \<Rightarrow> sealer_heads \<times> 's \<Rightarrow> (error + entry list) \<times> sealer_heads \<times> 's"
where
  "SealBatch get_head put_rows tenantID recs st =
     (case st of (hm, s) \<Rightarrow>
        (case (case map_of hm tenantID of
                 Some h \<Rightarrow> Inr h
               | None \<Rightarrow>
                   bind_res (get_head tenantID s) (\<lambda>(nextSeq, prevHash).
                     Inr \<lparr>hs_nextSeq = nextSeq, hs_prevHash = prevHash\<rparr>)) of
           Inl err \<Rightarrow> (Inl err, hm, s)
         | Inr h \<Rightarrow>
             (let hm = AList.update tenantID h hm
              in case seal_records tenantID (hs_nextSeq h) (hs_prevHash h) recs of
                   (es, seq, prev) \<Rightarrow>
                     (case put_rows es s of
                        (Some err, s) \<Rightarrow> (Inl err, hm, s)
                      | (None, s) \<Rightarrow>
                          (Inr es, AList.update tenantID \<lparr>hs_nextSeq = seq, hs_prevHash = prev\<rparr> hm, s)))))"

subsection \<open>What is sealed\<close>

definition line_in :: "record_in \<Rightarrow> string \<times> string \<times> i64 \<times> i64" where
  "line_in r = (r_Source r, r_Raw r, r_EventTime r, r_IngestTime r)"

lemma seal_records_spec:
  "seal_records t n p rs = (es, n', p') \<Longrightarrow>
    links t p n es \<and> n' = n + of_nat (length rs) \<and> p' = tip p es \<and> length es = length rs \<and>
    map line_of es = map line_in rs \<and> list_all (\<lambda>e. TenantID e = t) es"
proof (induction rs arbitrary: n p es n' p')
  case (Cons r rs)
  define h where "h = ChainHash p (EntryLeaf t n (r_EventTime r) (r_IngestTime r) (r_Source r) (r_Raw r))"
  obtain fs m q where rest: "seal_records t (n + 1) h rs = (fs, m, q)"
    by (cases "seal_records t (n + 1) h rs") auto
  from Cons.IH [OF this] Cons.prems rest show ?case
    by (auto simp: Let_def line_of_def line_in_def leaf_of_def h_def [symmetric] algebra_simps)
qed simp

subsection \<open>The contract of a log store\<close>

locale log_store =
  fixes get_head :: "string \<Rightarrow> 's \<Rightarrow> error + u64 \<times> bytes"
    and put_rows :: "entry list \<Rightarrow> 's \<Rightarrow> error option \<times> 's"
    and rows_of :: "'s \<Rightarrow> string \<Rightarrow> entry list"
    and inv :: "'s \<Rightarrow> bool"
  assumes head_intact: "inv s \<Longrightarrow> intact t (rows_of s t) \<Longrightarrow> get_head t s = Inr h \<Longrightarrow>
      h = (of_nat (length (rows_of s t)), tip (Genesis t) (rows_of s t))"
    and append_ok: "inv s \<Longrightarrow> list_all (\<lambda>e. TenantID e = t) es \<Longrightarrow> intact t (rows_of s t @ es) \<Longrightarrow>
      length (rows_of s t @ es) \<le> 2 ^ 64 \<Longrightarrow> put_rows es s = (None, s') \<Longrightarrow>
      inv s' \<and> rows_of s' u = (if u = t then rows_of s t @ es else rows_of s u)"
    and append_failed: "inv s \<Longrightarrow> put_rows es s = (Some err, s') \<Longrightarrow> s' = s"
begin

text \<open>Every tenant's rows are an intact chain, and a cached head is the chain's own.\<close>

definition sealed_ok :: "sealer_heads \<times> 's \<Rightarrow> bool" where
  "sealed_ok st \<longleftrightarrow> inv (snd st) \<and>
     (\<forall>t. intact t (rows_of (snd st) t) \<and>
       (\<forall>h. map_of (fst st) t = Some h \<longrightarrow>
         hs_nextSeq h = of_nat (length (rows_of (snd st) t)) \<and> hs_prevHash h = tip (Genesis t) (rows_of (snd st) t)))"

lemma sealed_ok_intact: "sealed_ok (hm, s) \<Longrightarrow> intact t (rows_of s t)"
  by (simp add: sealed_ok_def)

lemma sealed_ok_restart: "sealed_ok (hm, s) \<Longrightarrow> sealed_ok ([], s)"
  by (simp add: sealed_ok_def)

lemma sealed_ok_update:
  "sealed_ok (hm, s) \<Longrightarrow>
    h = \<lparr>hs_nextSeq = of_nat (length (rows_of s t)), hs_prevHash = tip (Genesis t) (rows_of s t)\<rparr> \<Longrightarrow>
    sealed_ok (AList.update t h hm, s)"
  by (auto simp: sealed_ok_def update_conv')

lemma SealBatch_cases:
  assumes "sealed_ok (hm, s)" and "SealBatch get_head put_rows t recs (hm, s) = (r, hm', s')"
  obtains (no_head) err where "r = Inl err" "hm' = hm" "s' = s"
    | (sealed) h es n p where
      "h = \<lparr>hs_nextSeq = of_nat (length (rows_of s t)), hs_prevHash = tip (Genesis t) (rows_of s t)\<rparr>"
      "seal_records t (hs_nextSeq h) (hs_prevHash h) recs = (es, n, p)"
      "(\<exists>err. r = Inl err \<and> put_rows es s = (Some err, s') \<and> hm' = AList.update t h hm) \<or>
       r = Inr es \<and> put_rows es s = (None, s') \<and>
         hm' = AList.update t \<lparr>hs_nextSeq = n, hs_prevHash = p\<rparr> (AList.update t h hm)"
proof -
  let ?h = "case map_of hm t of
      Some h \<Rightarrow> Inr h
    | None \<Rightarrow> bind_res (get_head t s) (\<lambda>(nextSeq, prevHash). Inr \<lparr>hs_nextSeq = nextSeq, hs_prevHash = prevHash\<rparr>)"
  show thesis
  proof (cases ?h)
    case (Inl err)
    with assms(2) have "r = Inl err \<and> hm' = hm \<and> s' = s"
      by (auto simp: SealBatch_def)
    then show thesis by (elim conjE) (rule no_head)
  next
    case (Inr h)
    have h: "h = \<lparr>hs_nextSeq = of_nat (length (rows_of s t)), hs_prevHash = tip (Genesis t) (rows_of s t)\<rparr>"
    proof (cases "map_of hm t")
      case None
      then obtain x where "get_head t s = Inr x" "h = \<lparr>hs_nextSeq = fst x, hs_prevHash = snd x\<rparr>"
        using Inr by (auto simp: bind_res_eq_Inr)
      then show ?thesis
        using head_intact [of s t x] assms(1) by (simp add: sealed_ok_def)
    next
      case (Some g)
      then have "h = g" using Inr by simp
      then show ?thesis
        using assms(1) Some by (simp add: sealed_ok_def)
    qed
    obtain es n p where sr: "seal_records t (hs_nextSeq h) (hs_prevHash h) recs = (es, n, p)"
      by (cases "seal_records t (hs_nextSeq h) (hs_prevHash h) recs") auto
    show thesis
    proof (rule sealed [OF h sr])
      show "(\<exists>err. r = Inl err \<and> put_rows es s = (Some err, s') \<and> hm' = AList.update t h hm) \<or>
          r = Inr es \<and> put_rows es s = (None, s') \<and>
            hm' = AList.update t \<lparr>hs_nextSeq = n, hs_prevHash = p\<rparr> (AList.update t h hm)"
        using assms(2) Inr sr by (auto simp: SealBatch_def Let_def split: prod.splits option.splits)
    qed
  qed
qed

lemma SealBatch_ok:
  assumes ok: "sealed_ok (hm, s)" and batch: "SealBatch get_head put_rows t recs (hm, s) = (r, hm', s')"
    and small: "length (rows_of s t) + length recs \<le> 2 ^ 64"
  shows "sealed_ok (hm', s')"
    and "rows_of s' u = (if u = t then rows_of s t @ (case r of Inl _ \<Rightarrow> [] | Inr es \<Rightarrow> es) else rows_of s u)"
    and "(case r of Inl _ \<Rightarrow> True | Inr es \<Rightarrow> map line_of es = map line_in recs)"
proof -
  have "sealed_ok (hm', s') \<and>
    (\<forall>u. rows_of s' u = (if u = t then rows_of s t @ (case r of Inl _ \<Rightarrow> [] | Inr es \<Rightarrow> es) else rows_of s u)) \<and>
    (case r of Inl _ \<Rightarrow> True | Inr es \<Rightarrow> map line_of es = map line_in recs)"
    using ok batch
  proof (cases rule: SealBatch_cases)
    case no_head
    with ok show ?thesis by simp
  next
    case (sealed h es n p)
    have inv: "inv s" using ok by (simp add: sealed_ok_def)
    note spec = seal_records_spec [OF sealed(2)]
    have intact: "intact t (rows_of s t @ es)" and len: "length (rows_of s t @ es) \<le> 2 ^ 64"
      using spec sealed(1) sealed_ok_intact [OF ok] small by simp_all
    note cached = sealed_ok_update [OF ok sealed(1)]
    from sealed(3) show ?thesis
    proof (elim disjE exE conjE)
      fix err assume "r = Inl err" "put_rows es s = (Some err, s')" "hm' = AList.update t h hm"
      then show ?thesis
        using append_failed [OF inv] cached by fastforce
    next
      assume r: "r = Inr es" "put_rows es s = (None, s')"
        and hm': "hm' = AList.update t \<lparr>hs_nextSeq = n, hs_prevHash = p\<rparr> (AList.update t h hm)"
      have s': "inv s'" "\<And>u. rows_of s' u = (if u = t then rows_of s t @ es else rows_of s u)"
        using append_ok [OF inv _ intact len r(2)] spec by auto
      have "sealed_ok (hm', s')"
        using cached s' intact spec sealed(1) unfolding hm' sealed_ok_def
        by (auto simp: update_conv')
      then show ?thesis
        using s'(2) r(1) spec by simp
    qed
  qed
  then show "sealed_ok (hm', s')"
    and "rows_of s' u = (if u = t then rows_of s t @ (case r of Inl _ \<Rightarrow> [] | Inr es \<Rightarrow> es) else rows_of s u)"
    and "(case r of Inl _ \<Rightarrow> True | Inr es \<Rightarrow> map line_of es = map line_in recs)"
    by simp_all
qed

end

interpretation ch: log_store "ch_Head fail" "ch_Append (Ack r)" ch_entries ch_wf for fail r
proof (unfold_locales, goal_cases)
  case (1 s t h)
  then show ?case
    using ch_Head_intact [of s t] by (cases fail) (auto simp: ch_Head_def)
next
  case (2 s t es s' u)
  show ?case
  proof (cases "es = []")
    case False
    with 2 have "s' = s @ map to_row es"
      by (cases r) (auto simp: ch_Append_def)
    with 2 show ?thesis
      by (simp only: ch_wf_append ch_Append_intact simp_thms)
  qed (use 2 in \<open>auto simp: ch_Append_def\<close>)
next
  case (3 s es err s')
  then show ?case
    by (cases r) (auto simp: ch_Append_def split: if_splits)
qed

subsection \<open>Runs of the gateway\<close>

text \<open>
  The states the gateway's sealer and the ClickHouse table reach, with the batches whose
  \<open>SealBatch\<close> succeeded, in order: batches for any tenant in any order, reads and writes that
  fail, restarts that lose the cached heads. A batch comes from one request body of at most
  \<open>16 << 20\<close> bytes, so it has at most \<open>2^24\<close> records.
\<close>

inductive ingest_run :: "sealer_heads \<times> ch_table \<Rightarrow> (string \<times> record_in list) list \<Rightarrow> bool" where
  ingest_start: "ingest_run ([], []) []"
| ingest_restart: "ingest_run (hm, tbl) log \<Longrightarrow> ingest_run ([], tbl) log"
| ingest_batch: "ingest_run (hm, tbl) log \<Longrightarrow> length recs \<le> 2 ^ 24 \<Longrightarrow>
    SealBatch (ch_Head fail) (ch_Append (Ack ack)) t recs (hm, tbl) = (r, hm', tbl') \<Longrightarrow>
    ingest_run (hm', tbl') (case r of Inl _ \<Rightarrow> log | Inr _ \<Rightarrow> log @ [(t, recs)])"

inductive_cases ingest_runE: "ingest_run (hm, tbl) log"

definition batch_lines :: "string \<Rightarrow> (string \<times> record_in list) list \<Rightarrow> (string \<times> string \<times> i64 \<times> i64) list" where
  "batch_lines t log = concat (map (\<lambda>(u, recs). if u = t then map line_in recs else []) log)"

definition log_size :: "(string \<times> record_in list) list \<Rightarrow> nat" where
  "log_size log = sum_list (map (\<lambda>(u, recs). length recs) log)"

lemma batch_lines_append: "batch_lines t (xs @ ys) = batch_lines t xs @ batch_lines t ys"
  by (simp add: batch_lines_def)

lemma log_size_append: "log_size (xs @ ys) = log_size xs + log_size ys"
  by (simp add: log_size_def)

lemma length_batch_lines: "length (batch_lines t log) \<le> log_size log"
  by (induction log) (auto simp: batch_lines_def log_size_def)

lemma ingest_run_ok:
  "ingest_run st log \<Longrightarrow> log_size log \<le> 2 ^ 63 \<Longrightarrow>
    ch.sealed_ok st \<and> (\<forall>t. map line_of (ch_entries (snd st) t) = batch_lines t log)"
proof (induction rule: ingest_run.induct)
  case ingest_start
  show ?case
    by (simp add: ch.sealed_ok_def ch_wf_Nil batch_lines_def)
next
  case (ingest_restart hm tbl log)
  then show ?case
    using ch.sealed_ok_restart by auto
next
  case (ingest_batch hm tbl log recs fail ack t r hm' tbl')
  have "log_size log \<le> 2 ^ 63"
    using ingest_batch.prems by (auto simp: log_size_append split: sum.splits)
  then have ok: "ch.sealed_ok (hm, tbl)" and lines: "map line_of (ch_entries tbl u) = batch_lines u log"
    and size: "log_size log \<le> 2 ^ 63" for u
    using ingest_batch.IH by auto
  have "length (ch_entries tbl t) \<le> log_size log"
    using length_batch_lines [of t log] arg_cong [OF lines [of t], of length] by simp
  then have small: "length (ch_entries tbl t) + length recs \<le> 2 ^ 64"
    using size ingest_batch.hyps(2) by simp
  note batch = ch.SealBatch_ok [OF ok ingest_batch.hyps(3) small]
  have "map line_of (ch_entries tbl' u) = batch_lines u (case r of Inl _ \<Rightarrow> log | Inr _ \<Rightarrow> log @ [(t, recs)])" for u
    using batch(2) [of u] batch(3) lines [of u]
    by (auto simp: batch_lines_append split: sum.splits) (simp_all add: batch_lines_def)
  with batch(1) show ?case by simp
qed

lemma ingest_run_length:
  "ingest_run (hm, tbl) log \<Longrightarrow> log_size log \<le> 2 ^ 63 \<Longrightarrow> length (ch_entries tbl t) \<le> log_size log"
  using ingest_run_ok [of "(hm, tbl)" log] length_batch_lines [of t log] by (metis length_map snd_conv)

subsection \<open>Properties\<close>

text \<open>
  C6 (internal/ingest/sealer.go, SealBatch over internal/logstore/clickhouse.go): the persisted
  chain refines the log of acknowledged batches. In every state reached by batches of any
  tenants, failing reads, restarts, and writes that ClickHouse either acknowledges or refuses, each
  tenant's rows carry exactly the lines of its successful batches, in order, and form a hash chain
  numbered from 0. (A write that ClickHouse applies without the sealer being told is outside these
  states; another property shows that it breaks the chain.)
\<close>

theorem ingest_refines_acknowledged_log:
  assumes "ingest_run (hm, tbl) log" and "log_size log \<le> 2 ^ 63"
  shows "map line_of (ch_entries tbl t) = batch_lines t log \<and> intact t (ch_entries tbl t) \<and>
    map Seq (ch_entries tbl t) = map of_nat [0..<length (ch_entries tbl t)]"
proof -
  have "intact t (ch_entries tbl t)" "map line_of (ch_entries tbl t) = batch_lines t log"
    using ingest_run_ok [OF assms] by (auto simp: ch.sealed_ok_def)
  then show ?thesis
    using intact_Seq by blast
qed

text \<open>A write of unknown fate leaves the table as an acknowledged one does; only the caller differs.\<close>

lemma SealBatch_unacknowledged:
  assumes "SealBatch get_head (ch_Append (Unacknowledged err)) t recs st = (r, hm', tbl')"
  obtains r0 hm0 where "SealBatch get_head (ch_Append (Ack None)) t recs st = (r0, hm0, tbl')"
    "case r0 of Inl e \<Rightarrow> r = Inl e \<and> hm' = hm0 | Inr es \<Rightarrow> es = [] \<or> r = Inl err"
  using assms by (auto simp: SealBatch_def ch_Append_def Let_def split: prod.splits sum.splits if_splits)

lemma SealBatch_cached:
  assumes ok: "ch.sealed_ok (hm, tbl)"
    and first: "SealBatch (ch_Head None) (ch_Append (Unacknowledged err)) t recs (hm, tbl) = (r, hm', tbl')"
    and "recs \<noteq> []"
  obtains n p es m q where "r = Inl err" "map_of hm' t = Some \<lparr>hs_nextSeq = n, hs_prevHash = p\<rparr>"
    "seal_records t n p recs = (es, m, q)" "tbl' = tbl @ map to_row es"
proof -
  have h: "ch_wf tbl" "intact t (ch_entries tbl t)"
    using ok by (simp_all add: ch.sealed_ok_def)
  obtain n p where np: "(case map_of hm t of Some h \<Rightarrow> Inr h
      | None \<Rightarrow> bind_res (ch_Head None t tbl) (\<lambda>(a, b). Inr \<lparr>hs_nextSeq = a, hs_prevHash = b\<rparr>)) =
      Inr \<lparr>hs_nextSeq = n, hs_prevHash = p\<rparr>"
    using ch_Head_intact [OF h] by (cases "map_of hm t") (auto intro: head_state.cases)
  obtain es m q where sr: "seal_records t n p recs = (es, m, q)"
    by (cases "seal_records t n p recs") auto
  have "es \<noteq> []"
    using seal_records_spec [OF sr] assms(3) by auto
  then have "r = Inl err" "hm' = AList.update t \<lparr>hs_nextSeq = n, hs_prevHash = p\<rparr> hm" "tbl' = tbl @ map to_row es"
    using first np sr by (simp_all add: SealBatch_def ch_Append_def)
  then show thesis
    by (intro that [of n p es m q]) (simp_all add: sr update_conv')
qed

text \<open>
  C38 (internal/ingest/sealer.go, SealBatch): a failed append cannot always be retried. If
  ClickHouse applied the write whose error the sealer saw, the next batch of the tenant reuses
  the sequence numbers: the table then holds two rows with the same number, and the chain check
  reports an issue although nobody tampered.
\<close>

theorem unacknowledged_append_forks_the_chain:
  assumes "ingest_run (hm, tbl) log" and "log_size log \<le> 2 ^ 62" and "recs \<noteq> []" and "recs' \<noteq> []"
    and "length recs \<le> 2 ^ 24" and "length recs' \<le> 2 ^ 24"
    and "SealBatch (ch_Head None) (ch_Append (Unacknowledged err)) t recs (hm, tbl) = (r, st)"
    and "SealBatch (ch_Head fail) (ch_Append (Ack None)) t recs' st = (r', hm', tbl')"
  shows "r = Inl err \<and> (\<exists>es. r' = Inr es) \<and> \<not> distinct (map Seq (ch_entries tbl' t)) \<and>
    Issues (chain_loop t (Genesis t) 0 (ch_entries tbl' t) rep) \<noteq> Issues rep"
proof -
  obtain hm1 tbl1 where st: "st = (hm1, tbl1)" by (cases st)
  have ok: "ch.sealed_ok (hm, tbl)" and lines: "map line_of (ch_entries tbl t) = batch_lines t log"
    using ingest_run_ok [OF assms(1)] assms(2) by auto
  from ok have wf: "ch_wf tbl" by (simp add: ch.sealed_ok_def)
  obtain n p es m q where one: "r = Inl err" "map_of hm1 t = Some \<lparr>hs_nextSeq = n, hs_prevHash = p\<rparr>"
    "seal_records t n p recs = (es, m, q)" "tbl1 = tbl @ map to_row es"
    by (rule SealBatch_cached [OF ok assms(7) [unfolded st] assms(3)])
  obtain es' m' q' where sr': "seal_records t n p recs' = (es', m', q')"
    by (cases "seal_records t n p recs'") auto
  note s = seal_records_spec [OF one(3)] and s' = seal_records_spec [OF sr']
  obtain e fs where e: "es = e # fs" "Seq e = n" using s assms(3) by (cases es) auto
  obtain e' fs' where e': "es' = e' # fs'" "Seq e' = n" using s' assms(4) by (cases es') auto
  have two: "r' = Inr es'" "tbl' = tbl @ map to_row (es @ es')"
    using assms(8) one(2,4) sr' e' by (auto simp: st SealBatch_def Let_def ch_Append_def)
  have rows: "ch_entries tbl' t = sort_key Seq (ch_entries tbl t @ es @ es')"
    using ch_Append_entries [OF wf, of t "es @ es'" t] s s' two(2) by simp
  then have dup: "\<not> distinct (map Seq (ch_entries tbl' t))"
    using e e' by simp
  have "length (ch_entries tbl t) \<le> log_size log"
    using length_batch_lines [of t log] arg_cong [OF lines, of length] by simp
  then have "length (ch_entries tbl' t) \<le> 2 ^ 64"
    using rows assms(2,5,6) s s' by simp
  then have "\<not> intact t (ch_entries tbl' t)"
    using dup intact_distinct by blast
  then show ?thesis
    using one(1) two(1) dup by (simp add: chain_loop_exact)
qed

subsection \<open>Witnesses\<close>

definition sample_record :: record_in where
  "sample_record = \<lparr>r_Source = ''api'', r_Raw = ''hello'', r_EventTime = 1, r_IngestTime = 2\<rparr>"

definition sample_ingest :: "(error + entry list) \<times> sealer_heads \<times> ch_table" where
  "sample_ingest = SealBatch (ch_Head None) (ch_Append (Ack None)) ''acme'' [sample_record] ([], [])"

lemma sample_ingest_ok: "\<exists>es. fst sample_ingest = Inr es"
  by (simp add: sample_ingest_def SealBatch_def ch_Head_def tenant_rows_def Let_def ch_Append_def)

lemma sample_ingest_run: "ingest_run (snd sample_ingest) [(''acme'', [sample_record])]"
proof -
  obtain es where "sample_ingest = (Inr es, fst (snd sample_ingest), snd (snd sample_ingest))"
    using sample_ingest_ok by (metis prod.collapse)
  then have "SealBatch (ch_Head None) (ch_Append (Ack None)) ''acme'' [sample_record] ([], []) =
      (Inr es, fst (snd sample_ingest), snd (snd sample_ingest))"
    by (simp add: sample_ingest_def)
  from ingest_batch [OF ingest_start _ this] show ?thesis by simp
qed

theorem ingest_refines_acknowledged_log_witness:
  "let tbl = snd (snd sample_ingest); log = [(''acme'', [sample_record])]
   in map line_of (ch_entries tbl ''acme'') = batch_lines ''acme'' log \<and> intact ''acme'' (ch_entries tbl ''acme'') \<and>
      map Seq (ch_entries tbl ''acme'') = map of_nat [0..<length (ch_entries tbl ''acme'')]"
  unfolding Let_def
  by (rule ingest_refines_acknowledged_log [of "fst (snd sample_ingest)"])
    (use sample_ingest_run in \<open>simp_all add: log_size_def\<close>)

definition sample_lost :: "(error + entry list) \<times> sealer_heads \<times> ch_table" where
  "sample_lost =
     SealBatch (ch_Head None) (ch_Append (Unacknowledged ErrEOF)) ''acme'' [sample_record] (snd sample_ingest)"

definition sample_retry :: "(error + entry list) \<times> sealer_heads \<times> ch_table" where
  "sample_retry = SealBatch (ch_Head None) (ch_Append (Ack None)) ''acme'' [sample_record] (snd sample_lost)"

theorem unacknowledged_append_forks_the_chain_witness:
  "fst sample_lost = Inl ErrEOF \<and> (\<exists>es. fst sample_retry = Inr es) \<and>
    \<not> distinct (map Seq (ch_entries (snd (snd sample_retry)) ''acme'')) \<and>
    Issues (chain_loop ''acme'' (Genesis ''acme'') 0 (ch_entries (snd (snd sample_retry)) ''acme'') empty_report) \<noteq>
      Issues empty_report"
  by (rule unacknowledged_append_forks_the_chain [of "fst (snd sample_ingest)" "snd (snd sample_ingest)"
        "[(''acme'', [sample_record])]" "[sample_record]" "[sample_record]" ErrEOF "''acme''" _ "snd sample_lost"
        None _ "fst (snd sample_retry)"])
    (use sample_ingest_run in \<open>simp_all add: log_size_def sample_lost_def sample_retry_def\<close>)

end
