(* ===== verification/Anchor.thy ===== *)
theory Anchor
  imports Anchor_Store Verify_Props Ingest_Sealer
begin

section \<open>The anchorer (internal/anchor/anchor.go)\<close>

text \<open>
  \<open>AnchorTenant\<close> and \<open>AnchorAll\<close> over the ClickHouse table, the Postgres working copy and any
  checkpoint store. What the outside world does during a call is its environment: the errors
  of the reads, the clock, how the notaries answer, and the fate of every write, per window.
  The checkpoint store is a parameter with the laws of \<open>worm_store\<close>; \<open>worm_call\<close> adds the
  fate of the request around it.
\<close>

record anchor_env =
  ae_last :: "error option"
  ae_entries :: "error option"
  ae_now :: "nat \<Rightarrow> i64"
  ae_worm :: "nat \<Rightarrow> write_ack"
  ae_put_cp :: "nat \<Rightarrow> write_ack"
  ae_notaries :: "nat \<Rightarrow> notary list"
  ae_put_proof :: "nat \<Rightarrow> nat \<Rightarrow> write_ack"

definition worm_call ::
    "(checkpoint \<Rightarrow> 'w \<Rightarrow> error option \<times> 'w) \<Rightarrow> write_ack \<Rightarrow> checkpoint \<Rightarrow> 'w \<Rightarrow> error option \<times> 'w" where
  "worm_call put w cp s =
     (case w of
        Ack None \<Rightarrow> put cp s
      | Ack (Some err) \<Rightarrow> (Some err, s)
      | Unacknowledged err \<Rightarrow> (Some err, snd (put cp s)))"

definition windowMax :: "int \<Rightarrow> nat" where
  "windowMax n = (if 0 < n then nat n else 1000)"

lemma windowMax_pos [simp]: "0 < windowMax n"
  by (simp add: windowMax_def)

fun anchor_proofs ::
    "(nat \<Rightarrow> write_ack) \<Rightarrow> nat \<Rightarrow> notary list \<Rightarrow> string \<Rightarrow> checkpoint \<Rightarrow> anchor_db \<Rightarrow> failure option \<times> anchor_db"
where
  "anchor_proofs acks j [] tenant cp db = (None, db)"
| "anchor_proofs acks j (nt # nts) tenant cp db =
     (case n_Stamp nt (CheckpointID cp) of
        Inl f \<Rightarrow> (Some f, db)
      | Inr p \<Rightarrow>
          (case PutProof (acks j) tenant (SeqEnd cp) p db of
             (Some err, db) \<Rightarrow> (Some (Failed err), db)
           | (None, db) \<Rightarrow> anchor_proofs acks (j + 1) nts tenant cp db))"

text \<open>One window: WORM first, then the working copy, then every notary.\<close>

definition anchor_window ::
    "(checkpoint \<Rightarrow> 'w \<Rightarrow> error option \<times> 'w) \<Rightarrow> (checkpoint \<Rightarrow> error + bytes) \<Rightarrow> anchor_env \<Rightarrow> nat \<Rightarrow>
      string \<Rightarrow> checkpoint \<Rightarrow> anchor_db \<times> 'w \<Rightarrow> failure option \<times> anchor_db \<times> 'w"
where
  "anchor_window put marshal env k tenant cp st =
     (case st of (db, w) \<Rightarrow>
        (case worm_call put (ae_worm env k) cp w of
           (err, w) \<Rightarrow>
             if err \<noteq> None \<and> err \<noteq> Some ErrImmutable then (Some (Failed (the err)), db, w)
             else
               (case PutCheckpoint (ae_put_cp env k) marshal cp True db of
                  (Some err, db) \<Rightarrow> (Some (Failed err), db, w)
                | (None, db) \<Rightarrow>
                    (case anchor_proofs (ae_put_proof env k) 0 (ae_notaries env k) tenant cp db of
                       (r, db) \<Rightarrow> (r, db, w)))))"

function anchor_loop ::
    "(checkpoint \<Rightarrow> 'w \<Rightarrow> error option \<times> 'w) \<Rightarrow> (checkpoint \<Rightarrow> error + bytes) \<Rightarrow> anchor_env \<Rightarrow> int \<Rightarrow>
      string \<Rightarrow> nat \<Rightarrow> bytes \<Rightarrow> entry list \<Rightarrow> anchor_db \<times> 'w \<Rightarrow> (nat \<times> failure option) \<times> anchor_db \<times> 'w"
where
  "anchor_loop put marshal env wm tenant k prevID es st =
     (if es = [] then ((k, None), st)
      else
        case Build tenant (take (windowMax wm) es) prevID (ae_now env k) of
          Inl f \<Rightarrow> ((k, Some (Fault f)), st)
        | Inr cp \<Rightarrow>
            (case anchor_window put marshal env k tenant cp st of
               (Some f, st) \<Rightarrow> ((k, Some f), st)
             | (None, st) \<Rightarrow>
                 anchor_loop put marshal env wm tenant (k + 1) (CheckpointID cp) (drop (windowMax wm) es) st))"
  by pat_completeness auto
termination
  by (relation "measure (\<lambda>(_, _, _, _, _, _, _, es, _). length es)") (auto simp: Suc_le_eq)

declare anchor_loop.simps [simp del]

text \<open>The result is the number of checkpoints anchored and the error or panic that ended the call.\<close>

definition AnchorTenant ::
    "(checkpoint \<Rightarrow> 'w \<Rightarrow> error option \<times> 'w) \<Rightarrow> (checkpoint \<Rightarrow> error + bytes) \<Rightarrow> anchor_env \<Rightarrow> int \<Rightarrow>
      ch_table \<Rightarrow> string \<Rightarrow> anchor_db \<times> 'w \<Rightarrow> (nat \<times> failure option) \<times> anchor_db \<times> 'w"
where
  "AnchorTenant put marshal env wm logs tenant st =
     (case LastCheckpoint (ae_last env) tenant (fst st) of
        Inl err \<Rightarrow> ((0, Some (Failed err)), st)
      | Inr lc \<Rightarrow>
          (let start = (case lc of None \<Rightarrow> 0 | Some (lastEnd, _) \<Rightarrow> lastEnd + 1);
               prevID = (case lc of None \<Rightarrow> [] | Some (_, cid) \<Rightarrow> cid)
           in case ch_EntriesAsc (ae_entries env) tenant start 0 logs of
                Inl err \<Rightarrow> ((0, Some (Failed err)), st)
              | Inr es \<Rightarrow> anchor_loop put marshal env wm tenant 0 prevID es st))"

fun anchor_tenants ::
    "(checkpoint \<Rightarrow> 'w \<Rightarrow> error option \<times> 'w) \<Rightarrow> (checkpoint \<Rightarrow> error + bytes) \<Rightarrow> (string \<Rightarrow> anchor_env) \<Rightarrow> int \<Rightarrow>
      ch_table \<Rightarrow> string list \<Rightarrow> nat \<Rightarrow> anchor_db \<times> 'w \<Rightarrow> (nat \<times> failure option) \<times> anchor_db \<times> 'w"
where
  "anchor_tenants put marshal envs wm logs [] tot st = ((tot, None), st)"
| "anchor_tenants put marshal envs wm logs (t # ts) tot st =
     (case AnchorTenant put marshal (envs t) wm logs t st of
        ((n, Some f), st) \<Rightarrow> ((tot + n, Some f), st)
      | ((n, None), st) \<Rightarrow> anchor_tenants put marshal envs wm logs ts (tot + n) st)"

definition AnchorAll ::
    "(checkpoint \<Rightarrow> 'w \<Rightarrow> error option \<times> 'w) \<Rightarrow> (checkpoint \<Rightarrow> error + bytes) \<Rightarrow> error option \<Rightarrow>
      (string \<Rightarrow> anchor_env) \<Rightarrow> int \<Rightarrow> ch_table \<Rightarrow> anchor_db \<times> 'w \<Rightarrow> (nat \<times> failure option) \<times> anchor_db \<times> 'w"
where
  "AnchorAll put marshal fail envs wm logs st =
     (case ch_Tenants fail logs of
        Inl err \<Rightarrow> ((0, Some (Failed err)), st)
      | Inr tenants \<Rightarrow> anchor_tenants put marshal envs wm logs tenants 0 st)"

subsection \<open>What has been anchored\<close>

text \<open>
  \<open>covered\<close> counts the rows a list of consecutive checkpoints commits to; \<open>last_id\<close> is the id
  the next one is built on.
\<close>

definition covered :: "checkpoint list \<Rightarrow> nat" where
  "covered cps = sum_list (map (\<lambda>cp. unat (EntryCount cp)) cps)"

definition last_id :: "bytes \<Rightarrow> checkpoint list \<Rightarrow> bytes" where
  "last_id prev cps = (if cps = [] then prev else CheckpointID (last cps))"

lemma covered_simps [simp]: "covered [] = 0" "covered (cp # cps) = unat (EntryCount cp) + covered cps"
  "covered (cps @ cps') = covered cps + covered cps'"
  by (simp_all add: covered_def)

lemma last_id_simps [simp]: "last_id prev [] = prev" "last_id prev (cp # cps) = last_id (CheckpointID cp) cps"
  "last_id prev (cps @ [cp]) = CheckpointID cp"
  by (simp_all add: last_id_def)

lemma anchored_append:
  "anchored t prev es (xs @ ys) \<longleftrightarrow>
    anchored t prev es xs \<and> anchored t (last_id prev xs) (drop (covered xs) es) ys"
  by (induction xs arbitrary: prev es) (auto simp: Let_def add.commute)

lemma anchored_covered: "anchored t prev es cps \<Longrightarrow> covered cps \<le> length es"
  by (induction cps arbitrary: prev es) (fastforce simp: Let_def)+

lemma anchored_grow: "anchored t prev es cps \<Longrightarrow> anchored t prev (es @ fs) cps"
  by (induction cps arbitrary: prev es) (auto simp: Let_def)

lemma anchored_ends:
  assumes "intact t (pre @ es)" and "length (pre @ es) \<le> 2 ^ 64"
    and "anchored t prev es cps" and "cps \<noteq> []"
  shows "unat (SeqEnd (last cps)) + 1 = length pre + covered cps \<and>
    list_all (\<lambda>cp. unat (SeqEnd cp) < length pre + covered cps) cps"
  using assms
proof (induction cps arbitrary: pre es prev)
  case (Cons cp cps)
  let ?n = "unat (EntryCount cp)"
  have cp: "Build t (take ?n es) prev (AnchoredAt cp) = Inr cp" and n: "?n \<le> length es"
    and rest: "anchored t (CheckpointID cp) (drop ?n es) cps"
    using Cons.prems(3) by (simp_all add: Let_def)
  have pos: "0 < ?n" using Build_fields(1) [OF cp] by auto
  have "last (take ?n es) = (pre @ es) ! (length pre + (?n - 1))"
    using n pos by (cases es) (auto simp: last_conv_nth nth_append)
  then have "SeqEnd cp = of_nat (length pre + (?n - 1))"
    using Build_fields(4) [OF cp] links_Seq_nth [OF Cons.prems(1), of "length pre + (?n - 1)"] n pos by simp
  then have "unat (SeqEnd cp) = length pre + (?n - 1)"
    using Cons.prems(2) n pos by (metis (no_types, lifting) add_le_cancel_left diff_less le_trans length_append
        less_le_trans nat_add_left_cancel_less unat_of_nat_less zero_less_one)
  then have e: "unat (SeqEnd cp) + 1 = length pre + ?n"
    using pos by simp
  show ?case
  proof (cases "cps = []")
    case False
    have eq: "pre @ es = (pre @ take ?n es) @ drop ?n es" by simp
    have "unat (SeqEnd (last cps)) + 1 = length (pre @ take ?n es) + covered cps \<and>
      list_all (\<lambda>cp. unat (SeqEnd cp) < length (pre @ take ?n es) + covered cps) cps"
      using Cons.prems by (intro Cons.IH [OF _ _ rest False]) (simp_all only: eq [symmetric])
    then show ?thesis
      using False n e by (simp add: add.assoc)
  qed (use e in simp)
qed simp

text \<open>A proof that a verifier which knows the notaries \<open>ns\<close> accepts for an id, or does not look at.\<close>

definition accepted :: "(string \<rightharpoonup> notary) \<Rightarrow> bytes \<Rightarrow> notary_proof \<Rightarrow> bool" where
  "accepted ns cid p \<longleftrightarrow> (case ns (Notary p) of None \<Rightarrow> True | Some nt \<Rightarrow> n_Verify nt p cid = Inr None)"

definition honest :: "(string \<rightharpoonup> notary) \<Rightarrow> notary \<Rightarrow> bool" where
  "honest ns nt \<longleftrightarrow> (\<forall>cid p. length cid = 32 \<longrightarrow> n_Stamp nt cid = Inr p \<longrightarrow> accepted ns cid p)"

lemma honest_contract:
  assumes "notary_contract nt (\<lambda>cid. length cid = 32)"
    and "\<And>v. ns (n_Name nt) = Some v \<Longrightarrow> n_Verify v = n_Verify nt"
  shows "honest ns nt"
  using notary_contract.stamp_names [OF assms(1)] notary_contract.stamp_verifies [OF assms(1)] assms(2)
  by (auto simp: honest_def accepted_def split: option.splits)

text \<open>Environments in which no checkpoint is lost between the WORM store and the working copy.\<close>

definition safe_env :: "(string \<rightharpoonup> notary) \<Rightarrow> anchor_env \<Rightarrow> bool" where
  "safe_env ns env \<longleftrightarrow>
     (\<forall>k. (ae_worm env k = Ack None \<or> (\<exists>err. ae_worm env k = Ack (Some err) \<and> err \<noteq> ErrImmutable)) \<and>
       ae_put_cp env k = Ack None \<and> list_all (honest ns) (ae_notaries env k))"

lemma PutProof_cases:
  "proofs_of (snd (PutProof w t n p db)) u m = proofs_of db u m \<or>
    u = t \<and> m = n \<and> proofs_of (snd (PutProof w t n p db)) u m = proofs_of db u m @ [p]"
proof -
  have "snd (PutProof w t n p db) = db \<or> snd (PutProof w t n p db) = snd (PutProof (Ack None) t n p db)"
    by (auto simp: PutProof_def Let_def split: write_ack.splits option.splits)
  then show ?thesis
    using PutProof_ok [of t n p db "fst (PutProof (Ack None) t n p db)" "snd (PutProof (Ack None) t n p db)" u m]
    by (auto split: if_splits)
qed

lemma PutProof_frame:
  "(u, m) \<noteq> (t, n) \<Longrightarrow> proofs_of (snd (PutProof w t n p db)) u m = proofs_of db u m"
  using PutProof_cases by fast

lemma PutProof_set: "set (proofs_of (snd (PutProof w t n p db)) u m) \<subseteq> insert p (set (proofs_of db u m))"
  using PutProof_cases [of w t n p db u m] by auto

lemma anchor_proofs_ok:
  assumes "anchor_proofs acks j nts t cp db = (r, db')" and "list_all (honest ns) nts"
    and "length (CheckpointID cp) = 32"
  shows "checkpoints db' = checkpoints db \<and>
    (\<forall>u m. (u, m) \<noteq> (t, SeqEnd cp) \<longrightarrow> proofs_of db' u m = proofs_of db u m) \<and>
    (list_all (accepted ns (CheckpointID cp)) (proofs_of db t (SeqEnd cp)) \<longrightarrow>
     list_all (accepted ns (CheckpointID cp)) (proofs_of db' t (SeqEnd cp)))"
  using assms(1,2)
proof (induction nts arbitrary: j db)
  case (Cons nt nts)
  show ?case
  proof (cases "n_Stamp nt (CheckpointID cp)")
    case (Inr p)
    let ?db = "snd (PutProof (acks j) t (SeqEnd cp) p db)"
    have acc: "accepted ns (CheckpointID cp) p"
      using Cons.prems(2) Inr assms(3) by (auto simp: honest_def)
    have step: "checkpoints ?db = checkpoints db \<and>
      (\<forall>u m. (u, m) \<noteq> (t, SeqEnd cp) \<longrightarrow> proofs_of ?db u m = proofs_of db u m) \<and>
      (list_all (accepted ns (CheckpointID cp)) (proofs_of db t (SeqEnd cp)) \<longrightarrow>
       list_all (accepted ns (CheckpointID cp)) (proofs_of ?db t (SeqEnd cp)))"
      using PutProof_frame [of _ _ t "SeqEnd cp" "acks j" p db] acc
        PutProof_set [of "acks j" t "SeqEnd cp" p db t "SeqEnd cp"]
      unfolding list_all_iff by (simp only: PutProof_checkpoints simp_thms) blast
    show ?thesis
    proof (cases "fst (PutProof (acks j) t (SeqEnd cp) p db)")
      case None
      then have "anchor_proofs acks (j + 1) nts t cp ?db = (r, db')"
        using Cons.prems(1) Inr by (simp split: prod.splits)
      from Cons.IH [OF this] Cons.prems(2) step show ?thesis by simp
    next
      case (Some err)
      then have "db' = ?db"
        using Cons.prems(1) Inr by (auto split: prod.splits)
      with step show ?thesis by simp
    qed
  qed (use Cons.prems(1) in simp)
qed simp

lemma Build_count:
  assumes "Build t (take n (drop c es)) prev at = Inr cp" and "length es \<le> 2 ^ 63"
  shows "unat (EntryCount cp) = length (take n (drop c es))" "0 < length (take n (drop c es))"
proof -
  have "length (take n (drop c es)) < 2 ^ 64"
    using assms(2) by simp
  then show "unat (EntryCount cp) = length (take n (drop c es))" "0 < length (take n (drop c es))"
    using Build_fields(1,5) [OF assms(1)] by (simp_all only: unat_of_nat_less length_greater_0_conv not_False_eq_True)
qed

lemma filter_start_intact:
  assumes "intact t es" and "length es \<le> 2 ^ 63" and "c \<le> length es"
  shows "filter (\<lambda>e. of_nat c \<le> Seq e) es = drop c es"
proof -
  have le: "of_nat c \<le> Seq (es ! i) \<longleftrightarrow> c \<le> i" if "i < length es" for i
    using that links_Seq_nth [OF assms(1) that] assms(2,3) by (simp add: word_le_nat_alt unat_of_nat_less)
  have "filter (\<lambda>e. of_nat c \<le> Seq e) (take c es) = []" "filter (\<lambda>e. of_nat c \<le> Seq e) (drop c es) = drop c es"
    using le assms(3) by (auto simp: filter_empty_conv filter_id_conv in_set_conv_nth)
  then have "filter (\<lambda>e. of_nat c \<le> Seq e) (take c es @ drop c es) = drop c es"
    by (simp only: filter_append append_Nil)
  then show ?thesis by simp
qed

subsection \<open>An anchored tenant\<close>

text \<open>
  The three stores agree on a tenant: the checkpoint store lists \<open>cps\<close>, built from consecutive
  windows of its rows from the first on; the working copy ends with the last of them; and every
  proof held for one of them is a proof of its id.
\<close>

context worm_store
begin

definition in_step ::
    "(string \<rightharpoonup> notary) \<Rightarrow> entry list \<Rightarrow> string \<Rightarrow> checkpoint list \<Rightarrow> anchor_db \<times> 's \<Rightarrow> bool" where
  "in_step ns es t cps st \<longleftrightarrow>
     inv (snd st) \<and> all t (snd st) = Inr cps \<and> anchored t [] es cps \<and>
     LastCheckpoint None t (fst st) =
       Inr (if cps = [] then None else Some (SeqEnd (last cps), CheckpointID (last cps))) \<and>
     list_all (\<lambda>q. unat (pg_seq_end q) < covered cps) (cps_of (fst st) t) \<and>
     (\<forall>n. covered cps \<le> unat n \<longrightarrow> proofs_of (fst st) t n = []) \<and>
     list_all (\<lambda>cp. list_all (accepted ns (CheckpointID cp)) (proofs_of (fst st) t (SeqEnd cp))) cps"

text \<open>Nothing of the other tenants changes.\<close>

definition same_for :: "string \<Rightarrow> anchor_db \<times> 's \<Rightarrow> anchor_db \<times> 's \<Rightarrow> bool" where
  "same_for u st st' \<longleftrightarrow>
     (ok u \<longrightarrow> all u (snd st') = all u (snd st)) \<and> cps_of (fst st') u = cps_of (fst st) u \<and>
     (\<forall>n. proofs_of (fst st') u n = proofs_of (fst st) u n)"

lemma same_for_refl [simp]: "same_for u st st"
  by (simp add: same_for_def)

lemma same_for_trans: "same_for u st st' \<Longrightarrow> same_for u st' st'' \<Longrightarrow> same_for u st st''"
  by (simp add: same_for_def)

lemma in_step_same_for:
  "ok u \<Longrightarrow> same_for u st st' \<Longrightarrow> inv (snd st') \<Longrightarrow> in_step ns es u cps st \<Longrightarrow> in_step ns es u cps st'"
  using LastCheckpoint_cps_of [of "fst st'" u "fst st" None] by (simp add: in_step_def same_for_def)

lemma in_step_grow: "in_step ns es t cps st \<Longrightarrow> in_step ns (es @ fs) t cps st"
  by (simp add: in_step_def anchored_grow)

lemma next_window:
  assumes es: "intact t es" "length es \<le> 2 ^ 63" and anc: "anchored t [] es cps"
    and cp: "Build t (take n (drop (covered cps) es)) (last_id [] cps) at = Inr cp"
  shows "0 < unat (EntryCount cp)" "anchored t [] es (cps @ [cp])"
    "unat (SeqEnd cp) + 1 = covered cps + unat (EntryCount cp)" "c \<in> set cps \<Longrightarrow> unat (SeqEnd c) < covered cps"
proof -
  let ?c = "covered cps"
  note f = Build_fields [OF cp]
  define m where "m = length (take n (drop ?c es))"
  have m: "unat (EntryCount cp) = m" "0 < m" "m \<le> length (drop ?c es)" "take m (drop ?c es) = take n (drop ?c es)"
    using Build_count [OF cp es(2)] by (auto simp: m_def min_def)
  show count: "0 < unat (EntryCount cp)" using m by simp
  show anc': "anchored t [] es (cps @ [cp])"
    using anc cp f(9) m by (simp add: anchored_append)
  show "unat (SeqEnd cp) + 1 = ?c + unat (EntryCount cp)"
    using anchored_ends [of t "[]" es "[]" "cps @ [cp]"] es anc' by simp
  show "unat (SeqEnd c) < ?c" if "c \<in> set cps"
    using anchored_ends [of t "[]" es "[]" cps] es anc that by (cases "cps = []") (auto simp: list_all_iff)
qed

text \<open>What one more window has to leave behind.\<close>

lemma in_step_snoc:
  assumes step: "in_step ns es t cps (db, w)" and anc: "anchored t [] es (cps @ [cp])"
    and below: "\<And>c. c \<in> set cps \<Longrightarrow> unat (SeqEnd c) < covered cps"
    and ends: "0 < unat (EntryCount cp)" "unat (SeqEnd cp) + 1 = covered cps + unat (EntryCount cp)"
    and w': "inv w'" "all t w' = Inr (cps @ [cp])"
    and last: "LastCheckpoint None t db' = Inr (Some (SeqEnd cp, CheckpointID cp))"
    and rows: "\<And>q. q \<in> set (cps_of db' t) \<Longrightarrow> unat (pg_seq_end q) \<le> unat (SeqEnd cp)"
    and proofs: "\<And>m. m \<noteq> SeqEnd cp \<Longrightarrow> proofs_of db' t m = proofs_of db t m"
      "list_all (accepted ns (CheckpointID cp)) (proofs_of db' t (SeqEnd cp))"
  shows "in_step ns es t (cps @ [cp]) (db', w')"
  unfolding in_step_def
proof (intro conjI allI impI)
  have s: "\<And>n. covered cps \<le> unat n \<Longrightarrow> proofs_of db t n = []"
      "list_all (\<lambda>cp. list_all (accepted ns (CheckpointID cp)) (proofs_of db t (SeqEnd cp))) cps"
    using step by (simp_all add: in_step_def)
  show "list_all (\<lambda>q. unat (pg_seq_end q) < covered (cps @ [cp])) (cps_of (fst (db', w')) t)"
    using rows ends by (fastforce simp: list_all_iff)
  show "proofs_of (fst (db', w')) t n = []" if "covered (cps @ [cp]) \<le> unat n" for n
    using proofs(1) [of n] s(1) [of n] that ends by fastforce
  have "proofs_of db' t (SeqEnd c) = proofs_of db t (SeqEnd c)" if "c \<in> set cps" for c
    using below [OF that] ends by (intro proofs(1)) auto
  then show "list_all (\<lambda>cp. list_all (accepted ns (CheckpointID cp)) (proofs_of (fst (db', w')) t (SeqEnd cp)))
      (cps @ [cp])"
    using s(2) proofs(2) by (simp add: list_all_iff)
qed (simp_all add: last w' anc)

lemma anchor_window_ok:
  assumes step: "in_step ns es t cps (db, w)" and es: "intact t es" "length es \<le> 2 ^ 63"
    and cp: "Build t (take n (drop (covered cps) es)) (last_id [] cps) at = Inr cp"
    and env: "safe_env ns env" and doc: "marshal cp = Inr doc" and tok: "ok t"
    and run: "anchor_window put marshal env k t cp (db, w) = (r, db', w')"
  shows "r \<noteq> None \<and> (db', w') = (db, w) \<or>
    in_step ns es t (cps @ [cp]) (db', w') \<and> (\<forall>u. u \<noteq> t \<longrightarrow> same_for u (db, w) (db', w'))"
proof (cases "ae_worm env k = Ack None")
  case False
  then obtain err where "ae_worm env k = Ack (Some err)" "err \<noteq> ErrImmutable"
    using env by (auto simp: safe_env_def)
  then show ?thesis
    using run by (auto simp: anchor_window_def worm_call_def)
next
  case True
  let ?c = "covered cps"
  note f = Build_fields [OF cp]
  have s: "inv w" "all t w = Inr cps" "anchored t [] es cps"
      "list_all (\<lambda>q. unat (pg_seq_end q) < ?c) (cps_of db t)"
      "\<And>n. ?c \<le> unat n \<Longrightarrow> proofs_of db t n = []"
      "list_all (\<lambda>cp. list_all (accepted ns (CheckpointID cp)) (proofs_of db t (SeqEnd cp))) cps"
    using step by (simp_all add: in_step_def)
  define m where "m = unat (EntryCount cp)"
  note m = m_def [symmetric]
  note window = next_window [OF es s(3) cp, unfolded m]
  note anc = window(2) and below = window(4)
  have ends: "0 < m" "unat (SeqEnd cp) + 1 = ?c + m" "unat (SeqEnd cp) < ?c + m" using window(1,3) by simp_all
  have "\<exists>w'. put cp w = (None, w') \<and> inv w' \<and> all (CpTenantID cp) w' = Inr (cps @ [cp])"
    using ends(1,2) s(2) f(2) tok by (intro all_put_append [OF s(1)]) (auto simp: word_less_nat_alt dest!: below)
  then obtain w1 where w1: "put cp w = (None, w1)" "inv w1" "all t w1 = Inr (cps @ [cp])"
    using f(2) by auto
  obtain r2 db2 where p2: "PutCheckpoint (Ack None) marshal cp True db = (r2, db2)" by fastforce
  have "pg_seq_end q < SeqEnd cp" if "q \<in> set (cps_of db (CpTenantID cp))" for q
    using that s(4) ends f(2) by (auto simp: list_all_iff word_less_nat_alt)
  note put = PutCheckpoint_last [OF p2 doc this]
  have put: "r2 = None" "LastCheckpoint None t db2 = Inr (Some (SeqEnd cp, CheckpointID cp))"
      "\<And>q. q \<in> set (cps_of db2 t) \<Longrightarrow> unat (pg_seq_end q) \<le> unat (SeqEnd cp)"
    using put f(2) by (auto simp: word_le_nat_alt)
  have run': "anchor_proofs (ae_put_proof env k) 0 (ae_notaries env k) t cp db2 = (r, db')" "w' = w1"
    using run True w1(1) p2 put(1) env
    by (auto simp: anchor_window_def worm_call_def safe_env_def split: prod.splits)
  have "length (CheckpointID cp) = 32" using f(11) by simp
  from anchor_proofs_ok [OF run'(1) _ this] env
  have proofs: "checkpoints db' = checkpoints db2"
      "\<And>u m. (u, m) \<noteq> (t, SeqEnd cp) \<Longrightarrow> proofs_of db' u m = proofs_of db u m"
      "list_all (accepted ns (CheckpointID cp)) (proofs_of db' t (SeqEnd cp))"
    using s(5) [of "SeqEnd cp"] ends(1,2) PutCheckpoint_proofs_of [of "Ack None" marshal cp True db] p2
    by (auto simp: safe_env_def)
  have cps': "cps_of db' u = cps_of db2 u" for u
    by (simp add: cps_of_def proofs(1))
  have "in_step ns es t (cps @ [cp]) (db', w')"
    using put(3) proofs(2) [of t] proofs(3) w1 run'(2) LastCheckpoint_cps_of [OF cps' [of t], of None] put(2)
    by (intro in_step_snoc [OF step anc below window(1,3) [unfolded m_def]]) (simp_all add: cps' m_def)
  moreover have "same_for u (db, w) (db', w')" if "u \<noteq> t" for u
    using all_put_other [OF s(1), of cp u] tok PutCheckpoint_other [of u cp "Ack None" marshal True db]
      proofs(2) [of u] that w1(1) p2 f(2) run'(2)
    by (simp add: same_for_def cps')
  ultimately show ?thesis by blast
qed

end

context worm_store
begin

lemma in_step_inv: "in_step ns es t cps st \<Longrightarrow> inv (snd st)"
  by (simp add: in_step_def)

lemma anchor_loop_ok:
  assumes "intact t es" and "length es \<le> 2 ^ 63" and "safe_env ns env"
    and "\<And>cp. \<exists>doc. marshal cp = Inr doc" and tok: "es \<noteq> [] \<Longrightarrow> ok t"
  shows "anchor_loop put marshal env wm t k prev rem st = ((k', f), st') \<Longrightarrow> in_step ns es t cps st \<Longrightarrow>
    prev = last_id [] cps \<Longrightarrow> rem = take m (drop (covered cps) es) \<Longrightarrow>
    \<exists>cps'. in_step ns es t (cps @ cps') st' \<and> (\<forall>u. u \<noteq> t \<longrightarrow> same_for u st st') \<and>
      (f = None \<longrightarrow> covered cps' = length rem \<and> k' = k + length cps')"
proof (induction "length rem" arbitrary: k prev rem st cps m rule: less_induct)
  case less
  show ?case
  proof (cases "rem = []")
    case True
    with less.prems show ?thesis
      by (intro exI [of _ "[]"]) (auto simp: anchor_loop.simps)
  next
    case False
    let ?w = "windowMax wm"
    have win: "take ?w rem = take (min ?w m) (drop (covered cps) es)"
      using less.prems(4) by simp
    obtain cp where cp: "Build t (take ?w rem) prev (ae_now env k) = Inr cp"
      using Build_Inr [of "take ?w rem"] False windowMax_pos [of wm] by fastforce
    obtain r db w db1 w1 where st: "st = (db, w)" and one: "anchor_window put marshal env k t cp (db, w) = (r, db1, w1)"
      by (metis prod_cases3 surj_pair)
    obtain doc where doc: "marshal cp = Inr doc" using assms(4) by blast
    have tok: "ok t" using tok False less.prems(4) by (cases "es = []") auto
    note step = anchor_window_ok [OF less.prems(2) [unfolded st] assms(1,2)
      cp [unfolded win less.prems(3)] assms(3) doc tok one]
    show ?thesis
    proof (cases r)
      case (Some g)
      then have "st' = (db1, w1)" "f = Some g"
        using less.prems(1) False cp one by (auto simp: anchor_loop.simps [of _ _ _ _ _ _ _ rem] st)
      with step less.prems(2) show ?thesis
        by (metis append_Nil2 option.distinct(1) same_for_refl st)
    next
      case None
      with step have ok: "in_step ns es t (cps @ [cp]) (db1, w1)" "\<forall>u. u \<noteq> t \<longrightarrow> same_for u st (db1, w1)"
        by (simp_all add: st)
      have count: "unat (EntryCount cp) = length (take ?w rem)"
        using Build_count(1) [OF cp [unfolded win] assms(2)] win by simp
      have rest: "anchor_loop put marshal env wm t (k + 1) (last_id [] (cps @ [cp])) (drop ?w rem) (db1, w1) = ((k', f), st')"
        using less.prems(1) False cp one None by (simp add: anchor_loop.simps [of _ _ _ _ _ _ _ rem] st)
      have "drop ?w rem = take (if ?w \<le> length rem then m - ?w else 0) (drop (covered (cps @ [cp])) es)"
        using less.prems(4) count by (auto simp: drop_take min_def add.commute)
      from less.hyps [OF _ rest ok(1) refl this] False obtain cps' where
        "in_step ns es t ((cps @ [cp]) @ cps') st'" "\<forall>u. u \<noteq> t \<longrightarrow> same_for u (db1, w1) st'"
        "f = None \<longrightarrow> covered cps' = length (drop ?w rem) \<and> k' = k + 1 + length cps'"
        by auto
      with ok(2) count show ?thesis
        by (intro exI [of _ "cp # cps'"]) (auto intro: same_for_trans)
    qed
  qed
qed

lemma AnchorTenant_ok:
  assumes "ch_wf tbl" and "intact t (ch_entries tbl t)" and "length (ch_entries tbl t) \<le> 2 ^ 63"
    and "safe_env ns env" and "\<And>cp. \<exists>doc. marshal cp = Inr doc"
    and tok: "ch_entries tbl t \<noteq> [] \<Longrightarrow> ok t" and step: "in_step ns (ch_entries tbl t) t cps st"
    and run: "AnchorTenant put marshal env wm tbl t st = ((k, f), st')"
  shows "\<exists>cps'. in_step ns (ch_entries tbl t) t (cps @ cps') st' \<and> (\<forall>u. u \<noteq> t \<longrightarrow> same_for u st st') \<and>
    (f = None \<longrightarrow> k = length cps' \<and>
      covered (cps @ cps') = min (length (ch_entries tbl t)) (covered cps + 100000))"
proof (cases "ae_last env = None \<and> ae_entries env = None")
  case False
  have "LastCheckpoint (Some err) t db = Inl err" "ch_EntriesAsc (Some err) t n 0 tbl = Inl err" for err db n
    by (simp_all add: LastCheckpoint_def ch_EntriesAsc_def)
  then have "st' = st \<and> f \<noteq> None"
    using run False step by (cases "ae_last env"; cases "ae_entries env") (auto simp: AnchorTenant_def in_step_def)
  with step show ?thesis
    by (intro exI [of _ "[]"]) auto
next
  case True
  let ?es = "ch_entries tbl t" and ?c = "covered cps"
  let ?rem = "take 100000 (drop ?c ?es)"
  have anc: "anchored t [] ?es cps" and lc: "LastCheckpoint None t (fst st) =
      Inr (if cps = [] then None else Some (SeqEnd (last cps), CheckpointID (last cps)))"
    using step by (simp_all add: in_step_def)
  have c: "?c \<le> length ?es" using anchored_covered [OF anc] .
  have "SeqEnd (last cps) + 1 = of_nat ?c" if "cps \<noteq> []"
  proof -
    have "unat (SeqEnd (last cps)) + 1 = ?c"
      using anchored_ends [of t "[]" ?es "[]" cps] assms(2,3) anc that by simp
    from arg_cong [OF this, of "of_nat :: nat \<Rightarrow> u64"] show ?thesis by (simp add: add.commute)
  qed
  moreover have "ch_EntriesAsc None t (of_nat ?c) 0 tbl = Inr ?rem"
    using ch_entries_filter_start [OF assms(1), of t "of_nat ?c" 0] filter_start_intact [OF assms(2,3) c] by simp
  ultimately have loop: "anchor_loop put marshal env wm t 0 (last_id [] cps) ?rem st = ((k, f), st')"
    using run True lc by (auto simp: AnchorTenant_def Let_def last_id_def split: if_splits)
  obtain cps' where "in_step ns ?es t (cps @ cps') st'" "\<forall>u. u \<noteq> t \<longrightarrow> same_for u st st'"
      "f = None \<longrightarrow> covered cps' = length ?rem \<and> k = 0 + length cps'"
    using anchor_loop_ok [OF assms(2-5) tok loop step refl refl] by blast
  then show ?thesis
    using c by (intro exI [of _ cps']) auto
qed

end

subsection \<open>Progress\<close>

text \<open>Environments in which every call succeeds.\<close>

definition calm_env :: "anchor_env \<Rightarrow> bool" where
  "calm_env env \<longleftrightarrow> ae_last env = None \<and> ae_entries env = None \<and>
     (\<forall>k. ae_worm env k = Ack None \<and> ae_put_cp env k = Ack None \<and> (\<forall>j. ae_put_proof env k j = Ack None) \<and>
       list_all (\<lambda>nt. \<forall>cid. length cid = 32 \<longrightarrow> (\<exists>p. n_Stamp nt cid = Inr p)) (ae_notaries env k))"

lemma anchor_proofs_calm:
  assumes "\<And>j. acks j = Ack None" and "length (CheckpointID cp) = 32"
  shows "list_all (\<lambda>nt. \<forall>cid. length cid = 32 \<longrightarrow> (\<exists>p. n_Stamp nt cid = Inr p)) nts \<Longrightarrow>
    fst (anchor_proofs acks j nts t cp db) = None"
proof (induction nts arbitrary: j db)
  case (Cons nt nts)
  then obtain p where p: "n_Stamp nt (CheckpointID cp) = Inr p"
    using assms(2) by auto
  obtain r db' where put: "PutProof (acks j) t (SeqEnd cp) p db = (r, db')" by fastforce
  then have "r = None"
    using PutProof_ok [of t "SeqEnd cp" p db r db' t "SeqEnd cp"] assms(1) by simp
  with Cons p put show ?case by simp
qed simp

context worm_store
begin

lemma put_results: "inv s \<Longrightarrow> ok (CpTenantID cp) \<Longrightarrow> put cp s = (r, s') \<Longrightarrow> r = None \<or> r = Some ErrImmutable"
  using get_total [of s "CpTenantID cp" "SeqEnd cp"] put_fresh [of s cp r s'] put_taken [of s cp _ r s']
  by (metis option.exhaust)

lemma anchor_loop_calm:
  assumes "calm_env env" and "\<And>cp. \<exists>doc. marshal cp = Inr doc"
  shows "anchor_loop put marshal env wm t k prev rem st = ((k', f), st') \<Longrightarrow> inv (snd st) \<Longrightarrow>
    (rem \<noteq> [] \<Longrightarrow> ok t) \<Longrightarrow> f = None"
proof (induction "length rem" arbitrary: k prev rem st rule: less_induct)
  case less
  show ?case
  proof (cases "rem = []")
    case False
    let ?w = "windowMax wm"
    obtain cp where cp: "Build t (take ?w rem) prev (ae_now env k) = Inr cp"
      using Build_Inr [of "take ?w rem"] False windowMax_pos [of wm] by fastforce
    obtain db w where st: "st = (db, w)" by (cases st)
    obtain e w1 where p1: "put cp w = (e, w1)" by fastforce
    obtain r2 db2 where p2: "PutCheckpoint (Ack None) marshal cp True db = (r2, db2)" by fastforce
    have "inv w1" "e = None \<or> e = Some ErrImmutable"
      using inv_put [OF _ _ p1] put_results [OF _ _ p1] less.prems(2,3) False Build_fields(2) [OF cp] st by simp_all
    moreover have "r2 = None"
      using p2 assms(2) by (auto simp: PutCheckpoint_def Let_def split: sum.splits) (metis sum.distinct(1))
    moreover have "fst (anchor_proofs (ae_put_proof env k) 0 (ae_notaries env k) t cp db2) = None"
      using assms(1) Build_fields(11) [OF cp] by (intro anchor_proofs_calm) (simp_all add: calm_env_def)
    ultimately obtain db3 where "anchor_window put marshal env k t cp st = (None, db3, w1)"
      using p1 p2 assms(1)
      by (cases "anchor_proofs (ae_put_proof env k) 0 (ae_notaries env k) t cp db2")
        (auto simp: anchor_window_def worm_call_def calm_env_def st)
    then have "anchor_loop put marshal env wm t (k + 1) (CheckpointID cp) (drop ?w rem) (db3, w1) = ((k', f), st')"
      using less.prems(1) False cp by (simp add: anchor_loop.simps [of _ _ _ _ _ _ _ rem])
    from less.hyps [OF _ this] less.prems(3) False \<open>inv w1\<close> show ?thesis by simp
  qed (use less.prems in \<open>simp add: anchor_loop.simps\<close>)
qed

lemma AnchorTenant_calm:
  assumes "ch_wf tbl" and "in_step ns es t cps st" and "calm_env env" and "\<And>cp. \<exists>doc. marshal cp = Inr doc"
    and tok: "ch_entries tbl t \<noteq> [] \<Longrightarrow> ok t" and run: "AnchorTenant put marshal env wm tbl t st = ((k, f), st')"
  shows "f = None"
proof -
  have read: "\<exists>rem. ch_EntriesAsc None t start 0 tbl = Inr rem \<and> set rem \<subseteq> set (ch_entries tbl t)" for start
    using ch_entries_filter_start [OF assms(1), of t start 0] by (auto dest: in_set_takeD)
  obtain prev rem where rem: "set rem \<subseteq> set (ch_entries tbl t)"
    and loop: "anchor_loop put marshal env wm t 0 prev rem st = ((k, f), st')"
    using run assms(2,3) read [of 0] read [of "SeqEnd (last cps) + 1"]
    by (auto simp: AnchorTenant_def Let_def calm_env_def in_step_def split: if_splits)
  have "ok t" if "rem \<noteq> []" using that tok rem by (cases "ch_entries tbl t = []") auto
  with loop show ?thesis
    using anchor_loop_calm [OF assms(3,4) loop] in_step_inv [OF assms(2)] by blast
qed

end

end
