(* ===== verification/Verify_Live.thy ===== *)
theory Verify_Live
  imports Anchor
begin

section \<open>Verification of the live data plane (internal/verifylive/verifylive.go)\<close>

text \<open>
  The chains are reloaded from ClickHouse into a \<open>chain.Store\<close>, the proofs from Postgres into a
  ledger, and \<open>Verify\<close> runs on both. A read that fails gives its error. The end of the theory
  puts the whole data plane together: in every state that ingestion and anchoring reach, the
  verification reports nothing; and three ways in which the assembled system goes wrong.
\<close>

definition append_all :: "entry list \<Rightarrow> store \<Rightarrow> store" where
  "append_all es s = fold store_Append es s"

fun load_tenants :: "(string \<Rightarrow> error option) \<Rightarrow> ch_table \<Rightarrow> string list \<Rightarrow> store \<Rightarrow> error + store" where
  "load_tenants fail logs [] s = Inr s"
| "load_tenants fail logs (t # ts) s =
     bind_res (ch_EntriesAsc (fail t) t 0 0 logs) (\<lambda>es. load_tenants fail logs ts (append_all es s))"

definition Load ::
    "error option \<Rightarrow> (string \<Rightarrow> error option) \<Rightarrow> ch_table \<Rightarrow> error + store \<times> string list" where
  "Load fail_tenants fail logs =
     bind_res (ch_Tenants fail_tenants logs) (\<lambda>tenants.
     bind_res (load_tenants fail logs tenants NewStore) (\<lambda>s. Inr (s, tenants)))"

fun load_plane ::
    "(string \<Rightarrow> error option) \<Rightarrow> (string \<Rightarrow> error option) \<Rightarrow> ch_table \<Rightarrow> anchor_db \<Rightarrow> string list \<Rightarrow>
      store \<Rightarrow> proof_ledger \<Rightarrow> error + store \<times> proof_ledger" where
  "load_plane fail fail_ledger logs db [] s l = Inr (s, l)"
| "load_plane fail fail_ledger logs db (t # ts) s l =
     bind_res (ch_EntriesAsc (fail t) t 0 0 logs) (\<lambda>es.
     bind_res (LoadLedger (fail_ledger t) t db l) (\<lambda>l.
       load_plane fail fail_ledger logs db ts (append_all es s) l))"

definition verifyTenants ::
    "(string \<Rightarrow> error option) \<Rightarrow> (string \<Rightarrow> error option) \<Rightarrow> ch_table \<Rightarrow> anchor_db \<Rightarrow>
      (string \<Rightarrow> error + checkpoint list) \<Rightarrow> notary list \<Rightarrow> string list \<Rightarrow> failure + report" where
  "verifyTenants fail fail_ledger logs db worm_All notaries tenants =
     (case load_plane fail fail_ledger logs db tenants NewStore NewProofLedger of
        Inl err \<Rightarrow> Inl (Failed err)
      | Inr (s, l) \<Rightarrow>
          (case Verify s worm_All l notaries of
             Inl f \<Rightarrow> Inl (Fault f)
           | Inr (r, _) \<Rightarrow> Inr r))"

text \<open>\<open>Run\<close> reads every tenant's rows twice: \<open>Load\<close>'s store is dropped.\<close>

definition Run ::
    "error option \<Rightarrow> (string \<Rightarrow> error option) \<Rightarrow> (string \<Rightarrow> error option) \<Rightarrow> (string \<Rightarrow> error option) \<Rightarrow>
      ch_table \<Rightarrow> anchor_db \<Rightarrow> (string \<Rightarrow> error + checkpoint list) \<Rightarrow> notary list \<Rightarrow> failure + report" where
  "Run fail_tenants fail_load fail fail_ledger logs db worm_All notaries =
     (case Load fail_tenants fail_load logs of
        Inl err \<Rightarrow> Inl (Failed err)
      | Inr (_, tenants) \<Rightarrow> verifyTenants fail fail_ledger logs db worm_All notaries tenants)"

definition RunTenant ::
    "error option \<Rightarrow> error option \<Rightarrow> ch_table \<Rightarrow> anchor_db \<Rightarrow> (string \<Rightarrow> error + checkpoint list) \<Rightarrow>
      notary list \<Rightarrow> string \<Rightarrow> failure + report" where
  "RunTenant fail fail_ledger logs db worm_All notaries tenant =
     verifyTenants (\<lambda>_. fail) (\<lambda>_. fail_ledger) logs db worm_All notaries [tenant]"

abbreviation no_failure :: "string \<Rightarrow> error option" where
  "no_failure \<equiv> \<lambda>_. None"

subsection \<open>What is loaded\<close>

lemma rows_append_all:
  "list_all (\<lambda>e. TenantID e = t) es \<Longrightarrow> rows (append_all es s) u = (if u = t then rows s t @ es else rows s u)"
  unfolding append_all_def by (induction es arbitrary: s) auto

lemma tenants_append_all:
  "list_all (\<lambda>e. TenantID e = t) es \<Longrightarrow>
    set (store_Tenants (append_all es s)) = (if es = [] then {} else {t}) \<union> set (store_Tenants s)"
proof (induction es arbitrary: s)
  case (Cons e es)
  then have "set (store_Tenants (append_all es (store_Append e s))) =
      (if es = [] then {} else {t}) \<union> set (store_Tenants (store_Append e s))"
    by simp
  moreover have "set (store_Tenants (store_Append e s)) = insert t (set (store_Tenants s))"
    using Cons.prems by (simp add: store_Tenants_def store_Append_def dom_update)
  ultimately show ?case
    by (auto simp: append_all_def)
qed (simp add: append_all_def)

lemma distinct_append_all:
  "distinct (map fst (entries s)) \<Longrightarrow> distinct (map fst (entries (append_all es s)))"
  unfolding append_all_def by (induction es arbitrary: s) auto

text \<open>The rows the verification sees of one tenant: at most 100000.\<close>

definition seen :: "ch_table \<Rightarrow> string \<Rightarrow> error + entry list" where
  "seen logs t = scanEntries (take 100000 (tenant_rows logs t))"

lemma ch_EntriesAsc_all: "ch_EntriesAsc None t 0 0 logs = seen logs t"
  by (simp add: ch_EntriesAsc_def seen_def)

lemma seen_tenant: "seen logs t = Inr es \<Longrightarrow> list_all (\<lambda>e. TenantID e = t) es"
  by (auto simp: seen_def list_all_iff tenant_rows_def scan_row_fields dest!: scanEntries_mem in_set_takeD)

lemma seen_wf: "ch_wf logs \<Longrightarrow> seen logs t = Inr (take 100000 (ch_entries logs t))"
  by (simp add: seen_def tenant_rows_wf take_map)

lemma load_plane_ok:
  assumes "distinct ts" and "list_all (\<lambda>t. seen logs t = Inr (es t)) ts"
  shows "\<exists>s' l'. load_plane no_failure no_failure logs db ts s l = Inr (s', l') \<and>
    (\<forall>u. rows s' u = rows s u @ (if u \<in> set ts then es u else [])) \<and>
    (\<forall>u n. ledger_Get u n l' = ledger_Get u n l @ (if u \<in> set ts then proofs_of db u n else [])) \<and>
    set (store_Tenants s') = set (store_Tenants s) \<union> {t \<in> set ts. es t \<noteq> []} \<and>
    (distinct (map fst (entries s)) \<longrightarrow> distinct (map fst (entries s')))"
  using assms
proof (induction ts arbitrary: s l)
  case (Cons t ts)
  obtain l1 where l1: "LoadLedger None t db l = Inr l1"
    by (simp add: LoadLedger_def)
  have t: "list_all (\<lambda>e. TenantID e = t) (es t)"
    using Cons.prems(2) by (auto intro: seen_tenant)
  obtain s' l' where s': "load_plane no_failure no_failure logs db ts (append_all (es t) s) l1 = Inr (s', l')"
      "\<And>u. rows s' u = rows (append_all (es t) s) u @ (if u \<in> set ts then es u else [])"
      "\<And>u n. ledger_Get u n l' = ledger_Get u n l1 @ (if u \<in> set ts then proofs_of db u n else [])"
      "set (store_Tenants s') = set (store_Tenants (append_all (es t) s)) \<union> {t \<in> set ts. es t \<noteq> []}"
      "distinct (map fst (entries (append_all (es t) s))) \<longrightarrow> distinct (map fst (entries s'))"
    using Cons.IH [of "append_all (es t) s" l1] Cons.prems by auto
  show ?case
  proof (intro exI conjI)
    show "load_plane no_failure no_failure logs db (t # ts) s l = Inr (s', l')"
      using s'(1) l1 Cons.prems(2) by (simp add: ch_EntriesAsc_all)
    show "\<forall>u. rows s' u = rows s u @ (if u \<in> set (t # ts) then es u else [])"
      using s'(2) rows_append_all [OF t, of s] Cons.prems(1) by auto
    show "\<forall>u n. ledger_Get u n l' = ledger_Get u n l @ (if u \<in> set (t # ts) then proofs_of db u n else [])"
      using s'(3) LoadLedger_Get [OF l1] Cons.prems(1) by auto
    show "set (store_Tenants s') = set (store_Tenants s) \<union> {u \<in> set (t # ts). es u \<noteq> []}"
      using s'(4) tenants_append_all [OF t, of s] by auto
    show "distinct (map fst (entries s)) \<longrightarrow> distinct (map fst (entries s'))"
      using s'(5) distinct_append_all by blast
  qed
qed simp

lemma load_plane_new:
  assumes "distinct ts" and "list_all (\<lambda>t. seen logs t = Inr (es t)) ts"
  obtains s l where "load_plane no_failure no_failure logs db ts NewStore NewProofLedger = Inr (s, l)"
    "\<And>u. rows s u = (if u \<in> set ts then es u else [])"
    "\<And>u n. ledger_Get u n l = (if u \<in> set ts then proofs_of db u n else [])"
    "set (store_Tenants s) = {t \<in> set ts. es t \<noteq> []}" "distinct (store_Tenants s)"
proof -
  have "rows NewStore u = []" "store_Tenants NewStore = []" "entries NewStore = []" for u
    by (simp_all add: rows_def get_or_def NewStore_def store_Tenants_def)
  then show thesis
    using load_plane_ok [OF assms, of db NewStore NewProofLedger] that
    by (auto simp: store_Tenants_def)
qed

subsection \<open>The whole data plane\<close>

lemma anchored_nothing: "anchored t prev [] cps \<longleftrightarrow> cps = []"
  by (cases cps) (auto simp: Let_def)

lemma sum_store_Tenants:
  assumes "set xs = {t \<in> set ts. es t \<noteq> []}" and "distinct xs" and "\<And>t. t \<in> set ts \<Longrightarrow> es t = [] \<Longrightarrow> f t = 0"
  shows "sum_list (map f xs) = (\<Sum>t\<in>set ts. f t :: nat)"
proof -
  have "sum_list (map f xs) = (\<Sum>t\<in>set xs. f t)"
    by (rule sum_list_distinct_conv_sum_set) (rule assms(2))
  also have "\<dots> = (\<Sum>t\<in>set ts. f t)"
    using assms(1,3) by (intro sum.mono_neutral_left) auto
  finally show ?thesis .
qed

lemma AnchorTenant_no_rows:
  assumes "ch_wf tbl" and "ch_entries tbl t = []" and "AnchorTenant put marshal env wm tbl t st = (r, st')"
  shows "st' = st"
proof -
  have "ch_EntriesAsc fail t start 0 tbl = Inr es \<Longrightarrow> es = []" for fail start es
    using ch_entries_filter_start [OF assms(1), of t start 0] assms(2)
    by (cases fail) (simp_all add: ch_EntriesAsc_def)
  then show ?thesis
    using assms(3) by (auto simp: AnchorTenant_def Let_def anchor_loop.simps split: sum.splits)
qed

context worm_store
begin

text \<open>
  Every tenant of the table is an intact chain, and the anchoring stores agree with it if its name
  is one that the checkpoint store takes.
\<close>

definition plane_ok :: "(string \<rightharpoonup> notary) \<Rightarrow> ch_table \<Rightarrow> anchor_db \<times> 's \<Rightarrow> bool" where
  "plane_ok ns tbl st \<longleftrightarrow> ch_wf tbl \<and> inv (snd st) \<and>
     (\<forall>t. intact t (ch_entries tbl t) \<and> (ok t \<longrightarrow> (\<exists>cps. in_step ns (ch_entries tbl t) t cps st)))"

lemma in_step_tenant_ok:
  assumes "in_step ns es t cps (db, w)" and "intact t es" and "length es < 2 ^ 45"
    and "rows s t = es" and "\<And>n. ledger_Get t n l = proofs_of db t n"
  shows "tenant_ok ns l (\<lambda>t. all t w) s t"
proof -
  have "list_all (genuine ns l t) cps"
    using assms(1,5) by (simp add: in_step_def genuine_def [abs_def] accepted_def [abs_def])
  with assms show ?thesis
    by (simp add: in_step_def tenant_ok_def intact_sorted Let_def)
qed

lemma plane_ok_verifies:
  assumes ok: "plane_ok (by_name notaries) tbl (db, w)" and "distinct ts"
    and small: "\<And>t. t \<in> set ts \<Longrightarrow> length (ch_entries tbl t) \<le> 100000"
    and oks: "\<And>t. t \<in> set ts \<Longrightarrow> ok t"
  shows "\<exists>r. verifyTenants no_failure no_failure tbl db (\<lambda>t. all t w) notaries ts = Inr r \<and> Issues r = [] \<and>
    EntriesChecked r = (\<Sum>t\<in>set ts. length (ch_entries tbl t)) \<and>
    CheckpointsSeen r = (\<Sum>t\<in>set ts. length (projr (all t w)))"
proof -
  have wf: "ch_wf tbl" using ok by (simp add: plane_ok_def)
  let ?es = "ch_entries tbl"
  have "list_all (\<lambda>t. seen tbl t = Inr (?es t)) ts"
    using small by (simp add: list_all_iff seen_wf [OF wf])
  from load_plane_new [OF assms(2) this, of db] obtain s l where
    load: "load_plane no_failure no_failure tbl db ts NewStore NewProofLedger = Inr (s, l)"
    and rows: "\<And>u. rows s u = (if u \<in> set ts then ?es u else [])"
    and proofs: "\<And>u n. ledger_Get u n l = (if u \<in> set ts then proofs_of db u n else [])"
    and tenants: "set (store_Tenants s) = {t \<in> set ts. ?es t \<noteq> []}" "distinct (store_Tenants s)" by blast
  have "tenant_ok (by_name notaries) l (\<lambda>t. all t w) s t" if "t \<in> set (store_Tenants s)" for t
  proof -
    have t: "t \<in> set ts" using that tenants by simp
    obtain cps where "in_step (by_name notaries) (?es t) t cps (db, w)" "intact t (?es t)"
      using ok oks [OF t] by (auto simp: plane_ok_def)
    then show ?thesis
      using small [OF t] t by (intro in_step_tenant_ok) (simp_all add: rows proofs)
  qed
  then have "list_all (tenant_ok (by_name notaries) l (\<lambda>t. all t w) s) (store_Tenants s)"
    by (simp add: list_all_iff)
  from verify_tenants_genuine [OF this, of empty_report] obtain s' where
    "Verify s (\<lambda>t. all t w) l notaries =
      Inr (clean_report (by_name notaries) l (\<lambda>t. all t w) s (store_Tenants s) empty_report, s')"
    unfolding Verify_def by blast
  moreover have "projr (all t w) = []" if t: "t \<in> set ts" "?es t = []" for t
  proof -
    obtain cps where "in_step (by_name notaries) (?es t) t cps (db, w)"
      using ok oks [OF t(1)] by (auto simp: plane_ok_def)
    with t(2) show ?thesis by (simp add: in_step_def anchored_nothing)
  qed
  then have "sum_list (map (\<lambda>t. length (projr (all t w))) (store_Tenants s)) = (\<Sum>t\<in>set ts. length (projr (all t w)))"
    by (intro sum_store_Tenants [OF tenants]) simp
  moreover have "sum_list (map (\<lambda>t. length (rows s t)) (store_Tenants s)) = (\<Sum>t\<in>set ts. length (rows s t))"
    by (rule sum_store_Tenants [OF tenants]) (simp add: rows)
  ultimately show ?thesis
    using load by (simp add: verifyTenants_def clean_report_def empty_report_def rows)
qed

lemma AnchorTenant_plane:
  assumes ok: "plane_ok ns tbl st" and "safe_env ns env" and "\<And>cp. \<exists>doc. marshal cp = Inr doc"
    and small: "\<And>t. length (ch_entries tbl t) \<le> 2 ^ 63"
    and tok: "\<And>t. ch_entries tbl t \<noteq> [] \<Longrightarrow> ok t"
    and run: "AnchorTenant put marshal env wm tbl t st = (r, st')"
  shows "plane_ok ns tbl st'"
proof (cases "ch_entries tbl t = []")
  case True
  then have "st' = st"
    using AnchorTenant_no_rows [OF _ _ run] ok by (simp add: plane_ok_def)
  with ok show ?thesis by simp
next
  case False
  obtain k f where r: "r = (k, f)" by (cases r)
  obtain cps where "in_step ns (ch_entries tbl t) t cps st"
    using ok tok [OF False] by (auto simp: plane_ok_def)
  from AnchorTenant_ok [OF _ _ small assms(2,3) tok this run [unfolded r]] obtain cps' where
    step: "in_step ns (ch_entries tbl t) t (cps @ cps') st'" and same: "\<And>u. u \<noteq> t \<Longrightarrow> same_for u st st'"
    using ok by (auto simp: plane_ok_def)
  have inv': "inv (snd st')" using step by (rule in_step_inv)
  have "\<exists>cps. in_step ns (ch_entries tbl u) u cps st'" if u: "ok u" for u
  proof (cases "u = t")
    case False
    obtain cs where "in_step ns (ch_entries tbl u) u cs st"
      using ok u by (auto simp: plane_ok_def)
    from in_step_same_for [OF u same [OF False] inv' this] show ?thesis ..
  qed (use step in blast)
  with ok inv' show ?thesis by (simp add: plane_ok_def)
qed

lemma anchor_tenants_plane:
  assumes "\<And>t. safe_env ns (envs t)" and "\<And>cp. \<exists>doc. marshal cp = Inr doc"
    and "\<And>t. length (ch_entries tbl t) \<le> 2 ^ 63" and tok: "\<And>t. ch_entries tbl t \<noteq> [] \<Longrightarrow> ok t"
  shows "plane_ok ns tbl st \<Longrightarrow> anchor_tenants put marshal envs wm tbl ts tot st = (r, st') \<Longrightarrow> plane_ok ns tbl st'"
proof (induction ts arbitrary: tot st)
  case (Cons t ts)
  obtain k f st1 where one: "AnchorTenant put marshal (envs t) wm tbl t st = ((k, f), st1)"
    by (metis surj_pair)
  have "plane_ok ns tbl st1"
    by (rule AnchorTenant_plane [OF Cons.prems(1) assms(1,2,3) tok one])
  then show ?case
    using Cons.IH [of st1] Cons.prems(2) one by (cases f) simp_all
qed simp

lemma AnchorAll_plane:
  assumes "plane_ok ns tbl st" and "\<And>t. safe_env ns (envs t)" and "\<And>cp. \<exists>doc. marshal cp = Inr doc"
    and "\<And>t. length (ch_entries tbl t) \<le> 2 ^ 63" and tok: "\<And>t. ch_entries tbl t \<noteq> [] \<Longrightarrow> ok t"
    and run: "AnchorAll put marshal fail envs wm tbl st = (r, st')"
  shows "plane_ok ns tbl st'"
  using run anchor_tenants_plane [OF assms(2-4) tok, where st = st and st' = st' and r = r and wm = wm and tot = 0] assms(1)
  by (auto simp: AnchorAll_def split: sum.splits)

lemma plane_ok_sealed:
  assumes ok: "plane_ok ns tbl st" and sealed: "ch.sealed_ok (hm', tbl')"
    and grow: "\<And>t. \<exists>es. ch_entries tbl' t = ch_entries tbl t @ es"
  shows "plane_ok ns tbl' st"
  unfolding plane_ok_def
proof (intro conjI allI impI)
  fix t assume "ok t"
  obtain es where es: "ch_entries tbl' t = ch_entries tbl t @ es"
    using grow by blast
  obtain cps where "in_step ns (ch_entries tbl t) t cps st"
    using ok \<open>ok t\<close> by (auto simp: plane_ok_def)
  from in_step_grow [OF this, of es] show "\<exists>cps. in_step ns (ch_entries tbl' t) t cps st"
    unfolding es [symmetric] ..
qed (use ok sealed in \<open>simp_all add: plane_ok_def ch.sealed_ok_def\<close>)

lemma plane_ok_start: "inv w \<Longrightarrow> (\<And>t. ok t \<Longrightarrow> all t w = Inr []) \<Longrightarrow> plane_ok ns [] (empty_db, w)"
  by (auto simp: plane_ok_def in_step_def ch_wf_Nil LastCheckpoint_def empty_db_def cps_of_def proofs_of_def
      intro!: exI [of _ "[]"])

end

subsection \<open>Runs of the data plane\<close>

text \<open>
  The states the gateway, the anchorer and their stores reach, with the batches acknowledged so
  far. Batches, restarts, failing reads, refused writes, failing notaries and anchoring runs that
  stop halfway interleave in any order; the environment of a run only has to keep the two copies
  of a checkpoint together (\<open>safe_env\<close>).
\<close>

inductive live_run ::
    "(checkpoint \<Rightarrow> 'w \<Rightarrow> error option \<times> 'w) \<Rightarrow> (checkpoint \<Rightarrow> error + bytes) \<Rightarrow> (string \<rightharpoonup> notary) \<Rightarrow> 'w \<Rightarrow>
      sealer_heads \<times> ch_table \<times> anchor_db \<times> 'w \<Rightarrow> (string \<times> record_in list) list \<Rightarrow> bool"
  for put marshal ns w0 where
  live_start: "live_run put marshal ns w0 ([], [], empty_db, w0) []"
| live_restart: "live_run put marshal ns w0 (hm, tbl, st) log \<Longrightarrow> live_run put marshal ns w0 ([], tbl, st) log"
| live_batch: "live_run put marshal ns w0 (hm, tbl, st) log \<Longrightarrow> length recs \<le> 2 ^ 24 \<Longrightarrow>
    SealBatch (ch_Head fail) (ch_Append (Ack ack)) t recs (hm, tbl) = (r, hm', tbl') \<Longrightarrow>
    live_run put marshal ns w0 (hm', tbl', st) (case r of Inl _ \<Rightarrow> log | Inr _ \<Rightarrow> log @ [(t, recs)])"
| live_anchor: "live_run put marshal ns w0 (hm, tbl, st) log \<Longrightarrow> safe_env ns env \<Longrightarrow>
    AnchorTenant put marshal env wm tbl t st = (res, st') \<Longrightarrow> live_run put marshal ns w0 (hm, tbl, st') log"
| live_anchor_all: "live_run put marshal ns w0 (hm, tbl, st) log \<Longrightarrow> (\<And>t. safe_env ns (envs t)) \<Longrightarrow>
    AnchorAll put marshal fail envs wm tbl st = (res, st') \<Longrightarrow> live_run put marshal ns w0 (hm, tbl, st') log"

lemma live_run_ingest: "live_run put marshal ns w0 (hm, tbl, st) log \<Longrightarrow> ingest_run (hm, tbl) log"
proof (induction "(hm, tbl, st)" log arbitrary: hm tbl st rule: live_run.induct)
  case live_start
  show ?case by (rule ingest_start)
next
  case (live_restart hm tbl st log)
  then show ?case using ingest_restart by blast
next
  case (live_batch hm tbl st log recs fail ack t r hm' tbl')
  then show ?case using ingest_batch by blast
qed

lemma live_run_tenants:
  assumes "live_run put marshal ns w0 (hm, tbl, st) log" and "log_size log \<le> 2 ^ 63"
    and "list_all (\<lambda>(u, recs). recs = [] \<or> ok u) log" and "ch_entries tbl t \<noteq> []"
  shows "ok t"
proof -
  have "batch_lines t log = map line_of (ch_entries tbl t)"
    using ingest_run_ok [OF live_run_ingest [OF assms(1)] assms(2)] by simp
  then have "batch_lines t log \<noteq> []" using assms(4) by simp
  then show ?thesis
    using assms(3) by (fastforce simp: batch_lines_def list_all_iff split: if_splits)
qed

context worm_store
begin

lemma live_run_ok:
  assumes "\<And>cp. \<exists>doc. marshal cp = Inr doc" and "inv w0" and "\<And>t. ok t \<Longrightarrow> all t w0 = Inr []"
  shows "live_run put marshal ns w0 (hm, tbl, st) log \<Longrightarrow> log_size log \<le> 2 ^ 63 \<Longrightarrow>
    list_all (\<lambda>(u, recs). recs = [] \<or> ok u) log \<Longrightarrow> plane_ok ns tbl st"
proof (induction "(hm, tbl, st)" log arbitrary: hm tbl st rule: live_run.induct)
  case live_start
  show ?case by (rule plane_ok_start) (fact assms)+
next
  case (live_batch hm tbl st log recs fail ack t r hm' tbl')
  have size: "log_size log \<le> 2 ^ 63"
    using live_batch.prems(1) by (auto simp: log_size_append split: sum.splits)
  have oks: "list_all (\<lambda>(u, recs). recs = [] \<or> ok u) log"
    using live_batch.prems(2) by (auto split: sum.splits)
  note before = ingest_run_ok [OF live_run_ingest [OF live_batch.hyps(1)] size]
  have "length (ch_entries tbl t) \<le> log_size log"
    by (rule ingest_run_length [OF live_run_ingest [OF live_batch.hyps(1)] size])
  then have "length (ch_entries tbl t) + length recs \<le> 2 ^ 64"
    using size live_batch.hyps(3) by simp
  note batch = ch.SealBatch_ok [OF conjunct1 [OF before] live_batch.hyps(4) this]
  show ?case
    using batch(2) by (intro plane_ok_sealed [OF live_batch.hyps(2) [OF size oks] batch(1)]) auto
next
  case (live_anchor hm tbl st log env wm t res st')
  show ?case
    by (rule AnchorTenant_plane [OF live_anchor.hyps(2) [OF live_anchor.prems] live_anchor.hyps(3) assms(1) _
          live_run_tenants [OF live_anchor.hyps(1) live_anchor.prems] live_anchor.hyps(4)])
      (use ingest_run_length [OF live_run_ingest [OF live_anchor.hyps(1)] live_anchor.prems(1)] live_anchor.prems
       in \<open>auto intro: le_trans\<close>)
next
  case (live_anchor_all hm tbl st log envs fail wm res st')
  show ?case
    by (rule AnchorAll_plane [OF live_anchor_all.hyps(2) [OF live_anchor_all.prems] live_anchor_all.hyps(3) assms(1) _
          live_run_tenants [OF live_anchor_all.hyps(1) live_anchor_all.prems] live_anchor_all.hyps(4)])
      (use ingest_run_length [OF live_run_ingest [OF live_anchor_all.hyps(1)] live_anchor_all.prems(1)]
         live_anchor_all.prems in \<open>auto intro: le_trans\<close>)
qed blast

end

lemma sum_batch_lines:
  assumes "finite A" and "list_all (\<lambda>(u, recs). recs = [] \<or> u \<in> A) log"
  shows "(\<Sum>t\<in>A. length (batch_lines t log)) = log_size log"
  using assms(2)
proof (induction log)
  case (Cons b log)
  obtain u recs where b: "b = (u, recs)" by fastforce
  have "(\<Sum>t\<in>A. length (batch_lines t (b # log))) =
      (\<Sum>t\<in>A. (if u = t then length recs else 0)) + (\<Sum>t\<in>A. length (batch_lines t log))"
    unfolding b by (subst sum.distrib [symmetric]) (auto simp: batch_lines_def intro!: sum.cong)
  also have "(\<Sum>t\<in>A. (if u = t then length recs else 0)) = length recs"
    using assms(1) Cons.prems b by (auto simp: sum.delta')
  finally show ?case
    using Cons b by (simp add: log_size_def)
qed (simp add: batch_lines_def log_size_def)

lemma batch_tenants_listed:
  assumes "\<And>t. map line_of (ch_entries tbl t) = batch_lines t log"
  shows "list_all (\<lambda>(u, recs). recs = [] \<or> u \<in> {t. ch_entries tbl t \<noteq> []}) log"
proof -
  have "ch_entries tbl u \<noteq> []" if "(u, recs) \<in> set log" "recs \<noteq> []" for u recs
  proof -
    have "batch_lines u log \<noteq> []"
      using that by (force simp: batch_lines_def)
    then show ?thesis using assms [of u] by auto
  qed
  then show ?thesis by (auto simp: list_all_iff)
qed

context worm_store
begin

lemma live_run_verified:
  assumes doc: "\<And>cp. \<exists>doc. marshal cp = Inr doc" and new: "inv w0" "\<And>t. ok t \<Longrightarrow> all t w0 = Inr []"
    and run: "live_run put marshal (by_name notaries) w0 (hm, tbl, db, w) log"
    and size: "log_size log \<le> 2 ^ 63" and tok: "ok t" and oks: "list_all (\<lambda>(u, recs). recs = [] \<or> ok u) log" and small: "\<And>t. length (batch_lines t log) \<le> 100000"
  shows "(\<exists>r. Run None no_failure no_failure no_failure tbl db (\<lambda>t. all t w) notaries = Inr r \<and>
      report_OK r \<and> EntriesChecked r = log_size log) \<and>
    (\<exists>r. RunTenant None None tbl db (\<lambda>t. all t w) notaries t = Inr r \<and> report_OK r \<and>
      EntriesChecked r = length (batch_lines t log) \<and> CheckpointsSeen r = length (projr (all t w)))"
proof
  have lines: "map line_of (ch_entries tbl t) = batch_lines t log" and wf: "ch_wf tbl" for t
    using ingest_run_ok [OF live_run_ingest [OF run] size] by (simp_all add: ch.sealed_ok_def)
  have len: "length (ch_entries tbl t) = length (batch_lines t log)" for t
    by (metis length_map lines)
  have "plane_ok (by_name notaries) tbl (db, w)"
    using doc new run size oks by (rule live_run_ok)
  note verified = plane_ok_verifies [OF this]
  obtain ts where ts: "ch_Tenants None tbl = Inr ts" "distinct ts"
    by (simp add: ch_Tenants_def)
  have tenants: "set ts = {t. ch_entries tbl t \<noteq> []}"
    using ch_Tenants_entries [OF wf ts(1)] by auto
  then have tenants_ok: "u \<in> set ts \<Longrightarrow> ok u" for u
    using live_run_tenants [OF run size oks] by simp
  have "(\<Sum>t\<in>set ts. length (ch_entries tbl t)) = log_size log"
    using tenants sum_batch_lines [of "set ts" log, OF finite_set] batch_tenants_listed [OF lines] by (simp only: len)
  moreover have "\<exists>s. load_tenants no_failure tbl xs s0 = Inr s" for xs s0
    by (induction xs arbitrary: s0) (simp_all add: ch_EntriesAsc_all seen_wf [OF wf])
  then obtain s where "load_tenants no_failure tbl ts NewStore = Inr s" by blast
  then have "Load None no_failure tbl = Inr (s, ts)"
    using ts(1) by (simp add: Load_def)
  ultimately show "\<exists>r. Run None no_failure no_failure no_failure tbl db (\<lambda>t. all t w) notaries = Inr r \<and>
      report_OK r \<and> EntriesChecked r = log_size log"
    using verified [OF ts(2)] small tenants_ok by (auto simp: Run_def report_OK_def len)
  show "\<exists>r. RunTenant None None tbl db (\<lambda>t. all t w) notaries t = Inr r \<and> report_OK r \<and>
      EntriesChecked r = length (batch_lines t log) \<and> CheckpointsSeen r = length (projr (all t w))"
    using verified [of "[t]"] small tok by (auto simp: RunTenant_def report_OK_def len)
qed

end

lemma NewMemStore_All: "mem_All t (NewMemStore name) = Inr []"
  by (simp add: mem_All_def NewMemStore_def)

lemma mem_live_run_verified:
  assumes "live_run mem_Put (\<lambda>cp. Inr (doc cp)) (by_name notaries) (NewMemStore name) (hm, tbl, db, w) log"
    and "log_size log \<le> 2 ^ 63" and "\<And>t. length (batch_lines t log) \<le> 100000"
  shows "(\<exists>r. Run None no_failure no_failure no_failure tbl db (\<lambda>t. mem_All t w) notaries = Inr r \<and>
      report_OK r \<and> EntriesChecked r = log_size log) \<and>
    (\<exists>r. RunTenant None None tbl db (\<lambda>t. mem_All t w) notaries t = Inr r \<and> report_OK r \<and>
      EntriesChecked r = length (batch_lines t log) \<and> CheckpointsSeen r = length (projr (mem_All t w)))"
  by (rule mem.live_run_verified [OF _ mem_inv_new NewMemStore_All assms(1,2) _ _ assms(3)]) (simp_all add: list_all_iff)

text \<open>
  C8 (internal/ingest/sealer.go, internal/anchor/anchor.go, internal/verifylive/verifylive.go):
  the system does not accuse itself. Consider the states that the gateway and the anchorer reach
  together through batches of any tenants, restarts and anchoring runs, where a read may fail,
  ClickHouse acknowledges or refuses each write, the WORM store takes a checkpoint or fails
  without storing it, notaries and proof inserts may fail, but \<open>PutCheckpoint\<close> succeeds once the
  WORM store has the checkpoint. In every such state verification of the live data plane reports no issue
  and checks exactly the records acknowledged to the clients, for all tenants together and for
  each alone, as long as no tenant holds more than 100000 rows. (Other properties show what
  happens when \<open>PutCheckpoint\<close> fails, a tenant has more rows, or a write is applied without an answer.)
\<close>

theorem live_data_plane_verifies:
  assumes "live_run mem_Put (\<lambda>cp. Inr (doc cp)) (by_name notaries) (NewMemStore name) (hm, tbl, db, w) log"
    and "log_size log \<le> 2 ^ 63" and "\<And>t. length (batch_lines t log) \<le> 100000"
  shows "(\<exists>r. Run None no_failure no_failure no_failure tbl db (\<lambda>t. mem_All t w) notaries = Inr r \<and>
      report_OK r \<and> EntriesChecked r = log_size log) \<and>
    (\<exists>r. RunTenant None None tbl db (\<lambda>t. mem_All t w) notaries t = Inr r \<and> report_OK r \<and>
      EntriesChecked r = length (batch_lines t log) \<and> CheckpointsSeen r = length (projr (mem_All t w)))"
  by (rule mem_live_run_verified [OF assms])

lemma RunTenant_seen:
  assumes "seen logs t = Inr st"
  obtains s l where "RunTenant None None logs db worm_All notaries t =
      (case Verify s worm_All l notaries of Inl f \<Rightarrow> Inl (Fault f) | Inr (r, _) \<Rightarrow> Inr r)"
    "rows s t = st" "set (store_Tenants s) = (if st = [] then {} else {t})" "distinct (store_Tenants s)"
proof -
  have "list_all (\<lambda>u. seen logs u = Inr ((\<lambda>_. st) u)) [t]"
    using assms by simp
  from load_plane_new [OF distinct_singleton this, of db] obtain s l where
    s: "load_plane no_failure no_failure logs db [t] NewStore NewProofLedger = Inr (s, l)"
    "\<And>u. rows s u = (if u \<in> set [t] then st else [])"
    "set (store_Tenants s) = {u \<in> set [t]. st \<noteq> []}" "distinct (store_Tenants s)"
    by metis
  show thesis
    by (rule that [of s l]) (use s in \<open>simp_all add: RunTenant_def verifyTenants_def\<close>)
qed

lemma seen_sorted: "seen logs t = Inr st \<Longrightarrow> sort_key Seq st = st"
  unfolding seen_def
  by (rule sort_key_sorted) (simp add: scanEntries_seq take_map [symmetric] sorted_wrt_take tenant_rows_def)

lemma seen_length: "seen logs t = Inr st \<Longrightarrow> length st \<le> 100000"
  unfolding seen_def by (drule scanEntries_seq) (metis length_map length_take min.cobounded2)

lemma clean_RunTenant_unaltered:
  assumes "RunTenant None None logs db worm_All notaries t = Inr r" and "report_OK r"
    and "seen logs t = Inr st" and "st \<noteq> []" and "worm_All t = Inr cps" and "cp \<in> set cps"
    and "intact t es" and "a \<le> b" and "b < length es" and cp: "Build t (window es a b) prev at = Inr cp"
    and "sized t" "sized es" "sized prev" "list_all entry_sized es" "list_all entry_sized st"
    and "list_all (\<lambda>c. sized (CheckpointID c)) cps"
  shows "map content (take (Suc b) st) = map content (take (Suc b) es) \<or>
    (\<exists>prev'\<in>insert [] (CheckpointID ` set cps).
      collides (replay_inputs t st a b prev' at) (replay_inputs t es a b prev at))"
proof -
  obtain s l where s: "RunTenant None None logs db worm_All notaries t =
      (case Verify s worm_All l notaries of Inl f \<Rightarrow> Inl (Fault f) | Inr (r, _) \<Rightarrow> Inr r)"
    "rows s t = st" "set (store_Tenants s) = (if st = [] then {} else {t})"
    by (rule RunTenant_seen [OF assms(3)])
  then obtain s' where v: "Verify s worm_All l notaries = Inr (r, s')"
    using assms(1) by (auto split: sum.splits)
  have "sized (rows s t)"
    using seen_length [OF assms(3)] by (simp add: s(2) sized_def)
  from verify_sound [OF v assms(2) _ assms(5-14) this] show ?thesis
    using s(2,3) assms(4,15,16) by (simp add: seen_sorted [OF assms(3)])
qed

text \<open>
  C4 (internal/verifylive/verifylive.go, RunTenant): a clean verification of a tenant means that
  its rows are the rows that were anchored. Whatever the rows, the working copy and the proofs
  have become: if the tenant still has a row, the report has no issue, and the WORM store holds a
  checkpoint built over the window \<open>a..b\<close> of a chain \<open>es\<close>, then the first \<open>b + 1\<close> rows that
  ClickHouse now returns carry the timestamps, sources and lines of \<open>es\<close>, or the two replays
  exhibit a SHA-256 collision.
\<close>

theorem clean_live_report_means_rows_unaltered:
  assumes "RunTenant None None logs db worm_All notaries t = Inr r" and "report_OK r"
    and "seen logs t = Inr st" and "st \<noteq> []" and "worm_All t = Inr cps" and "cp \<in> set cps"
    and "intact t es" and "a \<le> b" and "b < length es" and "Build t (window es a b) prev at = Inr cp"
    and "sized t" "sized es" "sized prev" "list_all entry_sized es" "list_all entry_sized st"
    and "list_all (\<lambda>c. sized (CheckpointID c)) cps"
  shows "map content (take (Suc b) st) = map content (take (Suc b) es) \<or>
    (\<exists>prev'\<in>insert [] (CheckpointID ` set cps).
      collides (replay_inputs t st a b prev' at) (replay_inputs t es a b prev at))"
  by (rule clean_RunTenant_unaltered [OF assms])

text \<open>
  C32 (internal/verifylive/verifylive.go and internal/verify/verify.go): a tenant whose rows are
  all gone is not checked. \<open>Verify\<close> iterates over the tenants of the reloaded store, so when
  every row of a tenant has been deleted its verification reports nothing and looks at no
  checkpoint, whatever checkpoints the WORM store holds for it.
\<close>

theorem wiped_tenant_is_not_checked:
  assumes "list_all (\<lambda>r. col_tenant_id r \<noteq> t) logs"
  shows "RunTenant None None logs db worm_All notaries t = Inr empty_report \<and> report_OK empty_report"
proof -
  have "filter (\<lambda>r. col_tenant_id r = t) logs = []"
    using assms by (simp add: filter_empty_conv list_all_iff)
  then have "seen logs t = Inr []"
    by (simp add: seen_def tenant_rows_def)
  then obtain s l where s: "RunTenant None None logs db worm_All notaries t =
      (case Verify s worm_All l notaries of Inl f \<Rightarrow> Inl (Fault f) | Inr (r, _) \<Rightarrow> Inr r)"
    "set (store_Tenants s) = (if [] = ([] :: entry list) then {} else {t})"
    by (rule RunTenant_seen)
  then show ?thesis
    by (simp add: Verify_def report_OK_def empty_report_def)
qed

subsection \<open>Histories that raise a false alarm\<close>

lemma anchored_window_ok:
  assumes "intact t (pre @ es)" and "length (pre @ es) < 2 ^ 45" and "anchored t prev es cps"
  shows "list_all window_ok cps"
  using assms
proof (induction cps arbitrary: pre es prev)
  case (Cons cp cps)
  let ?n = "unat (EntryCount cp)" and ?all = "pre @ es" and ?p = "length pre"
  have cp: "Build t (take ?n es) prev (AnchoredAt cp) = Inr cp" and n: "?n \<le> length es"
    and rest: "anchored t (CheckpointID cp) (drop ?n es) cps"
    using Cons.prems(3) by (simp_all add: Let_def)
  have ne: "take ?n es \<noteq> []" using Build_fields(1) [OF cp] .
  then have pos: "0 < ?n" "?p + (?n - 1) < length ?all" "?p < length ?all" using n by auto
  have "hd (take ?n es) = ?all ! ?p" "last (take ?n es) = ?all ! (?p + (?n - 1))"
    using ne n pos(1) by (auto simp: hd_conv_nth last_conv_nth nth_append)
  then have q: "SeqStart cp = of_nat ?p" "SeqEnd cp = of_nat (?p + (?n - 1))"
    using Build_fields(3,4) [OF cp] links_Seq_nth [OF Cons.prems(1) pos(2)] links_Seq_nth [OF Cons.prems(1) pos(3)]
    by (simp_all only: add_0)
  have "unat (of_nat ?p :: u64) = ?p" "unat (of_nat (?p + (?n - 1)) :: u64) = ?p + (?n - 1)"
    using pos(2,3) Cons.prems(2) by (intro unat_of_nat_less; simp)+
  then have u: "unat (SeqStart cp) = ?p" "unat (SeqEnd cp) = ?p + (?n - 1)"
    by (simp_all only: q)
  have "SeqEnd cp \<noteq> - 1"
    using u(2) pos(2) Cons.prems(2) by (auto simp: unsigned_minus_1_eq_mask mask_eq_exp_minus_1)
  then have "window_ok cp"
    using u n Cons.prems(2) by (simp add: window_ok_def word_le_nat_alt)
  moreover have eq: "pre @ es = (pre @ take ?n es) @ drop ?n es" by simp
  have "list_all window_ok cps"
    by (rule Cons.IH [of "pre @ take ?n es", OF _ _ rest]) (use Cons.prems in \<open>simp_all only: eq [symmetric]\<close>)
  ultimately show ?case by simp
qed simp

text \<open>A verification that sees fewer rows than have been anchored reports an issue.\<close>

lemma rows_behind_anchors:
  assumes "seen logs t = Inr st" and "st \<noteq> []" and "length st < covered cps"
    and "intact t es" and "length es < 2 ^ 45" and "worm_All t = Inr cps" and "anchored t [] es cps"
    and "list_all answers notaries"
  shows "\<exists>r. RunTenant None None logs db worm_All notaries t = Inr r \<and> \<not> report_OK r"
proof -
  let ?cp = "last cps"
  have cps: "cps \<noteq> []" "?cp \<in> set cps" using assms(3) by (cases cps; simp)+
  have ends: "unat (SeqEnd ?cp) + 1 = covered cps"
    using anchored_ends [of t "[]" es "[]" cps] assms(4,5,7) cps(1) by simp
  have ok: "list_all window_ok cps"
    using anchored_window_ok [of t "[]" es "[]" cps] assms(4,5,7) by simp
  obtain s l where s: "RunTenant None None logs db worm_All notaries t =
      (case Verify s worm_All l notaries of Inl f \<Rightarrow> Inl (Fault f) | Inr (r, _) \<Rightarrow> Inr r)"
    "rows s t = st" "set (store_Tenants s) = (if st = [] then {} else {t})"
    by (rule RunTenant_seen [OF assms(1)])
  have tenants: "set (store_Tenants s) = {t}" using s(3) assms(2) by simp
  obtain r s' where v: "Verify s worm_All l notaries = Inr (r, s')"
    using Verify_returns [OF assms(8), of worm_All s l] tenants ok assms(6) by (auto simp: list_all_iff)
  have covered: "covered cps < 2 ^ 45" using anchored_covered [OF assms(7)] assms(5) by simp
  have "\<not> report_OK r"
  proof
    assume "report_OK r"
    moreover have "window_ok ?cp" using ok cps(2) by (simp add: list_all_iff)
    ultimately have "unat (SeqEnd ?cp) < length (rows s t)"
      using verify_clean_covers [OF v _ _ assms(6) cps(2)] tenants ends covered assms(3) s(2) by simp
    with ends assms(3) s(2) show False by simp
  qed
  with s(1) v show ?thesis by simp
qed

text \<open>
  C37 (internal/logstore/clickhouse.go, EntriesAsc, as called by internal/verifylive): a tenant
  with more than 100000 anchored rows fails verification although nothing was touched. The limit 0
  passed for \<open>no limit\<close> is read as 100000, so the rows past it are taken for deleted.
\<close>

theorem long_tenant_is_reported_truncated:
  assumes "ch_wf tbl" and "intact t (ch_entries tbl t)" and "length (ch_entries tbl t) < 2 ^ 45"
    and "worm_All t = Inr cps" and "anchored t [] (ch_entries tbl t) cps" and "100000 < covered cps"
    and "list_all answers notaries"
  shows "\<exists>r. RunTenant None None tbl db worm_All notaries t = Inr r \<and> \<not> report_OK r"
proof (rule rows_behind_anchors [where worm_All = worm_All, OF seen_wf [OF assms(1)] _ _ assms(2-5,7)])
  have "covered cps \<le> length (ch_entries tbl t)" by (rule anchored_covered [OF assms(5)])
  then show "take 100000 (ch_entries tbl t) \<noteq> []" "length (take 100000 (ch_entries tbl t)) < covered cps"
    using assms(6) by auto
qed


lemma rebuilt_id_differs:
  assumes "Build t es prev at = Inr cp" and "Build t es prev' at = Inr cp'" and "prev \<noteq> prev'"
    and "CheckpointID cp = CheckpointID cp'"
    and "sized t" "sized prev" "sized prev'" "list_all (\<lambda>e. length (EntryHash e) = 32) es"
  shows "collides [id_input cp] [id_input cp']"
proof -
  note f = Build_fields [OF assms(1)] and f' = Build_fields [OF assms(2)]
  have "length (HeadHash cp) = 32" "length (HeadHash cp') = 32"
    using f(1,6) f'(6) assms(8) by (simp_all add: list_all_iff)
  then have "id_input cp \<noteq> id_input cp'"
    using id_input_inject [of cp cp'] f(2,7,8) f'(2,7,8) assms(3,5-7) by (auto simp: sized_def)
  then show ?thesis
    using Build_id_input [OF assms(1)] Build_id_input [OF assms(2)] assms(4) by (auto simp: collides_def)
qed

text \<open>
  Two checkpoints of a tenant whose windows both start at the first row, each built without a
  predecessor: the chain of checkpoints is broken at the second, whatever the rows.
\<close>

lemma overlapping_windows:
  assumes cp1: "Build t es [] at1 = Inr cp1" and cp2: "Build t es' [] at2 = Inr cp2"
    and es: "es' = es @ new" "new \<noteq> []" "intact t es'" and len: "length es' \<le> 100000"
  shows "SeqStart cp1 = 0" "SeqStart cp2 = 0" "SeqEnd cp1 < SeqEnd cp2"
    "SeqEnd cp2 = of_nat (length es' - 1)" "list_all window_ok [cp1, cp2]"
proof -
  note f1 = Build_fields [OF cp1] and f2 = Build_fields [OF cp2]
  have ne: "es \<noteq> []" "es' \<noteq> []" using f1(1) es(1,2) by simp_all
  have "intact t es" using es(1,3) by simp
  then have "Seq (hd es) = 0" "Seq (hd es') = 0"
    using es(3) ne by (cases es; cases es'; simp)+
  then show starts: "SeqStart cp1 = 0" "SeqStart cp2 = 0"
    using f1(3) f2(3) by simp_all
  have ends: "Seq (last es) = of_nat (length es - 1)" "Seq (last es') = of_nat (length es' - 1)"
    using links_Seq_nth [OF \<open>intact t es\<close>] links_Seq_nth [OF es(3)] ne by (simp_all add: last_conv_nth)
  moreover have "(of_nat (length es - 1) :: u64) < of_nat (length es' - 1)"
    using ne es(1,2) len by (auto simp: word_less_nat_alt unat_of_nat_less) (cases new; cases es; simp)
  ultimately show "SeqEnd cp1 < SeqEnd cp2" "SeqEnd cp2 = of_nat (length es' - 1)"
    using f1(4) f2(4) by simp_all
  have "length es \<le> 100000" using es(1) len by simp
  then have "unat (EntryCount cp1) = length es" "unat (EntryCount cp2) = length es'"
    using f1(5) f2(5) len by (simp_all add: unat_of_nat_less)
  then have anc: "anchored t [] es' [cp1]" "anchored t [] es' [cp2]"
    using cp1 cp2 f1(9) f2(9) es(1) by simp_all
  have "list_all window_ok [cp1]" "list_all window_ok [cp2]"
    using es(3) len by (intro anchored_window_ok [OF _ _ anc(1), of "[]"] anchored_window_ok [OF _ _ anc(2), of "[]"]; simp)+
  then show "list_all window_ok [cp1, cp2]" by simp
qed

text \<open>
  Two such checkpoints at the head of a tenant's list make every later verification report an issue,
  whatever has been sealed, anchored and copied since.
\<close>

lemma overlapping_windows_lasting_alarm:
  assumes cp1: "Build t es [] at1 = Inr cp1" and cp2: "Build t es' [] at2 = Inr cp2"
    and es: "es' = es @ new" "new \<noteq> []" and len: "length es' \<le> 100000"
    and tbl: "ch_wf tbl" "ch_entries tbl t = es' @ fs" "intact t (es' @ fs)"
    and all: "worm_All t = Inr (cp1 # cp2 # cps)" "list_all window_ok cps"
    and "sized t" and "list_all answers notaries"
  shows "\<exists>cp' r. Build t es' (CheckpointID cp1) (AnchoredAt cp2) = Inr cp' \<and>
    RunTenant None None tbl db worm_All notaries t = Inr r \<and>
    (if report_OK r then collides [id_input cp'] [id_input cp2] else True)"
proof -
  note f1 = Build_fields [OF cp1] and f2 = Build_fields [OF cp2]
  have intact: "intact t es'" using tbl(3) by simp
  note w = overlapping_windows [OF cp1 cp2 es intact len]
  have ne: "es' \<noteq> []" using es(1,2) by simp
  obtain cp' where cp': "Build t es' (CheckpointID cp1) (AnchoredAt cp2) = Inr cp'"
    using Build_Inr [OF ne] by blast
  define gs where "gs = take (100000 - length es') fs"
  obtain s l where s: "RunTenant None None tbl db worm_All notaries t =
      (case Verify s worm_All l notaries of Inl f \<Rightarrow> Inl (Fault f) | Inr (r, _) \<Rightarrow> Inr r)"
    "rows s t = take 100000 (ch_entries tbl t)"
    "set (store_Tenants s) = (if take 100000 (ch_entries tbl t) = [] then {} else {t})"
    by (rule RunTenant_seen [OF seen_wf [OF tbl(1)]])
  then have rows: "rows s t = es' @ gs" and tenants: "set (store_Tenants s) = {t}"
    using len ne by (auto simp: tbl(2) gs_def)
  have "es' @ gs = take 100000 (es' @ fs)" using len by (simp add: gs_def)
  then have intact': "intact t (es' @ gs)" using links_take [OF tbl(3), of 100000] by simp
  have len': "length (es' @ gs) \<le> 100000" using len by (simp add: gs_def)
  obtain r s' where v: "Verify s worm_All l notaries = Inr (r, s')"
    using Verify_returns [OF assms(12), of worm_All s l] tenants all w(5) by (auto simp: list_all_iff)
  have "collides [id_input cp'] [id_input cp2]" if "report_OK r"
  proof -
    from verify_tenants_clean [OF v [unfolded Verify_def] that, of t] tenants rows obtain s1 q1 q2 where
      s1: "rows s1 t = es' @ gs" and vc: "verifyCheckpoints s1 worm_All l (by_name notaries) t q1 = Inr q2" "report_OK q2"
      using intact_sorted [OF intact'] len' by auto
    then obtain q q' where q: "verify_checkpoint s1 l (by_name notaries) t (CheckpointID cp1) cp2 q = Inr q'"
        "checkpoint_loop s1 l (by_name notaries) t (CheckpointID cp2) cps q' = Inr q2"
      by (auto simp: verifyCheckpoints_def all bind_res_eq_Inr)
    from verify_checkpoint_clean [OF q(1) grows_OK [OF checkpoint_loop_grows [OF q(2)] vc(2)]] obtain es2 cp where
      "store_Range s1 t (SeqStart cp2) (SeqEnd cp2) = Inr (es2, True)"
      "Build t es2 (CheckpointID cp1) (AnchoredAt cp2) = Inr cp" "CheckpointID cp = CheckpointID cp2" by blast
    moreover have "store_Range s1 t (SeqStart cp2) (SeqEnd cp2) = Inr (es', True)"
      using store_Range_window [of s1 t "[]" es' gs] s1 intact' len' ne f2(3,4) by simp
    ultimately have "CheckpointID cp' = CheckpointID cp2" using cp' by simp
    moreover have "list_all (\<lambda>e. length (EntryHash e) = 32) es'"
      using links_hashes [OF intact] by (simp add: list_all_iff)
    moreover have "Build t es' [] (AnchoredAt cp2) = Inr cp2"
      using cp2 f2(9) by simp
    moreover have "length (CheckpointID cp1) = 32" using f1(11) by simp
    ultimately show ?thesis
      using \<open>sized t\<close> by (intro rebuilt_id_differs [OF cp']) (auto simp: sized_def)
  qed
  then show ?thesis using cp' s(1) v by auto
qed

lemma overlapping_windows_alarm:
  assumes "Build t es [] at1 = Inr cp1" and "Build t es' [] at2 = Inr cp2"
    and "es' = es @ new" and "new \<noteq> []" and "intact t es'" and "length es' \<le> 100000"
    and "ch_wf tbl" and "ch_entries tbl t = es'" and "worm_All t = Inr [cp1, cp2]"
    and "sized t" and "list_all answers notaries"
  shows "\<exists>cp' r. Build t es' (CheckpointID cp1) (AnchoredAt cp2) = Inr cp' \<and>
    RunTenant None None tbl db worm_All notaries t = Inr r \<and>
    (if report_OK r then collides [id_input cp'] [id_input cp2] else True)"
  using overlapping_windows_lasting_alarm [OF assms(1-4,6,7), where fs = "[]" and cps = "[]"] assms by simp


subsection \<open>Anchoring catches up\<close>

lemma live_anchor_catches_up:
  assumes run: "live_run mem_Put (\<lambda>cp. Inr (doc cp)) ns (NewMemStore name) (hm, tbl, db, w) log"
    and size: "log_size log \<le> 2 ^ 63" and "safe_env ns env" and "calm_env env"
    and anchor: "AnchorTenant mem_Put (\<lambda>cp. Inr (doc cp)) env wm tbl t (db, w) = ((k, f), db', w')"
  shows "f = None \<and> (\<exists>cps new. mem_All t w = Inr cps \<and> mem_All t w' = Inr (cps @ new) \<and> k = length new \<and>
    anchored t [] (ch_entries tbl t) (cps @ new) \<and>
    covered (cps @ new) = min (length (ch_entries tbl t)) (covered cps + 100000))"
proof -
  have doc: "\<exists>d. (\<lambda>cp. Inr (doc cp) :: error + bytes) cp = Inr d" for cp by simp
  have "mem_All t (NewMemStore name) = Inr []" for t
    by (simp add: mem_All_def NewMemStore_def)
  then have ok: "mem.plane_ok ns tbl (db, w)"
    by (intro mem.live_run_ok [OF doc mem_inv_new _ run size]) (simp_all add: list_all_iff)
  then obtain cps where cps: "mem.in_step ns (ch_entries tbl t) t cps (db, w)"
    by (auto simp: mem.plane_ok_def)
  have wf: "ch_wf tbl" "intact t (ch_entries tbl t)"
    using ok by (simp_all add: mem.plane_ok_def)
  have len: "length (ch_entries tbl t) \<le> 2 ^ 63"
    using ingest_run_length [OF live_run_ingest [OF run] size, of t] size by simp
  have "f = None"
    by (rule mem.AnchorTenant_calm [OF wf(1) cps assms(4) doc TrueI anchor])
  then show ?thesis
    using mem.AnchorTenant_ok [OF wf len assms(3) doc TrueI cps anchor] cps
    by (auto simp: mem.in_step_def)
qed

text \<open>
  In internal/anchor/anchor.go, \<open>AnchorTenant\<close>: anchoring makes progress. In a reachable state, a
  run in which every call succeeds returns without error; it adds the number of checkpoints it
  reports, each built from the next window of rows on the id of the one before; and together they
  reach the tenant's last row, or 100000 rows further than before.
\<close>

theorem anchoring_catches_up:
  assumes "live_run mem_Put (\<lambda>cp. Inr (doc cp)) ns (NewMemStore name) (hm, tbl, db, w) log"
    and "log_size log \<le> 2 ^ 63" and "safe_env ns env" and "calm_env env"
    and "AnchorTenant mem_Put (\<lambda>cp. Inr (doc cp)) env wm tbl t (db, w) = ((k, f), db', w')"
  shows "f = None \<and> (\<exists>cps new. mem_All t w = Inr cps \<and> mem_All t w' = Inr (cps @ new) \<and> k = length new \<and>
    anchored t [] (ch_entries tbl t) (cps @ new) \<and>
    covered (cps @ new) = min (length (ch_entries tbl t)) (covered cps + 100000))"
  by (rule live_anchor_catches_up [OF assms])

subsection \<open>Witnesses\<close>

definition sample_notary :: notary where
  "sample_notary = mock_iface (NewMockNotary ''TSA'' ''k'')"

definition sample_env :: anchor_env where
  "sample_env = \<lparr>ae_last = None, ae_entries = None, ae_now = \<lambda>_. 5, ae_worm = \<lambda>_. Ack None,
     ae_put_cp = \<lambda>_. Ack None, ae_notaries = \<lambda>_. [sample_notary], ae_put_proof = \<lambda>_ _. Ack None\<rparr>"

abbreviation sample_tbl :: ch_table where
  "sample_tbl \<equiv> snd (snd sample_ingest)"

definition sample_anchor :: "(nat \<times> failure option) \<times> anchor_db \<times> mem_store" where
  "sample_anchor =
     AnchorTenant mem_Put (\<lambda>cp. Inr []) sample_env 1000 sample_tbl ''acme'' (empty_db, NewMemStore ''WORM'')"

lemma sample_notary_ok: "answers sample_notary" "honest (by_name [sample_notary]) sample_notary"
  by (simp_all add: answers_def honest_def accepted_def sample_notary_def mock_iface_def mock_Verify_def
      mock_Stamp_def by_name_def)

lemma sample_env_ok: "safe_env (by_name [sample_notary]) sample_env" "calm_env sample_env"
  using sample_notary_ok(2)
  by (simp_all add: safe_env_def calm_env_def sample_env_def)
    (simp add: sample_notary_def mock_iface_def mock_Stamp_def)

lemma sample_live_ingest:
  "live_run put marshal ns w0 (fst (snd sample_ingest), sample_tbl, empty_db, w0) [(''acme'', [sample_record])]"
proof -
  obtain es where "sample_ingest = (Inr es, fst (snd sample_ingest), sample_tbl)"
    using sample_ingest_ok by (metis prod.collapse)
  then have "SealBatch (ch_Head None) (ch_Append (Ack None)) ''acme'' [sample_record] ([], []) =
      (Inr es, fst (snd sample_ingest), sample_tbl)"
    by (simp add: sample_ingest_def)
  from live_batch [OF live_start _ this] show ?thesis by simp
qed

lemma sample_live:
  "live_run mem_Put (\<lambda>cp. Inr []) (by_name [sample_notary]) (NewMemStore ''WORM'')
    (fst (snd sample_ingest), sample_tbl, snd sample_anchor) [(''acme'', [sample_record])]"
  unfolding sample_anchor_def by (rule live_anchor [OF sample_live_ingest sample_env_ok(1) prod.collapse [symmetric]])

lemma batch_lines_sample: "batch_lines t [(''acme'', [sample_record])] = (if t = ''acme'' then [line_in sample_record] else [])"
  by (simp add: batch_lines_def)

theorem live_data_plane_verifies_witness:
  "let db = fst (snd sample_anchor); w = snd (snd sample_anchor); log = [(''acme'', [sample_record])]
   in (\<exists>r. Run None no_failure no_failure no_failure sample_tbl db (\<lambda>t. mem_All t w) [sample_notary] = Inr r \<and>
        report_OK r \<and> EntriesChecked r = log_size log) \<and>
      (\<exists>r. RunTenant None None sample_tbl db (\<lambda>t. mem_All t w) [sample_notary] ''acme'' = Inr r \<and> report_OK r \<and>
        EntriesChecked r = length (batch_lines ''acme'' log) \<and>
        CheckpointsSeen r = length (projr (mem_All ''acme'' w)))"
  unfolding Let_def
  by (rule live_data_plane_verifies [where doc = "\<lambda>_. []" and hm = "fst (snd sample_ingest)" and name = "''WORM''"])
    (use sample_live in \<open>simp_all add: log_size_def batch_lines_sample\<close>)

theorem anchoring_catches_up_witness:
  "snd (fst sample_anchor) = None \<and> (\<exists>cps new. mem_All ''acme'' (NewMemStore ''WORM'') = Inr cps \<and>
    mem_All ''acme'' (snd (snd sample_anchor)) = Inr (cps @ new) \<and> fst (fst sample_anchor) = length new \<and>
    anchored ''acme'' [] (ch_entries sample_tbl ''acme'') (cps @ new) \<and>
    covered (cps @ new) = min (length (ch_entries sample_tbl ''acme'')) (covered cps + 100000))"
  by (rule anchoring_catches_up [where doc = "\<lambda>_. []" and log = "[(''acme'', [sample_record])]" and
        ns = "by_name [sample_notary]" and env = sample_env and wm = 1000 and db = empty_db and
        hm = "fst (snd sample_ingest)" and db' = "fst (snd sample_anchor)"])
    (use sample_live_ingest in \<open>simp_all add: log_size_def sample_env_ok flip: sample_anchor_def\<close>)

lemma sample_tbl_facts:
  "ch_wf sample_tbl" "intact t (ch_entries sample_tbl t)"
  "map line_of (ch_entries sample_tbl t) = batch_lines t [(''acme'', [sample_record])]"
  using ingest_run_ok [OF sample_ingest_run] by (auto simp: ch.sealed_ok_def log_size_def)

lemma sample_tbl_length: "length (ch_entries sample_tbl t) = (if t = ''acme'' then 1 else 0)"
  using arg_cong [OF sample_tbl_facts(3) [of t], of length] by (simp add: batch_lines_sample split: if_splits)

lemma sample_anchored:
  obtains cp where "mem_All ''acme'' (snd (snd sample_anchor)) = Inr [cp]" 
    "Build ''acme'' (ch_entries sample_tbl ''acme'') [] (AnchoredAt cp) = Inr cp"
proof -
  have log: "log_size [(''acme'', [sample_record])] \<le> 2 ^ 63" by (simp add: log_size_def)
  have new: "mem_All t (NewMemStore ''WORM'') = Inr []" for t
    by (simp add: mem_All_def NewMemStore_def)
  have doc: "\<exists>d. (\<lambda>cp. Inr [] :: error + bytes) cp = Inr d" for cp by simp
  have "mem.plane_ok (by_name [sample_notary]) sample_tbl (empty_db, NewMemStore ''WORM'')"
    by (rule mem.live_run_ok [OF doc mem_inv_new new sample_live_ingest log]) simp
  then obtain cps where cps: "mem.in_step (by_name [sample_notary]) (ch_entries sample_tbl ''acme'') ''acme'' cps
      (empty_db, NewMemStore ''WORM'')"
    by (auto simp: mem.plane_ok_def)
  have "cps = []"
    using cps new by (simp add: mem.in_step_def)
  have sa: "AnchorTenant mem_Put (\<lambda>cp. Inr []) sample_env 1000 sample_tbl ''acme'' (empty_db, NewMemStore ''WORM'') =
      ((fst (fst sample_anchor), snd (fst sample_anchor)), snd sample_anchor)"
    by (simp add: sample_anchor_def)
  have "snd (fst sample_anchor) = None"
    by (rule mem.AnchorTenant_calm [OF sample_tbl_facts(1) cps sample_env_ok(2) doc TrueI sa])
  with mem.AnchorTenant_ok [OF sample_tbl_facts(1,2) _ sample_env_ok(1) doc TrueI cps sa] \<open>cps = []\<close> obtain cps' where
    cps': "mem.in_step (by_name [sample_notary]) (ch_entries sample_tbl ''acme'') ''acme'' cps' (snd sample_anchor)"
      "covered cps' = 1"
    by (auto simp: sample_tbl_length)
  then obtain cp rest where split: "cps' = cp # rest" by (cases cps') auto
  have cp: "Build ''acme'' (take (unat (EntryCount cp)) (ch_entries sample_tbl ''acme'')) [] (AnchoredAt cp) = Inr cp"
    and rest: "anchored ''acme'' (CheckpointID cp) (drop (unat (EntryCount cp)) (ch_entries sample_tbl ''acme'')) rest"
    using cps'(1) split by (simp_all add: mem.in_step_def Let_def)
  have "unat (EntryCount cp) = 1"
    using Build_fields(1) [OF cp] cps'(2) split by (cases "unat (EntryCount cp)") auto
  then have "rest = []" "Build ''acme'' (ch_entries sample_tbl ''acme'') [] (AnchoredAt cp) = Inr cp"
    using rest cp by (simp_all add: sample_tbl_length anchored_nothing)
  with cps'(1) split show thesis
    by (intro that [of cp]) (simp_all add: mem.in_step_def)
qed

theorem clean_live_report_means_rows_unaltered_witness:
  "\<exists>cp. mem_All ''acme'' (snd (snd sample_anchor)) = Inr [cp] \<and>
    (let es = ch_entries sample_tbl ''acme''
     in map content (take (Suc 0) es) = map content (take (Suc 0) es) \<or>
        (\<exists>prev'\<in>insert [] (CheckpointID ` set [cp]).
          collides (replay_inputs ''acme'' es 0 0 prev' (AnchoredAt cp)) (replay_inputs ''acme'' es 0 0 [] (AnchoredAt cp))))"
proof -
  let ?es = "ch_entries sample_tbl ''acme''"
  obtain cp where cp: "mem_All ''acme'' (snd (snd sample_anchor)) = Inr [cp]"
    "Build ''acme'' ?es [] (AnchoredAt cp) = Inr cp" by (rule sample_anchored)
  have small: "length (batch_lines t [(''acme'', [sample_record])]) \<le> 100000" for t
    by (simp add: batch_lines_sample)
  obtain r where r: "RunTenant None None sample_tbl (fst (snd sample_anchor)) (\<lambda>t. mem_All t (snd (snd sample_anchor)))
      [sample_notary] ''acme'' = Inr r" "report_OK r"
    using mem_live_run_verified [where doc = "\<lambda>_. []" and t = "''acme''" and notaries = "[sample_notary]" and
        name = "''WORM''" and db = "fst (snd sample_anchor)" and w = "snd (snd sample_anchor)" and
        hm = "fst (snd sample_ingest)" and tbl = sample_tbl and log = "[(''acme'', [sample_record])]", OF _ _ small]
      sample_live
    by (auto simp: log_size_def)
  have one: "length ?es = 1" by (simp add: sample_tbl_length)
  then have win: "window ?es 0 0 = ?es" "take (Suc 0) ?es = ?es" "?es \<noteq> []"
    by (auto simp: window_def)
  have seen: "seen sample_tbl ''acme'' = Inr ?es"
    using one by (simp add: seen_wf [OF sample_tbl_facts(1)])
  have sized: "list_all entry_sized ?es"
  proof -
    obtain e where e: "?es = [e]" using one by (cases ?es) auto
    have "line_of e = line_in sample_record"
      using sample_tbl_facts(3) [of "''acme''"] e by (simp add: batch_lines_sample)
    then show ?thesis
      by (simp add: e line_of_def line_in_def sample_record_def entry_sized_def sized_def)
  qed
  have "map content (take (Suc 0) ?es) = map content (take (Suc 0) ?es) \<or>
      (\<exists>prev'\<in>insert [] (CheckpointID ` set [cp]).
        collides (replay_inputs ''acme'' ?es 0 0 prev' (AnchoredAt cp)) (replay_inputs ''acme'' ?es 0 0 [] (AnchoredAt cp)))"
    by (rule clean_live_report_means_rows_unaltered [OF r seen win(3) cp(1) _ sample_tbl_facts(2) _ _ _ _ _ _ sized sized])
      (use one win cp Build_fields(11) [OF cp(2)] in \<open>simp_all add: sized_def\<close>)
  then show ?thesis
    using cp(1) by (auto simp: Let_def)
qed

theorem wiped_tenant_is_not_checked_witness:
  "RunTenant None None sample_tbl empty_db (\<lambda>_. Inr [demo_checkpoint]) [sample_notary] ''globex'' = Inr empty_report \<and>
    report_OK empty_report"
proof (rule wiped_tenant_is_not_checked)
  have "ch_entries sample_tbl ''globex'' = []"
    using sample_tbl_length [of "''globex''"] by simp
  then have "tenant_rows sample_tbl ''globex'' = []"
    by (simp add: tenant_rows_wf [OF sample_tbl_facts(1)])
  then show "list_all (\<lambda>r. col_tenant_id r \<noteq> ''globex'') sample_tbl"
    by (simp add: tenant_rows_def list_all_iff filter_empty_conv)
qed

text \<open>A tenant with 100001 rows, and a second batch for the first tenant.\<close>

definition long_records :: "record_in list" where
  "long_records = replicate 100001 sample_record"

definition long_tbl :: ch_table where
  "long_tbl = snd (snd (SealBatch (ch_Head None) (ch_Append (Ack None)) ''acme'' long_records ([], [])))"

lemma first_batch:
  assumes "length recs \<le> 2 ^ 24"
  shows "\<exists>hm. ingest_run (hm, snd (snd (SealBatch (ch_Head None) (ch_Append (Ack None)) t recs ([], [])))) [(t, recs)]"
proof -
  obtain r hm tbl where b: "SealBatch (ch_Head None) (ch_Append (Ack None)) t recs ([], []) = (r, hm, tbl)"
    by (metis surj_pair)
  then have "\<exists>es. r = Inr es"
    by (auto simp: SealBatch_def ch_Head_def tenant_rows_def Let_def ch_Append_def split: prod.splits if_splits)
  with ingest_batch [OF ingest_start assms b] show ?thesis
    by (auto simp: b)
qed

lemma long_tbl_facts:
  "ch_wf long_tbl" "intact ''acme'' (ch_entries long_tbl ''acme'')" "length (ch_entries long_tbl ''acme'') = 100001"
proof -
  have len: "length long_records = 100001" by (simp add: long_records_def)
  then have "length long_records \<le> 2 ^ 24" by simp
  from first_batch [OF this, of "''acme''"] obtain hm where run: "ingest_run (hm, long_tbl) [(''acme'', long_records)]"
    by (auto simp: long_tbl_def)
  have ok: "ch.sealed_ok (hm, long_tbl) \<and>
      (\<forall>t. map line_of (ch_entries long_tbl t) = batch_lines t [(''acme'', long_records)])"
    using ingest_run_ok [OF run] len by (simp add: log_size_def)
  then show "ch_wf long_tbl" "intact ''acme'' (ch_entries long_tbl ''acme'')"
    by (simp_all add: ch.sealed_ok_def)
  have "map line_of (ch_entries long_tbl ''acme'') = map line_in long_records"
    using ok by (simp add: batch_lines_def)
  from arg_cong [OF this, of length] len show "length (ch_entries long_tbl ''acme'') = 100001" by simp
qed

theorem long_tenant_is_reported_truncated_witness:
  "\<exists>cp r. Build ''acme'' (ch_entries long_tbl ''acme'') [] 7 = Inr cp \<and>
    RunTenant None None long_tbl empty_db (\<lambda>_. Inr [cp]) [sample_notary] ''acme'' = Inr r \<and> \<not> report_OK r"
proof -
  let ?es = "ch_entries long_tbl ''acme''"
  obtain cp where cp: "Build ''acme'' ?es [] 7 = Inr cp"
    using Build_Inr [of ?es] long_tbl_facts(3) by fastforce
  have n: "unat (EntryCount cp) = 100001"
    using Build_fields(5) [OF cp] long_tbl_facts(3) by simp
  have "\<exists>r. RunTenant None None long_tbl empty_db (\<lambda>_. Inr [cp]) [sample_notary] ''acme'' = Inr r \<and> \<not> report_OK r"
    by (rule long_tenant_is_reported_truncated [where cps = "[cp]", OF long_tbl_facts(1,2)])
      (use cp n long_tbl_facts(3) Build_fields(9) [OF cp] sample_notary_ok(1) in simp_all)
  with cp show ?thesis by blast
qed







end
