(* ===== verification/S3_Worm.thy ===== *)
theory S3_Worm
  imports Codec Verify_Live
begin

section \<open>The S3 Object Lock store (internal/witness/s3worm/s3worm.go)\<close>

text \<open>
  The checkpoint store that production uses. The S3 client is a parameter: a record of the calls
  the code makes, as functions of the state of the service (which holds the clock too).
  What the code relies on is the locale \<open>object_store\<close>: while the service is up, a stored object
  is returned, an absent one is \<open>NoSuchKey\<close>, a write replaces what is returned for its key, and
  a listing names each key with the prefix once. The laws are stated only for the keys S3 takes:
  valid UTF-8 of at most 1024 bytes.
\<close>

subsection \<open>The client\<close>

datatype s3_error = ApiError string string | OtherError error

definition err_of :: "s3_error \<Rightarrow> error" where
  "err_of e = (case e of ApiError _ txt \<Rightarrow> ErrText txt | OtherError err \<Rightarrow> err)"

record put_request =
  pr_bucket :: string
  pr_key :: string
  pr_body :: bytes
  pr_content_type :: string
  pr_lock_mode :: string
  pr_retain_until :: int

text \<open>
  \<open>get_object\<close> gives an API error, or a body whose reading fails, or its bytes;
  \<open>list_pages\<close> gives the pages of the paginator, the last of which may be an error.
\<close>

record 's s3_client =
  head_bucket :: "string \<Rightarrow> 's \<Rightarrow> s3_error option"
  create_bucket :: "string \<Rightarrow> bool \<Rightarrow> 's \<Rightarrow> s3_error option \<times> 's"
  put_object :: "put_request \<Rightarrow> 's \<Rightarrow> s3_error option \<times> 's"
  get_object :: "string \<Rightarrow> string \<Rightarrow> 's \<Rightarrow> s3_error + (error + bytes)"
  list_pages :: "string \<Rightarrow> string \<Rightarrow> 's \<Rightarrow> (s3_error + string list) list"
  now_ns :: "'s \<Rightarrow> int"

subsection \<open>The store\<close>

record s3_config =
  Region :: string
  Bucket :: string
  AccessKey :: string
  SecretKey :: string
  Endpoint :: string
  UsePathStyle :: bool
  RetainFor :: i64

record 's s3_store =
  st_client :: "'s s3_client"
  st_bucket :: string
  st_retainFor :: i64

definition s3_New ::
    "(string \<Rightarrow> string \<Rightarrow> string \<Rightarrow> string option \<Rightarrow> bool \<Rightarrow> 's s3_client) \<Rightarrow> s3_config \<Rightarrow> 's s3_store" where
  "s3_New NewFromConfig cfg =
     (let client = NewFromConfig (Region cfg) (AccessKey cfg) (SecretKey cfg)
            (if Endpoint cfg \<noteq> '''' then Some (Endpoint cfg) else None) (UsePathStyle cfg);
          retain = RetainFor cfg;
          retain = (if retain = 0 then 365 * 24 * 3600000000000 else retain)
      in \<lparr>st_client = client, st_bucket = Bucket cfg, st_retainFor = retain\<rparr>)"

definition EnsureBucket :: "'s s3_store \<Rightarrow> 's \<Rightarrow> error option \<times> 's" where
  "EnsureBucket st s =
     (case head_bucket (st_client st) (st_bucket st) s of
        None \<Rightarrow> (None, s)
      | Some _ \<Rightarrow>
          (case create_bucket (st_client st) (st_bucket st) True s of
             (err, s) \<Rightarrow> (map_option err_of err, s)))"

definition s3_key :: "string \<Rightarrow> u64 \<Rightarrow> string" where
  "s3_key tenantID seqEnd = tenantID @ ''/checkpoints/'' @ dec_pad 20 (unat seqEnd) @ ''.json''"

definition isNotFound :: "s3_error \<Rightarrow> bool" where
  "isNotFound e \<longleftrightarrow> (case e of ApiError c _ \<Rightarrow> c = ''NotFound'' \<or> c = ''NoSuchKey'' | OtherError _ \<Rightarrow> False)"

definition s3_Get :: "'s s3_store \<Rightarrow> string \<Rightarrow> u64 \<Rightarrow> 's \<Rightarrow> error + checkpoint option" where
  "s3_Get st tenantID seqEnd s =
     (case get_object (st_client st) (st_bucket st) (s3_key tenantID seqEnd) s of
        Inl err \<Rightarrow> (if isNotFound err then Inr None else Inl (err_of err))
      | Inr (Inl err) \<Rightarrow> Inl err
      | Inr (Inr data) \<Rightarrow> bind_res (Unmarshal data) (\<lambda>cp. Inr (Some cp)))"

text \<open>The part of \<open>Put\<close> after its look-up, and the whole.\<close>

definition s3_write :: "'s s3_store \<Rightarrow> checkpoint \<Rightarrow> 's \<Rightarrow> error option \<times> 's" where
  "s3_write st cp s =
     (case Marshal cp of
        Inl err \<Rightarrow> (Some err, s)
      | Inr body \<Rightarrow>
          (case put_object (st_client st)
                  \<lparr>pr_bucket = st_bucket st, pr_key = s3_key (CpTenantID cp) (SeqEnd cp), pr_body = body,
                   pr_content_type = ''application/json'', pr_lock_mode = ''COMPLIANCE'',
                   pr_retain_until = now_ns (st_client st) s + sint (st_retainFor st)\<rparr> s of
             (err, s) \<Rightarrow> (map_option err_of err, s)))"

definition s3_Put :: "'s s3_store \<Rightarrow> checkpoint \<Rightarrow> 's \<Rightarrow> error option \<times> 's" where
  "s3_Put st cp s =
     (case s3_Get st (CpTenantID cp) (SeqEnd cp) s of
        Inl err \<Rightarrow> (Some err, s)
      | Inr (Some _) \<Rightarrow> (Some ErrImmutable, s)
      | Inr None \<Rightarrow> s3_write st cp s)"

definition read_object :: "'s s3_store \<Rightarrow> 's \<Rightarrow> string \<Rightarrow> error + checkpoint" where
  "read_object st s k =
     (case get_object (st_client st) (st_bucket st) k s of
        Inl err \<Rightarrow> Inl (err_of err)
      | Inr (Inl err) \<Rightarrow> Inl err
      | Inr (Inr data) \<Rightarrow> Unmarshal data)"

fun read_page :: "'s s3_store \<Rightarrow> 's \<Rightarrow> string list \<Rightarrow> checkpoint list \<Rightarrow> error + checkpoint list" where
  "read_page st s [] cps = Inr cps"
| "read_page st s (k # ks) cps = bind_res (read_object st s k) (\<lambda>cp. read_page st s ks (cps @ [cp]))"

fun read_pages :: "'s s3_store \<Rightarrow> 's \<Rightarrow> (s3_error + string list) list \<Rightarrow> checkpoint list \<Rightarrow> error + checkpoint list" where
  "read_pages st s [] cps = Inr cps"
| "read_pages st s (Inl err # ps) cps = Inl (err_of err)"
| "read_pages st s (Inr ks # ps) cps = bind_res (read_page st s ks cps) (\<lambda>cps. read_pages st s ps cps)"

text \<open>(\<open>sort.Slice\<close> does not fix the order of equal keys; \<open>sort_key\<close> is one of its results.)\<close>

definition s3_All :: "'s s3_store \<Rightarrow> string \<Rightarrow> 's \<Rightarrow> error + checkpoint list" where
  "s3_All st tenantID s =
     bind_res (read_pages st s (list_pages (st_client st) (st_bucket st) (tenantID @ ''/checkpoints/'') s) [])
       (\<lambda>cps. Inr (sort_key SeqEnd cps))"

subsection \<open>Keys\<close>

definition key_ok :: "string \<Rightarrow> bool" where
  "key_ok k \<longleftrightarrow> valid_utf8 k \<and> k \<noteq> [] \<and> length k \<le> 1024"

text \<open>The tenants the store keeps apart: no slash in the name, and room for the rest of the key.\<close>

definition s3_ok :: "string \<Rightarrow> bool" where
  "s3_ok t \<longleftrightarrow> valid_utf8 t \<and> CHR ''/'' \<notin> set t \<and> length t \<le> 986"

lemma digit_ascii: "is_digit c \<Longrightarrow> code c < 0x80"
  by (auto simp: is_digit_def code_of_char)

lemma length_dec_pad_u64: "length (dec_pad 20 (unat (n :: u64))) = 20"
  using length_dec [of "unat n" 19] unsigned_less [of n, where ?'a = nat] by (simp add: dec_pad_def)

lemma valid_utf8_key:
  assumes "valid_utf8 t"
  shows "valid_utf8 (t @ ''/checkpoints/'')" and "valid_utf8 (s3_key t n)"
proof -
  have "valid_utf8 ''/checkpoints/''"
    by (rule valid_utf8_ascii) (simp add: code_of_char)
  with assms show "valid_utf8 (t @ ''/checkpoints/'')" by (rule valid_utf8_append)
  have "list_all (\<lambda>c. code c < 0x80) (dec_pad 20 (unat n))"
    using dec_pad_digits [of _ 20 "unat n"] digit_ascii by (auto simp: list_all_iff)
  then have "valid_utf8 (''/checkpoints/'' @ dec_pad 20 (unat n) @ ''.json'')"
    by (intro valid_utf8_ascii) (simp add: code_of_char)
  with assms show "valid_utf8 (s3_key t n)"
    unfolding s3_key_def by (rule valid_utf8_append)
qed

lemma key_ok_s3_key: "s3_ok t \<Longrightarrow> key_ok (s3_key t n)"
  using valid_utf8_key(2) [of t n] by (auto simp: key_ok_def s3_ok_def s3_key_def length_dec_pad_u64)

lemma key_ok_prefix: "s3_ok t \<Longrightarrow> key_ok (t @ ''/checkpoints/'')"
  using valid_utf8_key(1) [of t] by (auto simp: key_ok_def s3_ok_def)

lemma s3_key_inj [simp]: "s3_key t m = s3_key u n \<longleftrightarrow> t = u \<and> m = n"
proof
  assume "s3_key t m = s3_key u n"
  then have "(t @ ''/checkpoints'') @ CHR ''/'' # dec_pad 20 (unat m) = (u @ ''/checkpoints'') @ CHR ''/'' # dec_pad 20 (unat n)"
    by (simp add: s3_key_def)
  moreover have "CHR ''/'' \<notin> set (dec_pad 20 k)" for k
    using dec_pad_digits [of "CHR ''/''" 20 k] by (auto simp: is_digit_def)
  ultimately have "t @ ''/checkpoints'' = u @ ''/checkpoints'' \<and> dec_pad 20 (unat m) = dec_pad 20 (unat n)"
    by (intro split_at_last_sep)
  then show "t = u \<and> m = n" by (simp add: word_unat_eq_iff)
qed simp

definition has_prefix :: "string \<Rightarrow> string \<Rightarrow> bool" where
  "has_prefix p k \<longleftrightarrow> take (length p) k = p"

lemma has_prefix_append [simp]: "has_prefix p (p @ r)"
  by (simp add: has_prefix_def)

lemma has_prefix_s3_key:
  assumes "s3_ok t" and "s3_ok u"
  shows "has_prefix (t @ ''/checkpoints/'') (s3_key u n) \<longleftrightarrow> t = u"
proof
  assume "has_prefix (t @ ''/checkpoints/'') (s3_key u n)"
  then have "s3_key u n = (t @ ''/checkpoints/'') @ drop (length (t @ ''/checkpoints/'')) (s3_key u n)"
    unfolding has_prefix_def by (metis append_take_drop_id)
  then have "t @ CHR ''/'' # (''checkpoints/'' @ drop (length (t @ ''/checkpoints/'')) (s3_key u n)) =
      u @ CHR ''/'' # (''checkpoints/'' @ dec_pad 20 (unat n) @ ''.json'')"
    by (simp add: s3_key_def)
  then show "t = u"
    using assms split_at_first_sep [of t "CHR ''/''" _ u] by (auto simp: s3_ok_def)
next
  assume "t = u"
  then show "has_prefix (t @ ''/checkpoints/'') (s3_key u n)"
    using has_prefix_append [of "t @ ''/checkpoints/''" "dec_pad 20 (unat n) @ ''.json''"] by (simp add: s3_key_def)
qed

subsection \<open>The service\<close>

locale object_store =
  fixes st :: "'s s3_store"
    and up :: "'s \<Rightarrow> bool"
    and objects :: "'s \<Rightarrow> string \<rightharpoonup> bytes"
  assumes retention: "0 < sint (st_retainFor st)"
    and get_hit: "up s \<Longrightarrow> objects s k = Some b \<Longrightarrow> get_object (st_client st) (st_bucket st) k s = Inr (Inr b)"
    and get_miss: "up s \<Longrightarrow> key_ok k \<Longrightarrow> objects s k = None \<Longrightarrow>
      \<exists>txt. get_object (st_client st) (st_bucket st) k s = Inl (ApiError ''NoSuchKey'' txt)"
    and put_done: "up s \<Longrightarrow> pr_bucket r = st_bucket st \<Longrightarrow> key_ok (pr_key r) \<Longrightarrow> pr_lock_mode r = ''COMPLIANCE'' \<Longrightarrow>
      now_ns (st_client st) s < pr_retain_until r \<Longrightarrow> put_object (st_client st) r s = (e, s') \<Longrightarrow>
      e = None \<and> up s' \<and> objects s' = (objects s)(pr_key r \<mapsto> pr_body r)"
    and list_done: "up s \<Longrightarrow> key_ok p \<Longrightarrow>
      \<exists>pages. list_pages (st_client st) (st_bucket st) p s = map Inr pages \<and> distinct (concat pages) \<and>
        set (concat pages) = {k. objects s k \<noteq> None \<and> has_prefix p k}"
begin

lemma Get_object:
  assumes "up s" and "key_ok (s3_key t m)"
  shows "s3_Get st t m s =
    (case objects s (s3_key t m) of
       None \<Rightarrow> Inr None
     | Some b \<Rightarrow> bind_res (Unmarshal b) (\<lambda>cp. Inr (Some cp)))"
  using assms get_miss [OF assms] by (auto simp: s3_Get_def get_hit isNotFound_def split: option.splits)

lemma write_object:
  assumes "up s" and "key_ok (s3_key (CpTenantID cp) (SeqEnd cp))"
  obtains b s' where "s3_write st cp s = (None, s')" and "up s'" and "Marshal cp = Inr b"
    and "objects s' = (objects s)(s3_key (CpTenantID cp) (SeqEnd cp) \<mapsto> b)"
proof -
  obtain b where b: "Marshal cp = Inr b" by (simp add: Marshal_def)
  let ?r = "\<lparr>pr_bucket = st_bucket st, pr_key = s3_key (CpTenantID cp) (SeqEnd cp), pr_body = b,
      pr_content_type = ''application/json'', pr_lock_mode = ''COMPLIANCE'',
      pr_retain_until = now_ns (st_client st) s + sint (st_retainFor st)\<rparr>"
  obtain e s' where p: "put_object (st_client st) ?r s = (e, s')" by fastforce
  from put_done [OF assms(1) _ _ _ _ p] assms(2) retention
  show thesis
    by (intro that [of s' b]) (simp_all add: b p s3_write_def)
qed

text \<open>The bucket holds only checkpoints, each under its own key.\<close>

definition filed :: "'s \<Rightarrow> bool" where
  "filed s \<longleftrightarrow> up s \<and>
     (\<forall>k b. objects s k = Some b \<longrightarrow>
       (\<exists>cp. Unmarshal b = Inr cp \<and> s3_ok (CpTenantID cp) \<and> k = s3_key (CpTenantID cp) (SeqEnd cp)))"

lemma filed_Get:
  assumes "filed s" and "s3_ok t"
  shows "s3_Get st t m s = Inr None \<and> objects s (s3_key t m) = None \<or>
    (\<exists>cp b. s3_Get st t m s = Inr (Some cp) \<and> objects s (s3_key t m) = Some b \<and> Unmarshal b = Inr cp \<and>
      CpTenantID cp = t \<and> SeqEnd cp = m)"
  using assms Get_object [OF _ key_ok_s3_key [OF assms(2)], of s m]
  by (cases "objects s (s3_key t m)") (fastforce simp: filed_def)+

lemma filed_write:
  assumes "filed s" and "s3_ok (CpTenantID cp)"
  shows "\<exists>s'. s3_write st cp s = (None, s') \<and> filed s' \<and>
    (\<forall>t m. s3_ok t \<longrightarrow> s3_Get st t m s' =
      (if t = CpTenantID cp \<and> m = SeqEnd cp then Inr (Some cp) else s3_Get st t m s))"
proof -
  have up: "up s" using assms(1) by (simp add: filed_def)
  obtain b s' where w: "s3_write st cp s = (None, s')" "up s'" "Marshal cp = Inr b"
    and o: "objects s' = (objects s)(s3_key (CpTenantID cp) (SeqEnd cp) \<mapsto> b)"
    by (rule write_object [OF up key_ok_s3_key [OF assms(2)]])
  have u: "Unmarshal b = Inr cp"
    using Unmarshal_Marshal [OF w(3)] assms(2) by (simp add: s3_ok_def sanitize_valid)
  have "filed s'"
    using assms w(2) u by (auto simp: filed_def o)
  moreover have "s3_Get st t m s' = (if t = CpTenantID cp \<and> m = SeqEnd cp then Inr (Some cp) else s3_Get st t m s)"
    if t: "s3_ok t" for t m
    using Get_object [OF up key_ok_s3_key [OF t], of m] Get_object [OF w(2) key_ok_s3_key [OF t], of m]
    by (simp add: o u)
  ultimately show ?thesis using w(1) by blast
qed

lemma read_page_all:
  "list_all (\<lambda>k. read_object st s k = Inr (f k)) ks \<Longrightarrow> read_page st s ks cps = Inr (cps @ map f ks)"
  by (induction ks arbitrary: cps) simp_all

lemma read_pages_all:
  "list_all (\<lambda>k. read_object st s k = Inr (f k)) (concat pages) \<Longrightarrow>
    read_pages st s (map Inr pages) cps = Inr (cps @ map f (concat pages))"
proof (induction pages arbitrary: cps)
  case (Cons ks pages)
  then have "read_page st s ks cps = Inr (cps @ map f ks)"
    by (intro read_page_all) simp
  with Cons show ?case by simp
qed simp

text \<open>What \<open>All\<close> lists: the checkpoints of the objects with the tenant's prefix, once each.\<close>

lemma All_objects:
  assumes "up s" and "key_ok (t @ ''/checkpoints/'')"
    and f: "\<And>k b. objects s k = Some b \<Longrightarrow> has_prefix (t @ ''/checkpoints/'') k \<Longrightarrow> Unmarshal b = Inr (f k)"
  obtains ks where "s3_All st t s = Inr (sort_key SeqEnd (map f ks))" and "distinct ks"
    and "set ks = {k. objects s k \<noteq> None \<and> has_prefix (t @ ''/checkpoints/'') k}"
proof -
  obtain pages where pages: "list_pages (st_client st) (st_bucket st) (t @ ''/checkpoints/'') s = map Inr pages"
      "distinct (concat pages)" "set (concat pages) = {k. objects s k \<noteq> None \<and> has_prefix (t @ ''/checkpoints/'') k}"
    using list_done [OF assms(1,2)] by blast
  have "list_all (\<lambda>k. read_object st s k = Inr (f k)) (concat pages)"
    using pages(3) get_hit [OF assms(1)] f unfolding list_all_iff read_object_def by auto
  from read_pages_all [OF this] pages show thesis
    by (intro that [of "concat pages"]) (simp_all add: s3_All_def)
qed

lemma filed_All:
  assumes "filed s" and "s3_ok t"
  obtains cps where "s3_All st t s = Inr cps" and "sorted (map SeqEnd cps)" and "distinct (map SeqEnd cps)"
    and "\<And>cp. cp \<in> set cps \<longleftrightarrow> s3_Get st t (SeqEnd cp) s = Inr (Some cp)"
proof -
  define f where "f k = projr (Unmarshal (the (objects s k)))" for k
  have up: "up s" using assms(1) by (simp add: filed_def)
  have f: "Unmarshal b = Inr (f k)" if "objects s k = Some b" for k b
    using assms(1) that by (fastforce simp: filed_def f_def)
  obtain ks where ks: "s3_All st t s = Inr (sort_key SeqEnd (map f ks))" "distinct ks"
      "set ks = {k. objects s k \<noteq> None \<and> has_prefix (t @ ''/checkpoints/'') k}"
    by (rule All_objects [OF up key_ok_prefix [OF assms(2)]]) (use f in blast)+
  have key: "CpTenantID (f k) = t \<and> k = s3_key t (SeqEnd (f k))" if "k \<in> set ks" for k
    using assms that ks(3) f [of k] has_prefix_s3_key [OF assms(2)] by (fastforce simp: filed_def)
  have "distinct (map (SeqEnd \<circ> f) ks)"
    using ks(2) key by (auto simp: distinct_map intro!: inj_onI) metis
  moreover have "cp \<in> f ` set ks \<longleftrightarrow> s3_Get st t (SeqEnd cp) s = Inr (Some cp)" for cp
  proof
    assume "cp \<in> f ` set ks"
    then obtain k where k: "k \<in> set ks" "cp = f k" by blast
    then obtain b where "objects s (s3_key t (SeqEnd cp)) = Some b"
      using key [OF k(1)] ks(3) by auto
    then show "s3_Get st t (SeqEnd cp) s = Inr (Some cp)"
      using filed_Get [OF assms, of "SeqEnd cp"] f key [OF k(1)] k(2) by fastforce
  next
    assume "s3_Get st t (SeqEnd cp) s = Inr (Some cp)"
    then obtain b where "objects s (s3_key t (SeqEnd cp)) = Some b" "Unmarshal b = Inr cp"
      using filed_Get [OF assms, of "SeqEnd cp"] by auto
    then show "cp \<in> f ` set ks"
      using f [of "s3_key t (SeqEnd cp)" b] has_prefix_s3_key [OF assms(2,2)] ks(3) by (auto intro!: image_eqI)
  qed
  ultimately show thesis
    using ks(1) by (intro that [of "sort_key SeqEnd (map f ks)"]) (simp_all add: distinct_map_sort_key)
qed

end

sublocale object_store \<subseteq> s3: worm_store "s3_Put st" "s3_Get st" "s3_All st" filed s3_ok
proof (unfold_locales, goal_cases)
  case (1 s cp r s')
  then show ?case
    using filed_Get [OF 1(1,2), of "SeqEnd cp"] filed_write [OF 1(1,2)] by (auto simp: s3_Put_def)
next
  case (2 s cp r s')
  then show ?case
    using filed_write [OF 2(1,2)] by (auto simp: s3_Put_def)
next
  case (3 s cp cp' r s')
  then show ?case by (simp add: s3_Put_def)
next
  case (4 s cp t r s' m)
  then show ?case
    using filed_Get [OF 4(1,2), of "SeqEnd cp"] filed_write [OF 4(1,2)] by (auto simp: s3_Put_def)
next
  case (5 s t m cp)
  then show ?case using filed_Get [OF 5(1,2), of m] by auto
next
  case (6 s t m)
  then show ?case using filed_Get [OF 6(1,2), of m] by auto
next
  case (7 s t)
  then show ?case by (metis filed_All)
next
  case (8 s t cps cp)
  then show ?case by (metis filed_All Inr_inject)
next
  case (9 s t cps)
  then show ?case by (metis filed_All Inr_inject)
qed

subsection \<open>A bucket\<close>

text \<open>
  A versioned bucket with object lock that keeps the laws: each key has its versions, newest
  first, with their retention; a write adds a version, a retention that is already over is refused.
\<close>

record bucket =
  bk_versions :: "(string \<times> (int \<times> bytes) list) list"
  bk_clock :: int

definition bucket_objects :: "bucket \<Rightarrow> string \<rightharpoonup> bytes" where
  "bucket_objects s k =
     (case map_of (bk_versions s) k of Some ((_, b) # _) \<Rightarrow> Some b | _ \<Rightarrow> None)"

definition bucket_client :: "bucket s3_client" where
  "bucket_client =
     \<lparr>head_bucket = (\<lambda>_ _. None),
      create_bucket = (\<lambda>_ _ s. (None, s)),
      put_object = (\<lambda>r s.
        if pr_retain_until r \<le> bk_clock s
        then (Some (ApiError ''InvalidArgument'' ''The retain until date must be in the future!''), s)
        else (None, s\<lparr>bk_versions := AList.update (pr_key r)
               ((pr_retain_until r, pr_body r) # get_or [] (bk_versions s) (pr_key r)) (bk_versions s)\<rparr>)),
      get_object = (\<lambda>_ k s.
        case bucket_objects s k of
          Some b \<Rightarrow> Inr (Inr b)
        | None \<Rightarrow> Inl (ApiError ''NoSuchKey'' ''The specified key does not exist.'')),
      list_pages = (\<lambda>_ p s. [Inr (sort (filter (\<lambda>k. has_prefix p k \<and> bucket_objects s k \<noteq> None)
        (map fst (bk_versions s))))]),
      now_ns = bk_clock\<rparr>"

definition bucket_store :: "bucket s3_store" where
  "bucket_store =
     s3_New (\<lambda>_ _ _ _ _. bucket_client)
       \<lparr>Region = ''us-east-1'', Bucket = ''worm'', AccessKey = ''id'', SecretKey = ''s'', Endpoint = '''',
        UsePathStyle = False, RetainFor = 0\<rparr>"

definition bucket_up :: "bucket \<Rightarrow> bool" where
  "bucket_up s \<longleftrightarrow> distinct (map fst (bk_versions s))"

lemma bucket_store_fields:
  "st_client bucket_store = bucket_client" "sint (st_retainFor bucket_store) = 31536000000000000"
  by (simp_all add: bucket_store_def s3_New_def Let_def)

lemma bucket_objects_update:
  "bucket_objects (s\<lparr>bk_versions := AList.update k ((u, b) # vs) (bk_versions s)\<rparr>) = (bucket_objects s)(k \<mapsto> b)"
  by (auto simp: bucket_objects_def update_conv')

lemma bucket_objects_listed: "bucket_objects s k \<noteq> None \<Longrightarrow> k \<in> set (map fst (bk_versions s))"
  by (force simp: bucket_objects_def dest!: map_of_SomeD split: option.splits)

interpretation bucket: object_store bucket_store bucket_up bucket_objects
proof (unfold_locales, goal_cases)
  case 1
  show ?case by (simp add: bucket_store_fields)
next
  case (2 s k b)
  then show ?case by (simp add: bucket_store_fields bucket_client_def)
next
  case (3 s k)
  then show ?case by (simp add: bucket_store_fields bucket_client_def)
next
  case (4 s r e s')
  then show ?case
    by (auto simp: bucket_store_fields bucket_client_def bucket_objects_update bucket_up_def distinct_update)
next
  case (5 s p)
  then show ?case
    using bucket_objects_listed [of s]
    by (intro exI [of _ "[sort (filter (\<lambda>k. has_prefix p k \<and> bucket_objects s k \<noteq> None) (map fst (bk_versions s)))]"])
      (auto simp: bucket_store_fields bucket_client_def bucket_up_def)
qed

definition empty_bucket :: bucket where
  "empty_bucket = \<lparr>bk_versions = [], bk_clock = 0\<rparr>"

lemma empty_bucket: "bucket_up empty_bucket" "bucket_objects empty_bucket k = None"
  by (simp_all add: empty_bucket_def bucket_up_def bucket_objects_def)

subsection \<open>Properties\<close>

context object_store
begin

lemma filed_start: "up s \<Longrightarrow> (\<And>k. objects s k = None) \<Longrightarrow> filed s"
  by (simp add: filed_def)

lemma Get_start: "up s \<Longrightarrow> (\<And>k. objects s k = None) \<Longrightarrow> s3_ok t \<Longrightarrow> s3_Get st t m s = Inr None"
  by (simp add: Get_object key_ok_s3_key)

lemma All_start:
  assumes "up s" and "\<And>k. objects s k = None" and "s3_ok t"
  shows "s3_All st t s = Inr []"
  using All_objects [OF assms(1) key_ok_prefix [OF assms(3)], of "\<lambda>_. undefined"] assms(2) by fastforce

lemma puts_first:
  assumes "up w" and "\<And>k. objects w k = None" and "list_all (\<lambda>cp. s3_ok (CpTenantID cp)) cps" and "s3_ok t"
  shows "s3_Get st t m (fold (\<lambda>cp s. snd (s3_Put st cp s)) cps w) = Inr (first_for t m cps) \<and>
    (\<exists>ys. s3_All st t (fold (\<lambda>cp s. snd (s3_Put st cp s)) cps w) = Inr ys \<and>
      sorted (map SeqEnd ys) \<and> distinct (map SeqEnd ys) \<and> set ys = {cp. first_for t (SeqEnd cp) cps = Some cp})"
proof -
  let ?w = "fold (\<lambda>cp s. snd (s3_Put st cp s)) cps w"
  have filed: "filed w" using assms(1,2) by (rule filed_start)
  have got: "s3_Get st t m ?w = Inr (first_for t m cps)" for m
    by (rule s3.get_puts [OF filed assms(3,4) Get_start [OF assms(1,2,4)]])
  have filed': "filed ?w" by (rule s3.inv_puts [OF filed assms(3)])
  obtain ys where ys: "s3_All st t ?w = Inr ys" using s3.all_total [OF filed' assms(4)] by blast
  have "set ys = {cp. first_for t (SeqEnd cp) cps = Some cp}"
    using s3.all_get [OF filed' assms(4) ys] by (auto simp: got)
  with s3.all_sorted [OF filed' assms(4) ys] ys got show ?thesis by blast
qed

lemma racing_writes:
  assumes "filed s" and "s3_ok t" and "CpTenantID a = t" and "CpTenantID b = t"
    and "SeqEnd a = m" and "SeqEnd b = m" and "s3_Get st t m s = Inr None"
  shows "s3_Put st a s = s3_write st a s \<and> s3_Put st b s = s3_write st b s \<and>
    (\<exists>s1 s2. s3_write st a s = (None, s1) \<and> s3_Get st t m s1 = Inr (Some a) \<and>
      s3_write st b s1 = (None, s2) \<and> s3_Get st t m s2 = Inr (Some b) \<and>
      s3_Put st b s1 = (Some ErrImmutable, s1))"
proof -
  obtain s1 where s1: "s3_write st a s = (None, s1)" "filed s1" "s3_Get st t m s1 = Inr (Some a)"
    using filed_write [of s a] assms by auto
  moreover obtain s2 where "s3_write st b s1 = (None, s2)" "s3_Get st t m s2 = Inr (Some b)"
    using filed_write [of s1 b] assms s1(2) by auto
  ultimately show ?thesis
    using assms(3-7) by (simp add: s3_Put_def)
qed

lemma listing_of_prefix:
  assumes "up w" and "\<And>k. objects w k = None" and "CpTenantID cp = t @ ''/checkpoints/'' @ u"
    and "valid_utf8 (CpTenantID cp)" and "valid_utf8 t" and "length (CpTenantID cp) \<le> 986"
  shows "\<exists>w'. s3_Put st cp w = (None, w') \<and> s3_All st t w' = Inr [cp]"
proof -
  let ?k = "s3_key (CpTenantID cp) (SeqEnd cp)"
  have k: "key_ok ?k"
    using valid_utf8_key(2) [OF assms(4)] assms(6) by (simp add: key_ok_def s3_key_def length_dec_pad_u64)
  have p: "key_ok (t @ ''/checkpoints/'')"
    using valid_utf8_key(1) [OF assms(5)] assms(3,6) by (simp add: key_ok_def)
  obtain b w' where w': "s3_write st cp w = (None, w')" "up w'" "Marshal cp = Inr b"
      "objects w' = (objects w)(?k \<mapsto> b)"
    by (rule write_object [OF assms(1) k])
  have u: "Unmarshal b = Inr cp"
    using Unmarshal_Marshal [OF w'(3)] by (simp add: sanitize_valid assms(4))
  have "has_prefix (t @ ''/checkpoints/'') ?k"
    using has_prefix_append [of "t @ ''/checkpoints/''" "u @ ''/checkpoints/'' @ dec_pad 20 (unat (SeqEnd cp)) @ ''.json''"]
    by (simp add: s3_key_def assms(3))
  then have keys: "{k. objects w' k \<noteq> None \<and> has_prefix (t @ ''/checkpoints/'') k} = {?k}"
    by (auto simp: w'(4) assms(2))
  obtain ks where ks: "s3_All st t w' = Inr (sort_key SeqEnd (map (\<lambda>_. cp) ks))" "distinct ks" "set ks = {?k}"
    by (rule All_objects [OF w'(2) p, of "\<lambda>_. cp", unfolded keys]) (use u in \<open>simp_all add: w'(4) assms(2) split: if_splits\<close>)
  then have "ks = [?k]"
    using distinct_card [of ks] by (cases ks; cases "tl ks") auto
  with ks w'(1) Get_object [OF assms(1) k] assms(2) show ?thesis
    by (simp add: s3_Put_def)
qed

lemma live_run_over_s3:
  assumes "up w0" and "\<And>k. objects w0 k = None"
    and "live_run (s3_Put st) Marshal (by_name notaries) w0 (hm, tbl, db, w) log"
    and "log_size log \<le> 2 ^ 63" and "\<And>t. length (batch_lines t log) \<le> 100000"
    and "list_all (\<lambda>(u, recs). recs = [] \<or> s3_ok u) log" and "s3_ok t"
  shows "(\<exists>r. Run None no_failure no_failure no_failure tbl db (\<lambda>t. s3_All st t w) notaries = Inr r \<and>
      report_OK r \<and> EntriesChecked r = log_size log) \<and>
    (\<exists>r. RunTenant None None tbl db (\<lambda>t. s3_All st t w) notaries t = Inr r \<and> report_OK r \<and>
      EntriesChecked r = length (batch_lines t log) \<and> CheckpointsSeen r = length (projr (s3_All st t w)))"
  using assms(3,4,7,6,5)
  by (intro s3.live_run_verified [OF _ filed_start [OF assms(1,2)] All_start [OF assms(1,2)]]) (simp_all add: Marshal_def)

end

text \<open>
  In internal/witness/s3worm/s3worm.go, internal/anchor/anchor.go, internal/verifylive/verifylive.go:
  the production data plane does not accuse itself either. With the checkpoints in an S3 bucket
  that starts empty, in every state that ingestion and anchoring reach, verification reports no
  issue and checks exactly the acknowledged records, for tenants whose names are valid UTF-8
  without a slash and fit in a key.
\<close>

theorem live_plane_verifies_over_s3:
  assumes "object_store st up objects" and "up w0" and "\<And>k. objects w0 k = None"
    and "live_run (s3_Put st) Marshal (by_name notaries) w0 (hm, tbl, db, w) log"
    and "log_size log \<le> 2 ^ 63" and "\<And>t. length (batch_lines t log) \<le> 100000"
    and "list_all (\<lambda>(u, recs). recs = [] \<or> s3_ok u) log" and "s3_ok t"
  shows "(\<exists>r. Run None no_failure no_failure no_failure tbl db (\<lambda>t. s3_All st t w) notaries = Inr r \<and>
      report_OK r \<and> EntriesChecked r = log_size log) \<and>
    (\<exists>r. RunTenant None None tbl db (\<lambda>t. s3_All st t w) notaries t = Inr r \<and> report_OK r \<and>
      EntriesChecked r = length (batch_lines t log) \<and> CheckpointsSeen r = length (projr (s3_All st t w)))"
  by (rule object_store.live_run_over_s3 [OF assms])

definition sample_s3_anchor :: "(nat \<times> failure option) \<times> anchor_db \<times> bucket" where
  "sample_s3_anchor =
     AnchorTenant (s3_Put bucket_store) Marshal sample_env 1000 sample_tbl ''acme'' (empty_db, empty_bucket)"

lemma s3_ok_acme: "s3_ok ''acme''"
  by (simp add: s3_ok_def rune_size_ascii code_of_char)

theorem live_plane_verifies_over_s3_witness:
  "let db = fst (snd sample_s3_anchor); w = snd (snd sample_s3_anchor); log = [(''acme'', [sample_record])]
   in (\<exists>r. Run None no_failure no_failure no_failure sample_tbl db (\<lambda>t. s3_All bucket_store t w) [sample_notary] = Inr r \<and>
        report_OK r \<and> EntriesChecked r = log_size log) \<and>
      (\<exists>r. RunTenant None None sample_tbl db (\<lambda>t. s3_All bucket_store t w) [sample_notary] ''acme'' = Inr r \<and>
        report_OK r \<and> EntriesChecked r = length (batch_lines ''acme'' log) \<and>
        CheckpointsSeen r = length (projr (s3_All bucket_store ''acme'' w)))"
proof -
  have "live_run (s3_Put bucket_store) Marshal (by_name [sample_notary]) empty_bucket
      (fst (snd sample_ingest), sample_tbl, snd sample_s3_anchor) [(''acme'', [sample_record])]"
    unfolding sample_s3_anchor_def by (rule live_anchor [OF sample_live_ingest sample_env_ok(1) prod.collapse [symmetric]])
  then show ?thesis
    unfolding Let_def
    by (intro live_plane_verifies_over_s3 [OF bucket.object_store_axioms empty_bucket,
          where hm = "fst (snd sample_ingest)"])
      (simp_all add: log_size_def batch_lines_sample s3_ok_acme)
qed

text \<open>
  C9 (internal/witness/s3worm/s3worm.go, Put, Get and All): used by one writer, the bucket is an
  append-only map, for tenant ids that are valid UTF-8 without a slash and of at most 986 bytes.
  After any sequence of \<open>Put\<close> calls for such tenants on an empty bucket of an S3 that keeps what it
  documents (\<open>object_store\<close>), \<open>Get\<close> returns the first checkpoint written under the tenant and the
  sequence end, and \<open>All\<close> lists exactly those first checkpoints of the tenant, by ascending
  sequence end. (Another property shows what a slash in an id does.)
\<close>

theorem s3_store_keeps_first_checkpoint:
  assumes "object_store st up objects" and "up w" and "\<And>k. objects w k = None"
    and "list_all (\<lambda>cp. s3_ok (CpTenantID cp)) cps" and "s3_ok t"
  shows "s3_Get st t m (fold (\<lambda>cp s. snd (s3_Put st cp s)) cps w) = Inr (first_for t m cps) \<and>
    (\<exists>ys. s3_All st t (fold (\<lambda>cp s. snd (s3_Put st cp s)) cps w) = Inr ys \<and>
      sorted (map SeqEnd ys) \<and> distinct (map SeqEnd ys) \<and> set ys = {cp. first_for t (SeqEnd cp) cps = Some cp})"
  by (rule object_store.puts_first [OF assms])

theorem s3_store_keeps_first_checkpoint_witness:
  "let cps = [demo_checkpoint, demo_checkpoint\<lparr>MerkleRoot := []\<rparr>];
       w = fold (\<lambda>cp s. snd (s3_Put bucket_store cp s)) cps empty_bucket
   in s3_Get bucket_store ''acme'' 1 w = Inr (first_for ''acme'' 1 cps) \<and>
     (\<exists>ys. s3_All bucket_store ''acme'' w = Inr ys \<and> sorted (map SeqEnd ys) \<and> distinct (map SeqEnd ys) \<and>
       set ys = {cp. first_for ''acme'' (SeqEnd cp) cps = Some cp})"
  unfolding Let_def
  by (rule s3_store_keeps_first_checkpoint [OF bucket.object_store_axioms empty_bucket])
    (simp_all add: s3_ok_acme demo_checkpoint_fields)

text \<open>
  C39 (internal/witness/s3worm/s3worm.go, Put): the refusal to overwrite is a check before the
  write, not a condition of it. Two anchorers that put different checkpoints under one key, both
  looking it up before either writes, both succeed, and the second replaces the first in \<open>Get\<close>
  (a locked version stays in the bucket, but nothing reads versions); one after the other, the
  second is refused with \<open>ErrImmutable\<close>.
\<close>

theorem s3_racing_puts_replace:
  assumes "object_store st up objects" and "object_store.filed up objects s" and "s3_ok t"
    and "CpTenantID a = t" and "CpTenantID b = t" and "SeqEnd a = m" and "SeqEnd b = m"
    and "s3_Get st t m s = Inr None"
  shows "s3_Put st a s = s3_write st a s \<and> s3_Put st b s = s3_write st b s \<and>
    (\<exists>s1 s2. s3_write st a s = (None, s1) \<and> s3_Get st t m s1 = Inr (Some a) \<and>
      s3_write st b s1 = (None, s2) \<and> s3_Get st t m s2 = Inr (Some b) \<and>
      s3_Put st b s1 = (Some ErrImmutable, s1))"
  by (rule object_store.racing_writes [OF assms])

theorem s3_racing_puts_replace_witness:
  "let st = bucket_store; s = empty_bucket; a = demo_checkpoint; b = demo_checkpoint\<lparr>MerkleRoot := []\<rparr>
   in s3_Put st a s = s3_write st a s \<and> s3_Put st b s = s3_write st b s \<and>
    (\<exists>s1 s2. s3_write st a s = (None, s1) \<and> s3_Get st ''acme'' 1 s1 = Inr (Some a) \<and>
      s3_write st b s1 = (None, s2) \<and> s3_Get st ''acme'' 1 s2 = Inr (Some b) \<and>
      s3_Put st b s1 = (Some ErrImmutable, s1))"
  unfolding Let_def
  by (rule s3_racing_puts_replace [OF bucket.object_store_axioms bucket.filed_start [OF empty_bucket] s3_ok_acme])
    (simp_all add: demo_checkpoint_fields bucket.Get_start [OF empty_bucket] s3_ok_acme)

text \<open>
  C40 (internal/witness/s3worm/s3worm.go, All): tenants whose names contain \<open>"/checkpoints/"\<close> are not
  kept apart. A checkpoint put for tenant \<open>t/checkpoints/u\<close> is listed as a checkpoint of tenant
  \<open>t\<close>, because \<open>All\<close> selects by key prefix only.
\<close>

theorem s3_listing_mixes_nested_tenants:
  assumes "object_store st up objects" and "up w" and "\<And>k. objects w k = None"
    and "CpTenantID cp = t @ ''/checkpoints/'' @ u" and "valid_utf8 (CpTenantID cp)" and "valid_utf8 t"
    and "length (CpTenantID cp) \<le> 986"
  shows "\<exists>w'. s3_Put st cp w = (None, w') \<and> s3_All st t w' = Inr [cp]"
  by (rule object_store.listing_of_prefix [OF assms])

theorem s3_listing_mixes_nested_tenants_witness:
  "\<exists>w'. s3_Put bucket_store (demo_checkpoint\<lparr>CpTenantID := ''a/checkpoints/b''\<rparr>) empty_bucket = (None, w') \<and>
    s3_All bucket_store ''a'' w' = Inr [demo_checkpoint\<lparr>CpTenantID := ''a/checkpoints/b''\<rparr>]"
  by (rule s3_listing_mixes_nested_tenants [OF bucket.object_store_axioms empty_bucket, where u = "''b''"])
    (simp_all add: rune_size_ascii code_of_char)

end
