(* ===== verification/Ots_Wire.thy ===== *)
theory Ots_Wire
  imports Std_Text Std_Hash
begin

section \<open>OpenTimestamps proofs: the wire format (internal/witness/opentimestamps/wire.go)\<close>

text \<open>
  The proof tree, its serialization and its parser. The reader is the list of unread bytes; a
  read gives the value and the rest, or fails: with an \<open>error\<close>, or with a panic where
  \<open>readN\<close> asks \<open>make\<close> for an impossible length (\<open>int(n)\<close> of an attacker's 64-bit
  length). \<open>deserializeTimestamp\<close> and its closure \<open>one\<close> are one function over the node
  under construction. RIPEMD-160 is not part of Go's standard library: it is the parameter
  \<open>rmd\<close> of the functions that apply operations.
\<close>

type_synonym 'a parsed = "failure + 'a \<times> bytes"

subsection \<open>Integers and byte strings\<close>

function writeVaruint :: "u64 \<Rightarrow> bytes" where
  "writeVaruint n =
     (if 0x80 \<le> n then (ucast (n AND 0x7f) OR 0x80) # writeVaruint (drop_bit 7 n) else [ucast n])"
  by pat_completeness auto

lemma drop_bit_7_less: "0x80 \<le> n \<Longrightarrow> unat (drop_bit 7 n) < unat (n :: u64)"
  by (simp add: word_le_nat_alt drop_bit_eq_div unat_div)

termination writeVaruint
  by (relation "measure unat") (simp_all add: drop_bit_7_less)

declare writeVaruint.simps [simp del]

definition writeVarbytes :: "bytes \<Rightarrow> bytes" where
  "writeVarbytes b = writeVaruint (of_nat (length b)) @ b"

fun readByte :: "bytes \<Rightarrow> byte parsed" where
  "readByte [] = Inl (Failed ErrEOF)"
| "readByte (b # r) = Inr (b, r)"

definition readN :: "u64 \<Rightarrow> bytes \<Rightarrow> bytes parsed" where
  "readN n r =
     (if make_panics 1 n then Inl (Fault Panic)
      else if unat n \<le> length r then Inr (take (unat n) r, drop (unat n) r)
      else if r = [] then Inl (Failed ErrEOF)
      else Inl (Failed ErrUnexpectedEOF))"

fun varuint_loop :: "u64 \<Rightarrow> nat \<Rightarrow> bytes \<Rightarrow> u64 parsed" where
  "varuint_loop result shift [] = Inl (Failed ErrEOF)"
| "varuint_loop result shift (b # r) =
     (let result = result OR push_bit shift (ucast (b AND 0x7f))
      in if b AND 0x80 = 0 then Inr (result, r) else varuint_loop result (shift + 7) r)"

definition varuint :: "bytes \<Rightarrow> u64 parsed" where
  "varuint r = varuint_loop 0 0 r"

definition varbytes :: "bytes \<Rightarrow> bytes parsed" where
  "varbytes r = bind_res (varuint r) (\<lambda>(n, r). readN n r)"

subsection \<open>Operations\<close>

definition opAppend :: byte where "opAppend = 0xf0"
definition opPrepend :: byte where "opPrepend = 0xf1"
definition opSHA1 :: byte where "opSHA1 = 0x02"
definition opRIPEMD160 :: byte where "opRIPEMD160 = 0x03"
definition opSHA256 :: byte where "opSHA256 = 0x08"

lemmas op_tags = opAppend_def opPrepend_def opSHA1_def opRIPEMD160_def opSHA256_def

record op =
  op_tag :: byte
  op_arg :: bytes

definition op_apply :: "(bytes \<Rightarrow> bytes) \<Rightarrow> op \<Rightarrow> bytes \<Rightarrow> bytes" where
  "op_apply rmd o' msg =
     (if op_tag o' = opAppend then msg @ op_arg o'
      else if op_tag o' = opPrepend then op_arg o' @ msg
      else if op_tag o' = opSHA256 then sha256 msg
      else if op_tag o' = opSHA1 then sha1 msg
      else if op_tag o' = opRIPEMD160 then rmd msg
      else msg)"

definition op_serialize :: "op \<Rightarrow> bytes" where
  "op_serialize o' =
     op_tag o' # (if op_tag o' = opAppend \<or> op_tag o' = opPrepend then writeVarbytes (op_arg o') else [])"

definition deserializeOp :: "byte \<Rightarrow> bytes \<Rightarrow> op parsed" where
  "deserializeOp tag r =
     (if tag = opAppend \<or> tag = opPrepend then
        bind_res (varbytes r) (\<lambda>(arg, r). Inr (\<lparr>op_tag = tag, op_arg = arg\<rparr>, r))
      else if tag = opSHA1 \<or> tag = opRIPEMD160 \<or> tag = opSHA256 then
        Inr (\<lparr>op_tag = tag, op_arg = []\<rparr>, r)
      else Inl (Failed (ErrText (''opentimestamps: unsupported op tag 0x'' @ hex_encode [tag]))))"

subsection \<open>Attestations\<close>

definition tagPending :: bytes where
  "tagPending = [0x83, 0xdf, 0xe3, 0x0d, 0x2e, 0xf9, 0x0c, 0x8e]"

definition tagBitcoin :: bytes where
  "tagBitcoin = [0x05, 0x88, 0x96, 0x0d, 0x73, 0xd7, 0x19, 0x01]"

record attestation =
  att_tag :: bytes
  att_uri :: string
  att_height :: u64
  att_raw :: bytes

definition isPending :: "attestation \<Rightarrow> bool" where
  "isPending a \<longleftrightarrow> att_tag a = tagPending"

definition isBitcoin :: "attestation \<Rightarrow> bool" where
  "isBitcoin a \<longleftrightarrow> att_tag a = tagBitcoin"

definition att_body :: "attestation \<Rightarrow> bytes" where
  "att_body a =
     (if isPending a then writeVarbytes (bytes_of (att_uri a))
      else if isBitcoin a then writeVaruint (att_height a)
      else att_raw a)"

definition att_serialize :: "attestation \<Rightarrow> bytes" where
  "att_serialize a = att_tag a @ writeVarbytes (att_body a)"

definition deserializeAttestation :: "bytes \<Rightarrow> attestation parsed" where
  "deserializeAttestation r =
     bind_res (readN 8 r) (\<lambda>(tag, r).
     bind_res (varbytes r) (\<lambda>(body, r).
       (let a = \<lparr>att_tag = tag, att_uri = '''', att_height = 0, att_raw = []\<rparr>
        in if tag = tagPending then
             bind_res (varbytes body) (\<lambda>(uri, _). Inr (a\<lparr>att_uri := string_of uri\<rparr>, r))
           else if tag = tagBitcoin then
             bind_res (varuint body) (\<lambda>(h, _). Inr (a\<lparr>att_height := h\<rparr>, r))
           else Inr (a\<lparr>att_raw := body\<rparr>, r))))"

subsection \<open>The proof tree\<close>

datatype timestamp =
  Timestamp (ts_msg: bytes) (ts_attestations: "attestation list") (ts_ops: "(op \<times> timestamp) list")

fun atts_serialize :: "nat \<Rightarrow> nat \<Rightarrow> attestation list \<Rightarrow> bytes" where
  "atts_serialize tot i [] = []"
| "atts_serialize tot i (a # as) =
     (if i < tot - 1 then [0xff] else []) @ 0x00 # att_serialize a @ atts_serialize tot (i + 1) as"

fun ts_serialize :: "timestamp \<Rightarrow> bytes"
  and ops_serialize :: "nat \<Rightarrow> nat \<Rightarrow> (op \<times> timestamp) list \<Rightarrow> bytes" where
  "ts_serialize (Timestamp msg as es) =
     (let tot = length as + length es
      in atts_serialize tot 0 as @ ops_serialize tot (length as) es)"
| "ops_serialize tot i [] = []"
| "ops_serialize tot i ((o', child) # es) =
     (if i < tot - 1 then [0xff] else []) @ op_serialize o' @ ts_serialize child @
     ops_serialize tot (i + 1) es"

text \<open>
  An edge starts with its tag; every edge but the last of its node is marked by \<open>0xff\<close> before
  the tag. One call of \<open>deserialize_node\<close> reads the edges of a node that has already read
  \<open>as\<close> and \<open>es\<close>.
\<close>

definition readEdge :: "bytes \<Rightarrow> failure + bool \<times> byte \<times> bytes" where
  "readEdge r =
     bind_res (readByte r) (\<lambda>(tag, r).
       if tag = 0xff then bind_res (readByte r) (\<lambda>(next, r). Inr (True, next, r))
       else Inr (False, tag, r))"

function deserialize_node ::
    "(bytes \<Rightarrow> bytes) \<Rightarrow> bytes \<Rightarrow> attestation list \<Rightarrow> (op \<times> timestamp) list \<Rightarrow> bytes \<Rightarrow> timestamp parsed"
where
  "deserialize_node rmd msg as es r =
     bind_res (readEdge r) (\<lambda>(more, tag, r).
       if tag = 0x00 then
         bind_res (deserializeAttestation r) (\<lambda>(a, r).
           if more then deserialize_node rmd msg (as @ [a]) es r
           else Inr (Timestamp msg (as @ [a]) es, r))
       else
         bind_res (deserializeOp tag r) (\<lambda>(o', r).
         bind_res (deserialize_node rmd (op_apply rmd o' msg) [] [] r) (\<lambda>(child, r).
           if more then deserialize_node rmd msg as (es @ [(o', child)]) r
           else Inr (Timestamp msg as (es @ [(o', child)]), r))))"
  by pat_completeness auto

text \<open>Every read consumes: no read gives back more than it was given.\<close>

lemma readByte_Inr: "readByte r = Inr (b, r') \<longleftrightarrow> r = b # r'"
  by (cases r) auto

lemma readN_Inr: "readN n r = Inr (x, r') \<longleftrightarrow>
    \<not> make_panics 1 n \<and> unat n \<le> length r \<and> x = take (unat n) r \<and> r' = drop (unat n) r"
  by (auto simp: readN_def)

lemma varuint_loop_shrinks: "varuint_loop res sh r = Inr (n, r') \<Longrightarrow> length r' < length r"
  by (induction res sh r rule: varuint_loop.induct) (auto simp: Let_def split: if_splits)

lemma varuint_shrinks: "varuint r = Inr (n, r') \<Longrightarrow> length r' < length r"
  unfolding varuint_def by (rule varuint_loop_shrinks)

lemma varbytes_shrinks: "varbytes r = Inr (x, r') \<Longrightarrow> length r' + length x < length r"
  by (auto simp: varbytes_def bind_res_eq_Inr readN_Inr dest!: varuint_shrinks)

lemma deserializeOp_shrinks: "deserializeOp tag r = Inr (o', r') \<Longrightarrow> length r' + length (op_arg o') \<le> length r"
  by (auto simp: deserializeOp_def bind_res_eq_Inr split: if_splits dest!: varbytes_shrinks)

lemma deserializeAttestation_shrinks:
  "deserializeAttestation r = Inr (a, r') \<Longrightarrow> length r' < length r"
  by (auto simp: deserializeAttestation_def bind_res_eq_Inr readN_Inr Let_def split: if_splits
      dest!: varbytes_shrinks)

lemma readEdge_shrinks: "readEdge r = Inr (mk, tag, r') \<Longrightarrow> length r' < length r"
  by (auto simp: readEdge_def bind_res_eq_Inr readByte_Inr split: if_splits)

lemma deserialize_node_shrinks_dom:
  "deserialize_node_dom (rmd, msg, as, es, r) \<Longrightarrow>
    deserialize_node rmd msg as es r = Inr (t, r') \<Longrightarrow> length r' < length r"
proof (induction arbitrary: t r' rule: deserialize_node.pinduct)
  case (1 rmd msg as es r)
  note IH = "1.IH" and node = "1.prems"
  obtain more tag r1 where e: "readEdge r = Inr (more, tag, r1)"
    using node by (auto simp: deserialize_node.psimps [OF "1.hyps"] bind_res_eq_Inr)
  note r1 = readEdge_shrinks [OF e]
  show ?case
  proof (cases "tag = 0")
    case True
    with node e obtain a r2 where a: "deserializeAttestation r1 = Inr (a, r2)"
      and rest: "(if more then deserialize_node rmd msg (as @ [a]) es r2
        else Inr (Timestamp msg (as @ [a]) es, r2)) = Inr (t, r')"
      by (auto simp: deserialize_node.psimps [OF "1.hyps"] bind_res_eq_Inr)
    show ?thesis
      using IH(1) [OF e refl refl True a refl] rest r1 deserializeAttestation_shrinks [OF a]
      by (force split: if_splits)
  next
    case False
    with node e obtain o' r2 child r3 where o': "deserializeOp tag r1 = Inr (o', r2)"
      and c: "deserialize_node rmd (op_apply rmd o' msg) [] [] r2 = Inr (child, r3)"
      and rest: "(if more then deserialize_node rmd msg as (es @ [(o', child)]) r3
        else Inr (Timestamp msg as (es @ [(o', child)]), r3)) = Inr (t, r')"
      by (auto simp: deserialize_node.psimps [OF "1.hyps"] bind_res_eq_Inr)
    show ?thesis
      using IH(2) [OF e refl refl False o' refl c] IH(3) [OF e refl refl False o' refl c refl] rest r1
        deserializeOp_shrinks [OF o']
      by (force split: if_splits)
  qed
qed

lemma deserialize_node_ends: "All deserialize_node_dom"
  by (relation "measure (\<lambda>(_, _, _, _, r). length r)")
    (clarsimp; fastforce dest: deserialize_node_shrinks_dom readEdge_shrinks deserializeOp_shrinks
      deserializeAttestation_shrinks)+

termination deserialize_node
  by (rule deserialize_node_ends)

declare deserialize_node.simps [simp del]

lemma deserialize_node_shrinks:
  "deserialize_node rmd msg as es r = Inr (t, r') \<Longrightarrow> length r' < length r"
  by (rule deserialize_node_shrinks_dom [OF spec [OF deserialize_node_ends]])

definition deserializeTimestamp :: "(bytes \<Rightarrow> bytes) \<Rightarrow> bytes \<Rightarrow> bytes \<Rightarrow> timestamp parsed" where
  "deserializeTimestamp rmd r msg = deserialize_node rmd msg [] [] r"

subsection \<open>The detached file\<close>

definition headerMagic :: bytes where
  "headerMagic =
     0x00 # bytes_of ''OpenTimestamps'' @ [0x00, 0x00] @ bytes_of ''Proof'' @
     [0x00, 0xbf, 0x89, 0xe2, 0xe8, 0x84, 0xe8, 0x92, 0x94]"

record detached_file =
  fileHashOp :: byte
  df_ts :: timestamp

definition detached_serialize :: "detached_file \<Rightarrow> bytes" where
  "detached_serialize d =
     headerMagic @ writeVaruint 1 @ [fileHashOp d] @ ts_msg (df_ts d) @ ts_serialize (df_ts d)"

definition parseDetachedFile :: "(bytes \<Rightarrow> bytes) \<Rightarrow> bytes \<Rightarrow> failure + detached_file" where
  "parseDetachedFile rmd b =
     bind_res (readN (of_nat (length headerMagic)) b) (\<lambda>(magic, r).
       if magic \<noteq> headerMagic then Inl (Failed (ErrText ''opentimestamps: bad .ots header magic''))
       else bind_res (varuint r) (\<lambda>(_, r).
            bind_res (readByte r) (\<lambda>(hashOp, r).
              if hashOp \<noteq> opSHA256 then
                Inl (Failed (ErrText (''opentimestamps: unsupported file hash op 0x'' @ hex_encode [hashOp])))
              else bind_res (readN 32 r) (\<lambda>(digest, r).
                   bind_res (deserializeTimestamp rmd r digest) (\<lambda>(ts, _).
                     Inr \<lparr>fileHashOp = hashOp, df_ts = ts\<rparr>)))))"

subsection \<open>Reading back what was written\<close>

lemma push_bit_7_split:
  "push_bit k (n AND 0x7f) OR push_bit (k + 7) (drop_bit 7 n) = push_bit k (n :: u64)"
proof (rule bit_word_eqI)
  fix i assume "i < LENGTH(64)"
  have m: "(0x7f :: u64) = mask 7" by (simp add: mask_eq_exp_minus_1)
  have "7 + (i - (k + 7)) = i - k" if "k + 7 \<le> i"
    using that by simp
  then show "bit (push_bit k (n AND 0x7f) OR push_bit (k + 7) (drop_bit 7 n)) i = bit (push_bit k n) i"
    unfolding m by (cases "k + 7 \<le> i") (auto simp: bit_simps)
qed

lemma bit_flag: "bit (0x80 :: int) i \<longleftrightarrow> i = 7"
proof -
  have "(0x80 :: int) = 2 ^ 7" by simp
  then show ?thesis
    by (simp only: bit_exp_iff) auto
qed

lemma bit_low: "bit (0x7f :: int) i \<longleftrightarrow> i < 7"
proof -
  have "(0x7f :: int) = mask 7" by (simp add: mask_eq_exp_minus_1)
  then show ?thesis
    by (simp only: bit_mask_iff) auto
qed

lemma ucast_low_bits:
  "ucast ((ucast (n AND 0x7f) OR 0x80 :: byte) AND 0x7f) = n AND (0x7f :: u64)"
  "(ucast (n AND 0x7f :: u64) OR 0x80 :: byte) AND 0x80 \<noteq> 0"
proof -
  show "ucast ((ucast (n AND 0x7f) OR 0x80 :: byte) AND 0x7f) = n AND (0x7f :: u64)"
    by (rule bit_word_eqI) (auto simp: bit_and_iff bit_or_iff bit_unsigned_iff bit_flag bit_low)
  have "bit ((ucast (n AND 0x7f :: u64) OR 0x80 :: byte) AND 0x80) 7"
    by (simp add: bit_and_iff bit_or_iff bit_unsigned_iff bit_flag)
  then show "(ucast (n AND 0x7f :: u64) OR 0x80 :: byte) AND 0x80 \<noteq> 0"
    by (metis bit_0_eq bot_apply bot_bool_def)
qed

lemma ucast_small:
  assumes "\<not> 0x80 \<le> (n :: u64)"
  shows "ucast ((ucast n :: byte) AND 0x7f) = n" "(ucast n :: byte) AND 0x80 = 0"
proof -
  have "unat n < 2 ^ 7" using assms by (simp add: word_le_nat_alt)
  then have "take_bit 7 (unat n) = unat n"
    by (simp add: take_bit_nat_eq_self_iff)
  then have high: "bit n i \<Longrightarrow> i < 7" for i
    using bit_take_bit_iff [of 7 "unat n" i] by (simp add: bit_unsigned_iff bit_imp_le_length)
  show "ucast ((ucast n :: byte) AND 0x7f) = n"
    by (rule bit_word_eqI) (auto simp: bit_and_iff bit_unsigned_iff bit_low dest: high)
  show "(ucast n :: byte) AND 0x80 = 0"
    by (rule bit_word_eqI) (auto simp: bit_and_iff bit_unsigned_iff bit_flag dest: high)
qed

lemma varuint_loop_write: "varuint_loop res k (writeVaruint n @ r) = Inr (res OR push_bit k n, r)"
proof (induction n arbitrary: res k rule: writeVaruint.induct)
  case (1 n)
  show ?case
  proof (cases "0x80 \<le> n")
    case True
    have "(res OR push_bit k (n AND 0x7f)) OR push_bit (k + 7) (drop_bit 7 n) = res OR push_bit k n"
      by (simp only: or.assoc push_bit_7_split)
    with True "1.IH" [OF True, of "res OR push_bit k (n AND 0x7f)" "k + 7"] show ?thesis
      by (simp add: writeVaruint.simps [of n] Let_def ucast_low_bits)
  next
    case False
    then show ?thesis
      by (simp add: writeVaruint.simps [of n] Let_def ucast_small)
  qed
qed

lemma varuint_write [simp]: "varuint (writeVaruint n @ r) = Inr (n, r)"
  by (simp add: varuint_def varuint_loop_write)

lemma readN_append: "length x \<le> 2 ^ 48 \<Longrightarrow> n = of_nat (length x) \<Longrightarrow> readN n (x @ r) = Inr (x, r)"
  by (simp add: readN_Inr make_panics_def unat_of_nat_less)

lemma varbytes_write [simp]: "length x \<le> 2 ^ 48 \<Longrightarrow> varbytes (writeVarbytes x @ r) = Inr (x, r)"
  by (simp add: varbytes_def writeVarbytes_def readN_append)

subsection \<open>Well-formed proofs\<close>

text \<open>
  What the serializer can express: every node has an edge, append and prepend carry an
  argument and the hash operations do not, an attestation has the fields of its kind. A
  tree is linked when every child's message is its parent's under the edge's operation; the
  messages of inner nodes are not written, the parser computes them (\<open>relink\<close>).
\<close>

definition op_wf :: "op \<Rightarrow> bool" where
  "op_wf o' \<longleftrightarrow>
     (if op_tag o' = opAppend \<or> op_tag o' = opPrepend then length (op_arg o') \<le> 2 ^ 48
      else (op_tag o' = opSHA1 \<or> op_tag o' = opRIPEMD160 \<or> op_tag o' = opSHA256) \<and> op_arg o' = [])"

definition att_wf :: "attestation \<Rightarrow> bool" where
  "att_wf a \<longleftrightarrow> length (att_tag a) = 8 \<and> length (att_body a) \<le> 2 ^ 48 \<and>
     (if isPending a then att_height a = 0 \<and> att_raw a = []
      else if isBitcoin a then att_uri a = '''' \<and> att_raw a = []
      else att_uri a = '''' \<and> att_height a = 0)"

fun ts_wf :: "timestamp \<Rightarrow> bool" where
  "ts_wf (Timestamp msg as es) \<longleftrightarrow>
     (as \<noteq> [] \<or> es \<noteq> []) \<and> list_all att_wf as \<and> list_all (\<lambda>(o', c). op_wf o' \<and> ts_wf c) es"

fun linked :: "(bytes \<Rightarrow> bytes) \<Rightarrow> timestamp \<Rightarrow> bool" where
  "linked rmd (Timestamp msg as es) \<longleftrightarrow>
     list_all (\<lambda>(o', c). ts_msg c = op_apply rmd o' msg \<and> linked rmd c) es"

fun relink :: "(bytes \<Rightarrow> bytes) \<Rightarrow> bytes \<Rightarrow> timestamp \<Rightarrow> timestamp" where
  "relink rmd m (Timestamp msg as es) =
     Timestamp m as (map (\<lambda>(o', c). (o', relink rmd (op_apply rmd o' m) c)) es)"

lemma relink_linked: "linked rmd t \<Longrightarrow> relink rmd (ts_msg t) t = t"
proof (induction t)
  case (Timestamp msg as es)
  have "(\<lambda>(o', c). (o', relink rmd (op_apply rmd o' msg) c)) e = e" if "e \<in> set es" for e
    using that Timestamp by (fastforce simp: list_all_iff)
  then show ?case
    by (simp add: map_idI)
qed

lemma tagPending_Bitcoin [simp]: "tagPending \<noteq> tagBitcoin" "tagBitcoin \<noteq> tagPending"
  by (simp_all add: tagPending_def tagBitcoin_def)

lemma readEdge_write: "x \<noteq> 0xff \<Longrightarrow> readEdge ((if b then [0xff] else []) @ x # r) = Inr (b, x, r)"
  by (simp add: readEdge_def)

lemma att_read:
  assumes wf: "att_wf a"
  shows "deserializeAttestation (att_serialize a @ r) = Inr (a, r)"
proof -
  have len: "length (att_tag a) = 8" "length (att_body a) \<le> 2 ^ 48"
    using wf by (simp_all add: att_wf_def)
  have tag: "readN 8 (att_serialize a @ r) = Inr (att_tag a, writeVarbytes (att_body a) @ r)"
    unfolding att_serialize_def append_assoc by (rule readN_append) (simp_all add: len)
  have body: "varbytes (writeVarbytes (att_body a) @ r) = Inr (att_body a, r)"
    by (rule varbytes_write) (rule len(2))
  have uri: "varbytes (att_body a) = Inr (bytes_of (att_uri a), [])" if "isPending a"
    using varbytes_write [of "bytes_of (att_uri a)" "[]"] that len(2) by (simp add: att_body_def writeVarbytes_def)
  have height: "varuint (att_body a) = Inr (att_height a, [])" if "isBitcoin a" "\<not> isPending a"
    using varuint_write [of "att_height a" "[]"] that by (simp add: att_body_def)
  have raw: "att_body a = att_raw a" if "\<not> isBitcoin a" "\<not> isPending a"
    using that by (simp add: att_body_def)
  have tagged: "deserializeAttestation (att_serialize a @ r) =
      (let b = \<lparr>att_tag = att_tag a, att_uri = [], att_height = 0, att_raw = []\<rparr>
       in if isPending a then Inr (b\<lparr>att_uri := att_uri a\<rparr>, r)
          else if isBitcoin a then Inr (b\<lparr>att_height := att_height a\<rparr>, r)
          else Inr (b\<lparr>att_raw := att_raw a\<rparr>, r))"
    by (simp add: deserializeAttestation_def tag body isPending_def isBitcoin_def Let_def)
      (use uri height raw in \<open>auto simp: isPending_def isBitcoin_def\<close>)
  show ?thesis
    using wf unfolding tagged att_wf_def Let_def
    by (auto intro!: attestation.equality split: if_splits)
qed

lemma op_read:
  assumes "op_wf o'"
  obtains x bs where "op_serialize o' = x # bs" "x \<noteq> 0xff" "x \<noteq> 0"
    "\<And>r. deserializeOp x (bs @ r) = Inr (o', r)"
proof
  show "op_serialize o' = op_tag o' # (if op_tag o' = opAppend \<or> op_tag o' = opPrepend
      then writeVarbytes (op_arg o') else [])"
    by (simp add: op_serialize_def)
qed (use assms in \<open>cases o'; auto simp: op_wf_def deserializeOp_def op_tags split: if_splits\<close>)+

lemma atts_read:
  assumes "list_all att_wf as" and "tot = i + length as + k"
  shows "deserialize_node rmd msg as0 es0 (atts_serialize tot i as @ rest) =
    (if k = 0 \<and> as \<noteq> [] then Inr (Timestamp msg (as0 @ as) es0, rest)
     else deserialize_node rmd msg (as0 @ as) es0 rest)"
  using assms
proof (induction as arbitrary: i as0)
  case (Cons a as)
  have "readEdge (atts_serialize tot i (a # as) @ rest) =
      Inr (i < tot - 1, 0, att_serialize a @ atts_serialize tot (i + 1) as @ rest)"
    using readEdge_write [of 0 "i < tot - 1"] by simp
  moreover have "(i < tot - 1) = (k \<noteq> 0 \<or> as \<noteq> [])"
    using Cons.prems(2) by (cases as) auto
  ultimately show ?case
    using Cons.IH [of "i + 1" "as0 @ [a]"] Cons.prems
    by (subst deserialize_node.simps) (auto simp: att_read)
qed simp

lemma ops_read:
  assumes "list_all (\<lambda>(o', c). op_wf o' \<and> (\<forall>m r. deserializeTimestamp rmd (ts_serialize c @ r) m = Inr (relink rmd m c, r))) es"
    and "tot = i + length es" and "es \<noteq> []"
  shows "deserialize_node rmd msg as0 es0 (ops_serialize tot i es @ rest) =
    Inr (Timestamp msg as0 (es0 @ map (\<lambda>(o', c). (o', relink rmd (op_apply rmd o' msg) c)) es), rest)"
  using assms
proof (induction es arbitrary: i es0)
  case (Cons e es)
  obtain o' c where e: "e = (o', c)" by fastforce
  with Cons.prems(1) have "op_wf o'" by simp
  then obtain x bs where x: "op_serialize o' = x # bs" "x \<noteq> 0xff" "x \<noteq> 0"
      "\<And>r. deserializeOp x (bs @ r) = Inr (o', r)"
    using op_read by blast
  have c: "deserialize_node rmd m [] [] (ts_serialize c @ r) = Inr (relink rmd m c, r)" for m r
    using Cons.prems(1) e by (simp add: deserializeTimestamp_def)
  have edge: "readEdge (ops_serialize tot i (e # es) @ rest) =
      Inr (i < tot - 1, x, bs @ ts_serialize c @ ops_serialize tot (i + 1) es @ rest)"
    using readEdge_write [of x "i < tot - 1"] x e by simp
  have more: "(i < tot - 1) = (es \<noteq> [])"
    using Cons.prems(2) by (cases es) auto
  show ?case
  proof (cases "es = []")
    case True
    with edge more x c e show ?thesis
      by (subst deserialize_node.simps) simp
  next
    case False
    then have "deserialize_node rmd msg as0 (es0 @ [(o', relink rmd (op_apply rmd o' msg) c)])
        (ops_serialize tot (i + 1) es @ rest) =
      Inr (Timestamp msg as0 ((es0 @ [(o', relink rmd (op_apply rmd o' msg) c)]) @
        map (\<lambda>(o', c). (o', relink rmd (op_apply rmd o' msg) c)) es), rest)"
      using Cons.IH Cons.prems by simp
    with edge more x c e False show ?thesis
      by (subst deserialize_node.simps) simp
  qed
qed simp

lemma ts_read: "ts_wf t \<Longrightarrow> deserializeTimestamp rmd (ts_serialize t @ r) m = Inr (relink rmd m t, r)"
proof (induction t arbitrary: m r)
  case (Timestamp msg as es)
  have ops: "list_all (\<lambda>(o', c). op_wf o' \<and>
      (\<forall>m r. deserializeTimestamp rmd (ts_serialize c @ r) m = Inr (relink rmd m c, r))) es"
    using Timestamp by (fastforce simp: list_all_iff)
  have atts: "list_all att_wf as" using Timestamp.prems by simp
  show ?case
    using Timestamp.prems
    by (cases "es = []")
      (simp_all add: deserializeTimestamp_def Let_def atts_read [OF atts, where k = "length es"]
        ops_read [OF ops])
qed

lemma detached_read:
  assumes "ts_wf (df_ts d)" and "linked rmd (df_ts d)" and "fileHashOp d = opSHA256"
    and "length (ts_msg (df_ts d)) = 32"
  shows "parseDetachedFile rmd (detached_serialize d) = Inr d"
proof -
  have magic: "readN (of_nat (length headerMagic)) (headerMagic @ r) = Inr (headerMagic, r)" for r
    by (rule readN_append) (simp_all add: headerMagic_def)
  have msg: "readN 32 (ts_msg (df_ts d) @ r) = Inr (ts_msg (df_ts d), r)" for r
    by (rule readN_append) (simp_all add: assms(4))
  have ts: "deserializeTimestamp rmd (ts_serialize (df_ts d)) (ts_msg (df_ts d)) = Inr (df_ts d, [])"
    using ts_read [OF assms(1), of rmd "[]"] relink_linked [OF assms(2)] by simp
  show ?thesis
    using assms(3) by (simp add: parseDetachedFile_def detached_serialize_def magic msg ts)
qed

subsection \<open>What the parser accepts\<close>

lemma length_writeVaruint: "unat n < 2 ^ (7 * Suc k) \<Longrightarrow> length (writeVaruint n) \<le> Suc k"
proof (induction k arbitrary: n)
  case 0
  then show ?case
    by (simp add: writeVaruint.simps [of n] word_le_nat_alt)
next
  case (Suc k)
  have "unat (drop_bit 7 n) < 2 ^ (7 * Suc k)"
    using Suc.prems less_mult_imp_div_less [of "unat n" "2 ^ (7 * Suc k)" 128]
    by (simp add: drop_bit_eq_div unat_div power_add)
  from Suc.IH [OF this] show ?case
    by (simp add: writeVaruint.simps [of n])
qed

lemma length_writeVaruint_10: "length (writeVaruint n) \<le> 10"
proof -
  have "unat n < 2 ^ 64"
    using unsigned_less [of n, where ?'a = nat] by simp
  then have "unat n < 2 ^ (7 * Suc 9)"
    by simp
  from length_writeVaruint [OF this] show ?thesis by simp
qed

lemma string_of_eq: "string_of b = s \<longleftrightarrow> b = bytes_of s"
  by (metis bytes_of_string_of string_of_bytes_of)

lemma deserializeAttestation_wf:
  assumes "deserializeAttestation r = Inr (a, r')" and "length r \<le> 2 ^ 40"
  shows "att_wf a"
proof -
  obtain r1 body where tag: "readN 8 r = Inr (att_tag a, r1)" and body: "varbytes r1 = Inr (body, r')"
    and kind: "isPending a \<and> (\<exists>x. varbytes body = Inr (bytes_of (att_uri a), x)) \<and> att_height a = 0 \<and> att_raw a = [] \<or>
      \<not> isPending a \<and> isBitcoin a \<and> att_uri a = [] \<and> att_raw a = [] \<or>
      \<not> isPending a \<and> \<not> isBitcoin a \<and> att_uri a = [] \<and> att_height a = 0 \<and> att_raw a = body"
    using assms(1)
    by (auto simp: deserializeAttestation_def bind_res_eq_Inr Let_def isPending_def isBitcoin_def string_of_eq
        split: if_splits)
  have len: "length (att_tag a) = 8" "length body \<le> 2 ^ 40"
    using tag assms(2) varbytes_shrinks [OF body] by (auto simp: readN_Inr)
  have pending: "length (att_body a) \<le> 2 ^ 48"
    if "isPending a" "varbytes body = Inr (bytes_of (att_uri a), x)" for x
  proof -
    have "length (bytes_of (att_uri a)) < 2 ^ 40"
      using varbytes_shrinks [OF that(2)] len(2) by linarith
    then show ?thesis
      using that(1) length_writeVaruint_10 [of "of_nat (length (att_uri a))"]
      by (simp add: att_body_def writeVarbytes_def)
  qed
  have "length (writeVaruint n) \<le> 2 ^ 48" for n
    using length_writeVaruint_10 [of n] by simp
  then show ?thesis
    using kind len pending by (auto simp: att_wf_def att_body_def)
qed

lemma deserializeOp_wf:
  "deserializeOp tag r = Inr (o', r') \<Longrightarrow> length r \<le> 2 ^ 40 \<Longrightarrow> op_wf o'"
  using deserializeOp_shrinks [of tag r o' r']
  by (auto simp: deserializeOp_def bind_res_eq_Inr op_wf_def split: if_splits)

lemma deserialize_node_cases:
  assumes "deserialize_node rmd msg as es r = Inr (t, r')"
  obtains (att) mk r1 a r2 where "readEdge r = Inr (mk, 0, r1)" "deserializeAttestation r1 = Inr (a, r2)"
      "if mk then deserialize_node rmd msg (as @ [a]) es r2 = Inr (t, r')
       else t = Timestamp msg (as @ [a]) es \<and> r' = r2"
    | (op) mk tag r1 o' r2 c r3 where "readEdge r = Inr (mk, tag, r1)" "tag \<noteq> 0"
      "deserializeOp tag r1 = Inr (o', r2)" "deserialize_node rmd (op_apply rmd o' msg) [] [] r2 = Inr (c, r3)"
      "if mk then deserialize_node rmd msg as (es @ [(o', c)]) r3 = Inr (t, r')
       else t = Timestamp msg as (es @ [(o', c)]) \<and> r' = r3"
proof -
  obtain mk tag r1 where e: "readEdge r = Inr (mk, tag, r1)"
    using assms by (auto simp: deserialize_node.simps [of rmd msg as es r] bind_res_eq_Inr)
  show ?thesis
  proof (cases "tag = 0")
    case True
    with e assms obtain a r2 where a: "deserializeAttestation r1 = Inr (a, r2)"
      and "(if mk then deserialize_node rmd msg (as @ [a]) es r2
        else Inr (Timestamp msg (as @ [a]) es, r2)) = Inr (t, r')"
      by (auto simp: deserialize_node.simps [of rmd msg as es r] bind_res_eq_Inr)
    with e True att show thesis by (auto split: if_splits)
  next
    case False
    with e assms obtain o' r2 c r3 where "deserializeOp tag r1 = Inr (o', r2)"
      "deserialize_node rmd (op_apply rmd o' msg) [] [] r2 = Inr (c, r3)"
      "(if mk then deserialize_node rmd msg as (es @ [(o', c)]) r3
        else Inr (Timestamp msg as (es @ [(o', c)]), r3)) = Inr (t, r')"
      by (auto simp: deserialize_node.simps [of rmd msg as es r] bind_res_eq_Inr)
    with e False op show thesis by (auto split: if_splits)
  qed
qed

abbreviation good_edges :: "(bytes \<Rightarrow> bytes) \<Rightarrow> bytes \<Rightarrow> (op \<times> timestamp) list \<Rightarrow> bool" where
  "good_edges rmd msg es \<equiv>
     list_all (\<lambda>(o', c). op_wf o' \<and> ts_wf c \<and> ts_msg c = op_apply rmd o' msg \<and> linked rmd c) es"

lemma good_node:
  "list_all att_wf as \<Longrightarrow> good_edges rmd msg es \<Longrightarrow> as \<noteq> [] \<or> es \<noteq> [] \<Longrightarrow>
    ts_msg (Timestamp msg as es) = msg \<and> ts_wf (Timestamp msg as es) \<and> linked rmd (Timestamp msg as es)"
  by (auto simp: list_all_iff)

lemma deserialize_node_good:
  "deserialize_node rmd msg as es r = Inr (t, r') \<Longrightarrow> length r \<le> 2 ^ 40 \<Longrightarrow> list_all att_wf as \<Longrightarrow>
    good_edges rmd msg es \<Longrightarrow> ts_msg t = msg \<and> ts_wf t \<and> linked rmd t"
proof (induction "length r" arbitrary: msg as es r t r' rule: less_induct)
  case less
  from less.prems(1) show ?case
  proof (cases rule: deserialize_node_cases)
    case (att mk r1 a r2)
    have "length r1 < length r" "length r2 < length r1"
      using readEdge_shrinks [OF att(1)] deserializeAttestation_shrinks [OF att(2)] by simp_all
    moreover from this have "att_wf a"
      using deserializeAttestation_wf [OF att(2)] less.prems(2) by simp
    ultimately show ?thesis
      using att(3) less.hyps [of r2 msg "as @ [a]" es t r'] less.prems(2-4) good_node [of "as @ [a]" rmd msg es]
      by (simp split: if_splits)
  next
    case (op mk tag r1 o' r2 c r3)
    have len: "length r1 < length r" "length r2 \<le> length r1" "length r3 < length r2"
      using readEdge_shrinks [OF op(1)] deserializeOp_shrinks [OF op(3)] deserialize_node_shrinks [OF op(4)]
      by simp_all
    then have "op_wf o'"
      using deserializeOp_wf [OF op(3)] less.prems(2) by simp
    moreover have "ts_msg c = op_apply rmd o' msg \<and> ts_wf c \<and> linked rmd c"
      using less.hyps [OF _ op(4)] len less.prems(2) by simp
    ultimately have "good_edges rmd msg (es @ [(o', c)])"
      using less.prems(4) by simp
    then show ?thesis
      using op(5) less.hyps [of r3 msg as "es @ [(o', c)]" t r'] len less.prems(2,3)
        good_node [of as rmd msg "es @ [(o', c)]"]
      by (simp split: if_splits)
  qed
qed

lemma parse_good:
  assumes "parseDetachedFile rmd b = Inr d" and "length b \<le> 2 ^ 40"
  shows "ts_wf (df_ts d)" "linked rmd (df_ts d)" "fileHashOp d = opSHA256" "length (ts_msg (df_ts d)) = 32"
proof -
  obtain magic r1 v r2 hashOp r3 digest r4 r5 where
    "readN (of_nat (length headerMagic)) b = Inr (magic, r1)" "varuint r1 = Inr (v, r2)"
    "readByte r2 = Inr (hashOp, r3)" "readN 32 r3 = Inr (digest, r4)"
    and d: "deserializeTimestamp rmd r4 digest = Inr (df_ts d, r5)" "fileHashOp d = opSHA256"
    using assms(1) by (auto simp: parseDetachedFile_def bind_res_eq_Inr split: if_splits)
  then have "length r4 \<le> length b" "length digest = 32"
    using varuint_shrinks [of r1 v r2] by (auto simp: readN_Inr readByte_Inr)
  then show "ts_wf (df_ts d)" "linked rmd (df_ts d)" "fileHashOp d = opSHA256" "length (ts_msg (df_ts d)) = 32"
    using deserialize_node_good [OF d(1) [unfolded deserializeTimestamp_def]] assms(2) d(2) by simp_all
qed

subsection \<open>Properties\<close>

text \<open>
  C19 (internal/witness/opentimestamps/wire.go, serialize and parseDetachedFile): a proof is read
  back exactly as it was written. For every tree whose nodes all have an edge, whose operations
  and attestations carry the fields of their kind, and whose messages follow the operations,
  parsing the serialized file gives the same file: same attestations and operations, in order,
  at every node, and the same messages, which are recomputed and not stored.
\<close>

theorem proof_file_roundtrip:
  assumes "ts_wf (df_ts d)" and "linked rmd (df_ts d)" and "fileHashOp d = opSHA256"
    and "length (ts_msg (df_ts d)) = 32"
  shows "parseDetachedFile rmd (detached_serialize d) = Inr d"
  using assms by (rule detached_read)

text \<open>
  C25 (internal/witness/opentimestamps/wire.go, parseDetachedFile): whatever bytes are parsed, an
  accepted proof is a linked tree over a 32-byte digest: every node's message is its parent's
  under the operation of the edge, and every node has an edge. Writing it out and parsing
  again gives the same proof, although the bytes may differ from the original ones.
\<close>

theorem accepted_proof_is_linked_and_stable:
  assumes "parseDetachedFile rmd b = Inr d" and "length b \<le> 2 ^ 40"
  shows "linked rmd (df_ts d) \<and> ts_wf (df_ts d) \<and> length (ts_msg (df_ts d)) = 32 \<and>
    parseDetachedFile rmd (detached_serialize d) = Inr d"
  using parse_good [OF assms] detached_read [of d rmd] by simp

definition sample_proof :: detached_file where
  "sample_proof =
     (let digest = replicate 32 7; nonce = [1, 2, 3];
          pending = \<lparr>att_tag = tagPending, att_uri = ''https://bob'', att_height = 0, att_raw = []\<rparr>;
          block = \<lparr>att_tag = tagBitcoin, att_uri = '''', att_height = 800000, att_raw = []\<rparr>
      in \<lparr>fileHashOp = opSHA256,
          df_ts = Timestamp digest [pending]
            [(\<lparr>op_tag = opAppend, op_arg = nonce\<rparr>, Timestamp (digest @ nonce) [block] [])]\<rparr>)"

lemma sample_proof_good:
  "ts_wf (df_ts sample_proof)" "linked rmd (df_ts sample_proof)" "fileHashOp sample_proof = opSHA256"
  "length (ts_msg (df_ts sample_proof)) = 32"
proof -
  have "length (writeVaruint n) \<le> 2 ^ 48" for n
    using length_writeVaruint_10 [of n] by simp
  moreover have "length (writeVarbytes (bytes_of ''https://bob'')) \<le> 2 ^ 48"
    using length_writeVaruint_10 [of 11] by (simp add: writeVarbytes_def)
  ultimately show "ts_wf (df_ts sample_proof)"
    by (simp add: sample_proof_def Let_def att_wf_def att_body_def isPending_def isBitcoin_def op_wf_def)
      (simp add: tagPending_def tagBitcoin_def)
qed (simp_all add: sample_proof_def Let_def op_apply_def op_tags)

theorem proof_file_roundtrip_witness:
  "parseDetachedFile (\<lambda>m. m) (detached_serialize sample_proof) = Inr sample_proof"
  by (rule proof_file_roundtrip) (rule sample_proof_good)+

lemma sample_proof_length: "length (detached_serialize sample_proof) \<le> 2 ^ 40"
proof -
  have "length (writeVaruint n) \<le> 10" for n by (rule length_writeVaruint_10)
  note w = this [of 1] this [of "0xc3500"] this [of 11] this [of 3]
    this [of "of_nat (length (writeVaruint 0xc3500))"]
    this [of "of_nat (length (writeVarbytes (bytes_of ''https://bob'')))"]
  show ?thesis
    using w
    by (simp add: detached_serialize_def sample_proof_def Let_def headerMagic_def att_serialize_def att_body_def
        isPending_def isBitcoin_def writeVarbytes_def op_serialize_def op_tags tagPending_def tagBitcoin_def)
qed

theorem accepted_proof_is_linked_and_stable_witness:
  "linked (\<lambda>m. m) (df_ts sample_proof) \<and> ts_wf (df_ts sample_proof) \<and>
    length (ts_msg (df_ts sample_proof)) = 32 \<and>
    parseDetachedFile (\<lambda>m. m) (detached_serialize sample_proof) = Inr sample_proof"
  by (rule accepted_proof_is_linked_and_stable [OF detached_read sample_proof_length])
    (rule sample_proof_good)+

definition panicking_token :: bytes where
  "panicking_token =
     headerMagic @ [1, 8] @ replicate 32 0 @ [0xf0] @ replicate 9 0x80 @ [1]"

text \<open>
  C31 (internal/witness/opentimestamps/wire.go, readN): the parser can be made to panic. A file
  with a valid header, a 32-byte digest and an append operation whose length is written as
  \<open>2^63\<close> makes \<open>readN\<close> call \<open>make([]byte, int(n))\<close> with a negative length, where a
  truncated file of any other kind gives an error.
\<close>

theorem parser_panics_on_negative_length:
  "parseDetachedFile rmd panicking_token = Inl (Fault Panic)"
proof -
  have magic: "readN (of_nat (length headerMagic)) (headerMagic @ r) = Inr (headerMagic, r)" for r
    by (rule readN_append) (simp_all add: headerMagic_def)
  have digest: "readN 32 (replicate 32 0 @ r) = Inr (replicate 32 0, r)" for r
    by (rule readN_append) simp_all
  have nine: "replicate 9 x = [x, x, x, x, x, x, x, x, x]" for x :: byte
    by (simp add: numeral_eq_Suc)
  have "varuint (replicate 9 0x80 @ [1]) = Inr (2 ^ 63, [])"
    by (simp add: varuint_def nine)
  then have "deserializeOp 0xf0 (replicate 9 0x80 @ [1]) = Inl (Fault Panic)"
    by (simp add: deserializeOp_def op_tags varbytes_def readN_def make_panics_def)
  then have "deserializeTimestamp rmd ([0xf0] @ replicate 9 0x80 @ [1]) msg = Inl (Fault Panic)" for msg
    unfolding deserializeTimestamp_def
    by (subst deserialize_node.simps) (simp add: readEdge_def)
  then show ?thesis
    by (simp add: parseDetachedFile_def panicking_token_def magic digest varuint_def op_tags
       )
qed

end
