(* ===== verification/Json_Text.thy ===== *)
theory Json_Text
  imports Http
begin

section \<open>What a client reads in a JSON answer\<close>

text \<open>
  The handlers answer with \<open>json.NewEncoder(w).Encode(v)\<close>: the text of a value and a newline. A
  client that parses the body gets the value back, its strings with the invalid UTF-8 replaced,
  for every value whose numbers are literals and whose nesting the parser follows.
\<close>

fun printable :: "nat \<Rightarrow> json \<Rightarrow> bool" where
  "printable d (JNum l) \<longleftrightarrow> is_literal l"
| "printable d (JArr vs) \<longleftrightarrow> 0 < d \<and> list_all (printable (d - 1)) vs"
| "printable d (JObj ms) \<longleftrightarrow> 0 < d \<and> list_all (\<lambda>(k, v). printable (d - 1) v) ms"
| "printable d v \<longleftrightarrow> True"

fun as_read :: "json \<Rightarrow> json" where
  "as_read (JStr s) = JStr (sanitize s)"
| "as_read (JArr vs) = JArr (map as_read vs)"
| "as_read (JObj ms) = JObj (map (\<lambda>(k, v). (sanitize k, as_read v)) ms)"
| "as_read v = v"

lemma not_space [simp]: "\<not> is_space CHR '']''" "\<not> is_space CHR ''[''" "\<not> is_space CHR ''n''"
  "\<not> is_space CHR ''t''" "\<not> is_space CHR ''f''"
  by (simp_all add: is_space_def code_of_char)

lemma not_digit_bracket: "\<not> is_digit CHR '']''"
  by (simp add: is_digit_def)

lemma json_text_head:
  assumes "printable d v"
  shows "\<exists>c t. json_text v = c # t \<and> \<not> is_space c \<and> c \<noteq> CHR '']''"
proof (cases v)
  case (JNum l)
  then obtain c t where "l = c # t" "is_digit c \<or> c = CHR ''-''"
    using assms by (auto simp: is_literal_def)
  moreover have "c \<noteq> CHR '']''"
    using \<open>is_digit c \<or> c = CHR ''-''\<close> by (elim disjE) (metis not_digit_bracket, simp)
  ultimately show ?thesis
    using JNum literal_head [of c] by simp
qed (simp_all add: json_string_def)

lemma join_Cons: "join sep (x # xs) = x @ (if xs = [] then [] else sep @ join sep xs)"
  by (cases xs) simp_all

definition compact_member :: "string \<times> json \<Rightarrow> string" where
  "compact_member m = json_string (fst m) @ '':'' @ json_text (snd m)"

lemma compact_member_pair: "compact_member (k, v) = dquote # escape_body k @ dquote # CHR '':'' # json_text v"
  by (simp add: compact_member_def json_string_def)

lemma json_text_JObj: "json_text (JObj ms) = ''{'' @ join '','' (map compact_member ms) @ ''}''"
  by (simp add: compact_member_def [abs_def] case_prod_beta')

text \<open>Fuel above twice the length of the text is enough, whatever follows.\<close>

definition reads_back :: "json \<Rightarrow> bool" where
  "reads_back v \<longleftrightarrow>
     (\<forall>d n r. printable d v \<longrightarrow> 2 * length (json_text v) < n \<longrightarrow> ends_number r \<longrightarrow>
       parse_value n d (json_text v @ r) = Some (as_read v, r))"

lemma reads_backD:
  "reads_back v \<Longrightarrow> printable d v \<Longrightarrow> 2 * length (json_text v) < n \<Longrightarrow> ends_number r \<Longrightarrow>
    parse_value n d (json_text v @ r) = Some (as_read v, r)"
  by (simp add: reads_back_def)

lemma skip_ws_text: "printable d v \<Longrightarrow> skip_ws (json_text v @ r) = json_text v @ r"
  using json_text_head [of d v] by fastforce

lemma text_not_bracket: "printable d v \<Longrightarrow> \<not> starts_with CHR '']'' (json_text v @ r)"
  using json_text_head [of d v] by fastforce

lemma skip_ws_join:
  "vs \<noteq> [] \<Longrightarrow> list_all (printable d) vs \<Longrightarrow>
    skip_ws (join '','' (map json_text vs) @ r) = join '','' (map json_text vs) @ r \<and>
    \<not> starts_with CHR '']'' (join '','' (map json_text vs) @ r)"
  by (cases vs) (auto simp: join_Cons skip_ws_text dest: text_not_bracket)

lemma parse_elems_text:
  assumes "\<And>v. v \<in> set vs \<Longrightarrow> reads_back v"
  shows "vs \<noteq> [] \<Longrightarrow> list_all (printable d) vs \<Longrightarrow> 2 * length (join '','' (map json_text vs)) + 1 < n \<Longrightarrow>
    parse_elems n d (join '','' (map json_text vs) @ '']'' @ r) = Some (map as_read vs, r)"
  using assms
proof (induction vs arbitrary: n)
  case (Cons v vs)
  obtain n' where n: "n = Suc n'" using Cons.prems(3) by (cases n) auto
  have v: "printable d v" "2 * length (json_text v) < n'"
    using Cons.prems(2,3) n by (simp_all add: join_Cons split: if_splits)
  show ?case
  proof (cases "vs = []")
    case True
    with reads_backD [OF Cons.prems(4) v, of "'']'' @ r"] show ?thesis
      by (simp add: n Let_def)
  next
    case False
    let ?rest = "join '','' (map json_text vs) @ '']'' @ r"
    have "parse_elems n' d ?rest = Some (map as_read vs, r)"
      using False Cons.prems n by (intro Cons.IH) (simp_all add: join_Cons)
    with reads_backD [OF Cons.prems(4) v, of "'','' @ ?rest"] skip_ws_join [OF False, of d "'']'' @ r"] Cons.prems(2) False
    show ?thesis by (simp add: n Let_def join_Cons)
  qed
qed simp

lemma skip_ws_members:
  "ms \<noteq> [] \<Longrightarrow> skip_ws (join '','' (map compact_member ms) @ r) = join '','' (map compact_member ms) @ r \<and>
    \<not> starts_with CHR ''}'' (join '','' (map compact_member ms) @ r)"
  by (cases ms) (auto simp: join_Cons compact_member_def json_string_def)

lemma parse_members_text:
  assumes "\<And>m. m \<in> set ms \<Longrightarrow> reads_back (snd m)"
  shows "ms \<noteq> [] \<Longrightarrow> list_all (\<lambda>(k, v). printable d v) ms \<Longrightarrow> 2 * length (join '','' (map compact_member ms)) < n \<Longrightarrow>
    parse_members n d (join '','' (map compact_member ms) @ ''}'' @ r) = Some (map (\<lambda>(k, v). (sanitize k, as_read v)) ms, r)"
  using assms
proof (induction ms arbitrary: n)
  case (Cons m ms)
  obtain k v where m: "m = (k, v)" by fastforce
  obtain n' where n: "n = Suc n'" using Cons.prems(3) by (cases n) auto
  have v: "printable d v" "2 * length (json_text v) < n'"
    using Cons.prems(2,3) n m by (simp_all add: join_Cons compact_member_def json_string_def split: if_splits)
  have rb: "reads_back v" using Cons.prems(4) [of m] m by simp
  show ?case
  proof (cases "ms = []")
    case True
    with reads_backD [OF rb v, of "''}'' @ r"] scan_json_string skip_ws_text [OF v(1)] show ?thesis
      by (simp add: n m Let_def compact_member_pair unquote_escape_body)
  next
    case False
    let ?rest = "join '','' (map compact_member ms) @ ''}'' @ r"
    have "parse_members n' d ?rest = Some (map (\<lambda>(k, v). (sanitize k, as_read v)) ms, r)"
      using False Cons.prems n by (intro Cons.IH) (simp_all add: join_Cons)
    with reads_backD [OF rb v, of "'','' @ ?rest"] scan_json_string skip_ws_text [OF v(1)] skip_ws_members [OF False, of "''}'' @ r"] False
    show ?thesis by (simp add: n m Let_def join_Cons compact_member_pair unquote_escape_body)
  qed
qed simp

lemma reads_back: "reads_back v"
proof (induction v)
  case (JNum l)
  show ?case
    unfolding reads_back_def
  proof (intro allI impI)
    fix d n r
    assume "printable d (JNum l)" "2 * length (json_text (JNum l)) < n" "ends_number r"
    then show "parse_value n d (json_text (JNum l) @ r) = Some (as_read (JNum l), r)"
      using parse_scalar(1) [of "JNum l" r "n - 1" d] by (cases n) (simp_all del: parse_value.simps)
  qed
next
  case (JStr s)
  show ?case
    unfolding reads_back_def
  proof (intro allI impI)
    fix d n r
    assume "2 * length (json_text (JStr s)) < n" "ends_number r"
    then show "parse_value n d (json_text (JStr s) @ r) = Some (as_read (JStr s), r)"
      using parse_scalar(1) [of "JStr s" r "n - 1" d] by (cases n) (simp_all del: parse_value.simps)
  qed
next
  case (JArr vs)
  show ?case
    unfolding reads_back_def
  proof (intro allI impI)
    fix d n r
    assume p: "printable d (JArr vs)" "2 * length (json_text (JArr vs)) < n"
    obtain n' where n: "n = Suc n'" using p(2) by (cases n) auto
    show "parse_value n d (json_text (JArr vs) @ r) = Some (as_read (JArr vs), r)"
    proof (cases "vs = []")
      case False
      then show ?thesis
        using p n parse_elems_text [OF JArr False, of "d - 1" n' r] skip_ws_join [OF False, of "d - 1" "'']'' @ r"]
        by (simp add: Let_def)
    qed (use p n in simp)
  qed
next
  case (JObj ms)
  have IH: "reads_back (snd m)" if "m \<in> set ms" for m
    using JObj [OF that] by (cases m) simp
  show ?case
    unfolding reads_back_def json_text_JObj
  proof (intro allI impI)
    fix d n r
    assume p: "printable d (JObj ms)" "2 * length (''{'' @ join '','' (map compact_member ms) @ ''}'') < n"
    obtain n' where n: "n = Suc n'" using p(2) by (cases n) auto
    show "parse_value n d ((''{'' @ join '','' (map compact_member ms) @ ''}'') @ r) = Some (as_read (JObj ms), r)"
    proof (cases "ms = []")
      case False
      then show ?thesis
        using p n parse_members_text [OF IH False, of "d - 1" n' r] skip_ws_members [OF False, of "''}'' @ r"]
        by (simp add: Let_def)
    qed (use p n in simp)
  qed
qed (unfold reads_back_def, (intro allI impI, rename_tac n r, case_tac n; simp)+)

lemma json_parse_text:
  assumes "printable max_depth v"
  shows "json_parse (json_text v @ newline) = Some (as_read v)"
  using reads_backD [OF reads_back assms, of "Suc (2 * length (json_text v @ newline))" newline] skip_ws_text [OF assms, of newline]
  by (simp add: json_parse_def newline_def del: parse_value.simps)

lemma sanitize_ascii: "list_all (\<lambda>c. code c < 0x80) s \<Longrightarrow> sanitize s = s"
  by (rule sanitize_valid [OF valid_utf8_ascii])

lemma printable_jnat [simp]: "printable d (jnat n)" and as_read_jnat [simp]: "as_read (jnat n) = JNum (dec n)"
  by (simp_all add: jnat_def is_literal_dec)

lemma json_parse_writeJSON:
  "printable max_depth v \<Longrightarrow> json_parse (rs_body (writeJSON status v)) = Some (as_read v)"
  by (simp add: writeJSON_def json_parse_text)

end
