(* ===== verification/Ots_Notary.thy ===== *)
theory Ots_Notary
  imports Ots_Wire Witness Json_Text
begin

section \<open>The OpenTimestamps notary (internal/witness/opentimestamps/notary.go, calendar.go)\<close>

text \<open>
  Stamping through calendar servers, and what a proof is checked for. The HTTP client is a
  parameter, a function from a request to its outcome; so are the random source that fills the
  nonce, and RIPEMD-160. A calendar's answer goes through the parser of \<open>Ots_Wire\<close>, so stamping can panic as well as fail.
\<close>

subsection \<open>Calendars\<close>

text \<open>The ways a request can end: not built, not sent, cut off in the body, or answered.\<close>

datatype http_result =
    BadRequest error
  | NoResponse error
  | BrokenBody error
  | Response nat bytes

type_synonym http = "string \<Rightarrow> string \<Rightarrow> bytes \<Rightarrow> http_result"

definition DefaultCalendars :: "string list" where
  "DefaultCalendars =
     [''https://alice.btc.calendar.opentimestamps.org'',
      ''https://bob.btc.calendar.opentimestamps.org'',
      ''https://finney.calendar.opentimestamps.org'']"

definition calendar_do :: "string \<Rightarrow> http_result \<Rightarrow> failure + bytes" where
  "calendar_do url resp =
     (case resp of
        BadRequest e \<Rightarrow> Inl (Failed e)
      | NoResponse e \<Rightarrow> Inl (Failed (ErrText (''opentimestamps: '' @ url @ '': '' @ error_text e)))
      | BrokenBody e \<Rightarrow> Inl (Failed e)
      | Response status body \<Rightarrow>
          (let body = take (2 ^ 20) body
           in if status \<noteq> 200 then
                Inl (Failed (ErrText (''opentimestamps: '' @ url @ '' returned '' @ dec status @ '': '' @
                  string_of body)))
              else Inr body))"

definition calendar_submit ::
    "(bytes \<Rightarrow> bytes) \<Rightarrow> http \<Rightarrow> string \<Rightarrow> bytes \<Rightarrow> failure + timestamp" where
  "calendar_submit rmd http url digest =
     bind_res (calendar_do url (http ''POST'' (url @ ''/digest'') digest)) (\<lambda>body.
     bind_res (deserializeTimestamp rmd body digest) (\<lambda>(t, _). Inr t))"

definition calendar_upgrade ::
    "(bytes \<Rightarrow> bytes) \<Rightarrow> http \<Rightarrow> string \<Rightarrow> bytes \<Rightarrow> failure + timestamp" where
  "calendar_upgrade rmd http url commitment =
     bind_res (calendar_do url (http ''GET'' (url @ ''/timestamp/'' @ hex_encode commitment) [])) (\<lambda>body.
     bind_res (deserializeTimestamp rmd body commitment) (\<lambda>(t, _). Inr t))"

subsection \<open>Stamp\<close>

record ots =
  ot_name :: string
  calendars :: "string list"

definition ots_New :: "string \<Rightarrow> string list \<Rightarrow> ots" where
  "ots_New name cals = \<lparr>ot_name = name, calendars = (if cals = [] then DefaultCalendars else cals)\<rparr>"

fun stamp_loop ::
    "(bytes \<Rightarrow> bytes) \<Rightarrow> http \<Rightarrow> bytes \<Rightarrow> string list \<Rightarrow>
      attestation list \<Rightarrow> (op \<times> timestamp) list \<Rightarrow> bool \<Rightarrow> error option \<Rightarrow>
      fault + attestation list \<times> (op \<times> timestamp) list \<times> bool \<times> error option" where
  "stamp_loop rmd http submitted [] as es ok lastErr = Inr (as, es, ok, lastErr)"
| "stamp_loop rmd http submitted (url # urls) as es ok lastErr =
     (case calendar_submit rmd http url submitted of
        Inl (Fault f) \<Rightarrow> Inl f
      | Inl (Failed err) \<Rightarrow> stamp_loop rmd http submitted urls as es ok (Some err)
      | Inr calTS \<Rightarrow>
          stamp_loop rmd http submitted urls (as @ ts_attestations calTS) (es @ ts_ops calTS) True lastErr)"

definition ots_Stamp ::
    "(bytes \<Rightarrow> bytes) \<Rightarrow> http \<Rightarrow> error + bytes \<Rightarrow> ots \<Rightarrow> bytes \<Rightarrow> failure + notary_proof" where
  "ots_Stamp rmd http rand n checkpointID =
     (case rand of
        Inl err \<Rightarrow> Inl (Failed err)
      | Inr nonce \<Rightarrow>
          (let appended = checkpointID @ nonce;
               submitted = sha256 appended
           in case stamp_loop rmd http submitted (calendars n) [] [] False None of
                Inl f \<Rightarrow> Inl (Fault f)
              | Inr (as, es, ok, lastErr) \<Rightarrow>
                  if \<not> ok then
                    Inl (Failed (ErrText (''opentimestamps: no calendar reachable: '' @
                      (case lastErr of None \<Rightarrow> ''%!w(<nil>)'' | Some e \<Rightarrow> error_text e))))
                  else
                    (let submittedNode = Timestamp submitted as es;
                         afterAppend = Timestamp appended []
                           [(\<lparr>op_tag = opSHA256, op_arg = []\<rparr>, submittedNode)];
                         root = Timestamp checkpointID []
                           [(\<lparr>op_tag = opAppend, op_arg = nonce\<rparr>, afterAppend)];
                         dtf = \<lparr>fileHashOp = opSHA256, df_ts = root\<rparr>
                     in Inr \<lparr>Notary = ot_name n, Format = ''opentimestamps'', Token = detached_serialize dtf\<rparr>)))"

subsection \<open>Verify and the attestations of a proof\<close>

fun collect :: "timestamp \<Rightarrow> attestation list" where
  "collect (Timestamp msg as es) = as @ concat (map (\<lambda>(_, c). collect c) es)"

definition ots_Verify :: "(bytes \<Rightarrow> bytes) \<Rightarrow> ots \<Rightarrow> notary_proof \<Rightarrow> bytes \<Rightarrow> fault + error option" where
  "ots_Verify rmd n p checkpointID =
     (case parseDetachedFile rmd (Token p) of
        Inl (Fault f) \<Rightarrow> Inl f
      | Inl (Failed err) \<Rightarrow> Inr (Some err)
      | Inr dtf \<Rightarrow>
          if ts_msg (df_ts dtf) \<noteq> checkpointID then
            Inr (Some (ErrText ''opentimestamps: proof attests a different checkpoint id''))
          else if collect (df_ts dtf) = [] then
            Inr (Some (ErrText ''opentimestamps: proof contains no attestations''))
          else Inr None)"

definition PendingURIs :: "(bytes \<Rightarrow> bytes) \<Rightarrow> notary_proof \<Rightarrow> failure + string list" where
  "PendingURIs rmd p =
     bind_res (parseDetachedFile rmd (Token p)) (\<lambda>dtf.
       Inr (map att_uri (filter isPending (collect (df_ts dtf)))))"

definition HasBitcoin :: "(bytes \<Rightarrow> bytes) \<Rightarrow> notary_proof \<Rightarrow> fault + bool" where
  "HasBitcoin rmd p =
     (case parseDetachedFile rmd (Token p) of
        Inl (Fault f) \<Rightarrow> Inl f
      | Inl (Failed _) \<Rightarrow> Inr False
      | Inr dtf \<Rightarrow> Inr (list_ex isBitcoin (collect (df_ts dtf))))"

fun findBitcoin :: "timestamp \<Rightarrow> (timestamp \<times> attestation) option"
  and findBitcoin_ops :: "(op \<times> timestamp) list \<Rightarrow> (timestamp \<times> attestation) option" where
  "findBitcoin (Timestamp msg as es) =
     (case find isBitcoin as of
        Some a \<Rightarrow> Some (Timestamp msg as es, a)
      | None \<Rightarrow> findBitcoin_ops es)"
| "findBitcoin_ops [] = None"
| "findBitcoin_ops ((_, child) # es) =
     (case findBitcoin child of Some r \<Rightarrow> Some r | None \<Rightarrow> findBitcoin_ops es)"

subsection \<open>VerifyBitcoin\<close>

definition esploraGet :: "http \<Rightarrow> string \<Rightarrow> error + bytes" where
  "esploraGet http url =
     (case http ''GET'' url [] of
        BadRequest e \<Rightarrow> Inl e
      | NoResponse e \<Rightarrow> Inl e
      | BrokenBody e \<Rightarrow> Inl e
      | Response status body \<Rightarrow>
          if status \<noteq> 200 then
            Inl (ErrText (''opentimestamps: explorer '' @ url @ '' returned '' @ dec status))
          else Inr (take (2 ^ 16) body))"

text \<open>
  \<open>json.Unmarshal\<close> of the explorer's answer into a struct with the one field \<open>merkle_root\<close>, whose
  value is the last string given for it; the first member of a wrong type is the error.
\<close>

definition store_merkle_root :: "string \<times> json \<Rightarrow> string \<times> error option \<Rightarrow> string \<times> error option" where
  "store_merkle_root m st =
     (if fold_name (fst m) \<noteq> fold_name ''merkle_root'' then st
      else case snd m of
             JStr s \<Rightarrow> (s, snd st)
           | JNull \<Rightarrow> st
           | v \<Rightarrow> (fst st, case snd st of
                       Some err \<Rightarrow> Some err
                     | None \<Rightarrow> Some (ErrText (''json: cannot unmarshal '' @ json_kind v @
                         '' into Go struct field .merkle_root of type string''))))"

definition explorer_block :: "bytes \<Rightarrow> error + string" where
  "explorer_block body =
     (case json_parse (string_of body) of
        None \<Rightarrow> Inl (ErrText ''json: syntax error'')
      | Some (JObj ms) \<Rightarrow>
          (case fold store_merkle_root ms ([], None) of (s, None) \<Rightarrow> Inr s | (_, Some err) \<Rightarrow> Inl err)
      | Some JNull \<Rightarrow> Inr []
      | Some v \<Rightarrow> Inl (ErrText (''json: cannot unmarshal '' @ json_kind v @
          '' into Go value of type struct { MerkleRoot string }'')))"

definition reverseBytes :: "bytes \<Rightarrow> bytes" where
  "reverseBytes b = rev b"

definition bitcoinMerkleRoot :: "http \<Rightarrow> u64 \<Rightarrow> error + bytes" where
  "bitcoinMerkleRoot http height =
     bind_res (esploraGet http (''https://blockstream.info/api/block-height/'' @ dec (unat height))) (\<lambda>hash.
     bind_res (esploraGet http (''https://blockstream.info/api/block/'' @ trim_space (string_of hash))) (\<lambda>body.
     bind_res (explorer_block body) (\<lambda>root.
     bind_res (hex_decode root) (\<lambda>disp. Inr (reverseBytes disp)))))"

definition VerifyBitcoin ::
    "(bytes \<Rightarrow> bytes) \<Rightarrow> http \<Rightarrow> ots \<Rightarrow> notary_proof \<Rightarrow> bytes \<Rightarrow> failure + u64"
where
  "VerifyBitcoin rmd http n p checkpointID =
     (case ots_Verify rmd n p checkpointID of
        Inl f \<Rightarrow> Inl (Fault f)
      | Inr (Some err) \<Rightarrow> Inl (Failed err)
      | Inr None \<Rightarrow>
          bind_res (parseDetachedFile rmd (Token p)) (\<lambda>dtf.
            case findBitcoin (df_ts dtf) of
              None \<Rightarrow> Inl (Failed (ErrText
                ''opentimestamps: no Bitcoin attestation yet (still pending; run Upgrade later)''))
            | Some (node, att) \<Rightarrow>
                (case bitcoinMerkleRoot http (att_height att) of
                   Inl err \<Rightarrow> Inl (Failed err)
                 | Inr root \<Rightarrow>
                     if ts_msg node \<noteq> root then
                       Inl (Failed (ErrText (''opentimestamps: Bitcoin block '' @ dec (unat (att_height att)) @
                         '' merkle root does not match the proof'')))
                     else Inr (att_height att))))"

definition ots_iface :: "(bytes \<Rightarrow> bytes) \<Rightarrow> http \<Rightarrow> error + bytes \<Rightarrow> ots \<Rightarrow> notary" where
  "ots_iface rmd http rand n =
     \<lparr>n_Name = ot_name n, n_Stamp = ots_Stamp rmd http rand n, n_Verify = ots_Verify rmd n\<rparr>"

subsection \<open>What a stamped proof is\<close>

lemma calendar_submit_good:
  assumes "calendar_submit rmd http url digest = Inr t"
  shows "ts_msg t = digest \<and> ts_wf t \<and> linked rmd t"
proof -
  obtain body r where body: "calendar_do url (http ''POST'' (url @ ''/digest'') digest) = Inr body"
    and t: "deserializeTimestamp rmd body digest = Inr (t, r)"
    using assms by (auto simp: calendar_submit_def bind_res_eq_Inr)
  have "length body \<le> 2 ^ 20"
    using body by (auto simp: calendar_do_def Let_def split: http_result.splits if_splits)
  then show ?thesis
    using deserialize_node_good [OF t [unfolded deserializeTimestamp_def]] by simp
qed

lemma stamp_loop_good:
  "stamp_loop rmd http d urls as es ok err = Inr (as', es', ok', err') \<Longrightarrow>
    list_all att_wf as \<Longrightarrow> good_edges rmd d es \<Longrightarrow> (ok \<Longrightarrow> as \<noteq> [] \<or> es \<noteq> []) \<Longrightarrow>
    list_all att_wf as' \<and> good_edges rmd d es' \<and> (ok' \<longrightarrow> as' \<noteq> [] \<or> es' \<noteq> [])"
proof (induction urls arbitrary: as es ok err)
  case (Cons url urls)
  show ?case
  proof (cases "calendar_submit rmd http url d")
    case (Inl f)
    with Cons.prems Cons.IH show ?thesis by (cases f) auto
  next
    case (Inr t)
    obtain m as1 es1 where t: "t = Timestamp m as1 es1" by (cases t)
    have "list_all att_wf as1" "good_edges rmd d es1" "as1 \<noteq> [] \<or> es1 \<noteq> []"
      using calendar_submit_good [OF Inr] t by (auto simp: list_all_iff)
    moreover have "stamp_loop rmd http d urls (as @ as1) (es @ es1) True err = Inr (as', es', ok', err')"
      using Cons.prems(1) Inr t by simp
    ultimately show ?thesis
      using Cons.prems(2,3) by (intro Cons.IH [of "as @ as1" "es @ es1" True err]) auto
  qed
qed auto

lemma collect_nonempty: "ts_wf t \<Longrightarrow> collect t \<noteq> []"
proof (induction t)
  case (Timestamp msg as es)
  show ?case
  proof (cases "as = []")
    case True
    with Timestamp.prems obtain e where e: "e \<in> set es" by (cases es) auto
    obtain o' c where "e = (o', c)" by fastforce
    with e Timestamp have "collect c \<noteq> []"
      by (auto simp: list_all_iff snds.simps)
    with e \<open>e = (o', c)\<close> show ?thesis by fastforce
  qed simp
qed

lemma ots_Stamp_proof:
  assumes "ots_Stamp rmd http (Inr nonce) n cid = Inr p" and "length cid = 32" and "length nonce = 16"
  obtains d where "parseDetachedFile rmd (Token p) = Inr d" "ts_msg (df_ts d) = cid" "collect (df_ts d) \<noteq> []"
    "Notary p = ot_name n" "Format p = ''opentimestamps''"
proof -
  let ?app = "cid @ nonce"
  obtain as es err where loop: "stamp_loop rmd http (sha256 ?app) (calendars n) [] [] False None = Inr (as, es, True, err)"
    using assms(1) by (auto simp: ots_Stamp_def Let_def split: sum.splits if_splits)
  let ?t = "Timestamp cid [] [(\<lparr>op_tag = opAppend, op_arg = nonce\<rparr>,
    Timestamp ?app [] [(\<lparr>op_tag = opSHA256, op_arg = []\<rparr>, Timestamp (sha256 ?app) as es)])]"
  let ?d = "\<lparr>fileHashOp = opSHA256, df_ts = ?t\<rparr>"
  have "list_all att_wf as" "good_edges rmd (sha256 ?app) es" "as \<noteq> [] \<or> es \<noteq> []"
    using stamp_loop_good [OF loop] by auto
  then have wf: "ts_wf ?t" and linked: "linked rmd ?t"
    using good_node [of as rmd "sha256 ?app" es] assms(3)
    by (simp_all add: op_wf_def op_apply_def op_tags)
  have p: "p = \<lparr>Notary = ot_name n, Format = ''opentimestamps'', Token = detached_serialize ?d\<rparr>"
    using assms(1) loop by (simp add: ots_Stamp_def Let_def)
  have "parseDetachedFile rmd (detached_serialize ?d) = Inr ?d"
    by (rule detached_read) (use wf linked assms(2) in \<open>simp_all only: detached_file.simps timestamp.sel\<close>)
  with p collect_nonempty [OF wf] show thesis
    by (intro that [of ?d]) simp_all
qed

definition rand_ok :: "error + bytes \<Rightarrow> bool" where
  "rand_ok rand \<longleftrightarrow> (case rand of Inl _ \<Rightarrow> True | Inr nonce \<Rightarrow> length nonce = 16)"

lemma ots_Stamp_name: "ots_Stamp rmd http rand n cid = Inr p \<Longrightarrow> Notary p = ot_name n"
  by (auto simp: ots_Stamp_def Let_def split: sum.splits if_splits)

lemma ots_stamp_verifies:
  assumes "ots_Stamp rmd http rand n cid = Inr p" and "length cid = 32" and "rand_ok rand"
  shows "ots_Verify rmd n p cid = Inr None"
proof (cases rand)
  case (Inr nonce)
  with assms(3) have "length nonce = 16" by (simp add: rand_ok_def)
  obtain d where "parseDetachedFile rmd (Token p) = Inr d" "ts_msg (df_ts d) = cid" "collect (df_ts d) \<noteq> []"
    by (rule ots_Stamp_proof [OF assms(1) [unfolded Inr] assms(2) \<open>length nonce = 16\<close>])
  then show ?thesis
    by (simp add: ots_Verify_def)
qed (use assms(1) in \<open>simp add: ots_Stamp_def\<close>)

interpretation ots: notary_contract "ots_iface rmd http rand n" "\<lambda>cid. length cid = 32 \<and> rand_ok rand"
  for rmd http rand n
  by unfold_locales (auto simp: ots_iface_def ots_Stamp_name ots_stamp_verifies)

subsection \<open>What a Bitcoin attestation proves\<close>

text \<open>\<open>m\<close> can be computed from \<open>d\<close> by a sequence of operations.\<close>

inductive derives :: "(bytes \<Rightarrow> bytes) \<Rightarrow> bytes \<Rightarrow> bytes \<Rightarrow> bool" for rmd where
  derives_refl: "derives rmd d d"
| derives_step: "derives rmd (op_apply rmd o' d) m \<Longrightarrow> derives rmd d m"

inductive_cases derivesE: "derives rmd d m"

lemma find_bitcoin_ops_cases:
  "findBitcoin_ops es = Some r \<Longrightarrow> \<exists>o' c. (o', c) \<in> set es \<and> findBitcoin c = Some r"
  by (induction es) (force split: option.splits)+

lemma findBitcoin_derives:
  "findBitcoin t = Some (node, a) \<Longrightarrow> linked rmd t \<Longrightarrow>
    isBitcoin a \<and> a \<in> set (ts_attestations node) \<and> a \<in> set (collect t) \<and> derives rmd (ts_msg t) (ts_msg node)"
proof (induction t)
  case (Timestamp msg as es)
  show ?case
  proof (cases "find isBitcoin as")
    case (Some b)
    with Timestamp.prems(1) show ?thesis
      by (auto simp: find_Some_iff derives_refl)
  next
    case None
    with Timestamp.prems(1) obtain o' c where oc: "(o', c) \<in> set es" "findBitcoin c = Some (node, a)"
      using find_bitcoin_ops_cases by force
    then have "ts_msg c = op_apply rmd o' msg" "linked rmd c"
      using Timestamp.prems(2) by (auto simp: list_all_iff)
    with Timestamp.IH [OF oc(1) _ oc(2)] oc(1) show ?thesis
      by (force intro: derives_step)
  qed
qed

subsection \<open>Properties\<close>

text \<open>
  C26 (internal/witness/opentimestamps/notary.go, Stamp and Verify): a proof stamped for a
  32-byte checkpoint id is accepted for that id and rejected, with an error, for every other,
  whatever the calendars answered (and whichever of them failed), whatever the nonce.
\<close>

theorem ots_proof_attests_only_its_id:
  assumes "ots_Stamp rmd http rand n cid = Inr p" and "length cid = 32" and "rand_ok rand"
  shows "ots_Verify rmd n p cid = Inr None \<and> Notary p = ot_name n \<and>
    (if cid' = cid then True
     else ots_Verify rmd n p cid' = Inr (Some (ErrText ''opentimestamps: proof attests a different checkpoint id'')))"
proof -
  have v: "ots_Verify rmd n p cid = Inr None"
    by (rule ots_stamp_verifies [OF assms])
  then show ?thesis
    using ots_Stamp_name [OF assms(1)]
    by (auto simp: ots_Verify_def split: sum.splits failure.splits if_splits)
qed

text \<open>
  In internal/witness/opentimestamps/notary.go, \<open>VerifyBitcoin\<close>: when \<open>VerifyBitcoin\<close> returns a
  block height, the proof carries a Bitcoin attestation of that height, on a message computed
  from the checkpoint id by a sequence of the proof's operations, and that message is the Merkle
  root the block explorer gives for the block.
\<close>

theorem verify_bitcoin_sound:
  assumes "VerifyBitcoin rmd http n p cid = Inr height" and "length (Token p) \<le> 2 ^ 40"
  shows "\<exists>d m a. parseDetachedFile rmd (Token p) = Inr d \<and> ts_msg (df_ts d) = cid \<and>
    a \<in> set (collect (df_ts d)) \<and> isBitcoin a \<and> att_height a = height \<and>
    derives rmd cid m \<and> bitcoinMerkleRoot http height = Inr m"
proof -
  have v: "ots_Verify rmd n p cid = Inr None"
    using assms(1) by (auto simp: VerifyBitcoin_def split: sum.splits option.splits)
  then obtain d where d: "parseDetachedFile rmd (Token p) = Inr d"
    by (auto simp: ots_Verify_def split: sum.splits failure.splits)
  with v obtain node a where f: "findBitcoin (df_ts d) = Some (node, a)"
    and root: "bitcoinMerkleRoot http (att_height a) = Inr (ts_msg node)" "att_height a = height"
    using assms(1) by (auto simp: VerifyBitcoin_def split: option.splits sum.splits if_splits)
  moreover have "ts_msg (df_ts d) = cid"
    using v d by (auto simp: ots_Verify_def split: if_splits)
  ultimately show ?thesis
    using findBitcoin_derives [OF f parse_good(2) [OF d assms(2)]] d by blast
qed

definition unstamped_proof :: "string \<Rightarrow> string \<Rightarrow> bytes \<Rightarrow> notary_proof" where
  "unstamped_proof name uri cid =
     \<lparr>Notary = name, Format = ''opentimestamps'',
      Token = detached_serialize \<lparr>fileHashOp = opSHA256,
        df_ts = Timestamp cid [\<lparr>att_tag = tagPending, att_uri = uri, att_height = 0, att_raw = []\<rparr>] []\<rparr>\<rparr>"

text \<open>
  C30 (internal/witness/opentimestamps/notary.go, Verify): acceptance needs no calendar. For every
  32-byte id there is a proof that \<open>Verify\<close> accepts for it and that no calendar has seen: a tree
  with a single pending attestation naming any URI. (\<open>Verify\<close> checks that a proof is
  well-formed and names the id; only \<open>VerifyBitcoin\<close>, which the verifier does not call, checks an
  anchor.)
\<close>

theorem unstamped_proof_is_accepted:
  assumes "length cid = 32" and "length uri < 2 ^ 32"
  shows "ots_Verify rmd n (unstamped_proof (ot_name n) uri cid) cid = Inr None \<and>
    PendingURIs rmd (unstamped_proof (ot_name n) uri cid) = Inr [uri]"
proof -
  let ?a = "\<lparr>att_tag = tagPending, att_uri = uri, att_height = 0, att_raw = []\<rparr>"
  let ?d = "\<lparr>fileHashOp = opSHA256, df_ts = Timestamp cid [?a] []\<rparr>"
  have "att_wf ?a"
    using assms(2) length_writeVaruint_10 [of "of_nat (length uri)"]
    by (simp add: att_wf_def att_body_def isPending_def writeVarbytes_def) (simp add: tagPending_def)
  then have "parseDetachedFile rmd (detached_serialize ?d) = Inr ?d"
    using assms(1) by (intro detached_read) simp_all
  then show ?thesis
    by (simp add: ots_Verify_def PendingURIs_def unstamped_proof_def isPending_def)
qed

subsection \<open>Witnesses\<close>

text \<open>A calendar that answers every digest with one pending attestation, and the stamp it gives.\<close>

definition sample_att :: attestation where
  "sample_att = \<lparr>att_tag = [1, 1, 1, 1, 1, 1, 1, 1], att_uri = '''', att_height = 0, att_raw = [9]\<rparr>"

definition sample_http :: http where
  "sample_http meth url body = Response 200 (ts_serialize (Timestamp [] [sample_att] []))"

definition sample_cid :: bytes where
  "sample_cid = replicate 32 5"

lemma sample_att_wf: "att_wf sample_att" "\<not> isPending sample_att" "\<not> isBitcoin sample_att"
  by (simp_all add: sample_att_def att_wf_def att_body_def isPending_def isBitcoin_def tagPending_def
      tagBitcoin_def)

lemma sample_submit: "calendar_submit rmd sample_http url d = Inr (Timestamp d [sample_att] [])"
proof -
  let ?t = "Timestamp [] [sample_att] []"
  have "length (ts_serialize ?t) \<le> 2 ^ 20"
    using length_writeVaruint_10 [of 1]
    by (simp add: att_serialize_def att_body_def sample_att_wf(2,3)) (simp add: sample_att_def writeVarbytes_def)
  moreover have "deserializeTimestamp rmd (ts_serialize ?t) d = Inr (relink rmd d ?t, [])"
    using ts_read [of ?t rmd "[]" d] sample_att_wf(1) by simp
  ultimately show ?thesis
    by (simp add: calendar_submit_def calendar_do_def sample_http_def Let_def del: ts_serialize.simps)
qed

lemma sample_stamp: "\<exists>p. ots_Stamp rmd sample_http (Inr (replicate 16 3)) (ots_New ''ots'' [''c'']) sample_cid = Inr p"
  by (simp add: ots_Stamp_def ots_New_def sample_submit Let_def)

theorem ots_proof_attests_only_its_id_witness:
  "\<exists>p. ots_Verify (\<lambda>m. m) (ots_New ''ots'' [''c'']) p sample_cid = Inr None \<and> Notary p = ot_name (ots_New ''ots'' [''c'']) \<and>
    (if [] = sample_cid then True
     else ots_Verify (\<lambda>m. m) (ots_New ''ots'' [''c'']) p [] =
       Inr (Some (ErrText ''opentimestamps: proof attests a different checkpoint id'')))"
proof -
  obtain p where p: "ots_Stamp (\<lambda>m. m) sample_http (Inr (replicate 16 3)) (ots_New ''ots'' [''c'']) sample_cid = Inr p"
    using sample_stamp ..
  show ?thesis
    by (rule exI, rule ots_proof_attests_only_its_id [OF p]) (simp_all add: sample_cid_def rand_ok_def)
qed

theorem unstamped_proof_is_accepted_witness:
  "ots_Verify (\<lambda>m. m) (ots_New ''ots'' []) (unstamped_proof (ot_name (ots_New ''ots'' [])) ''https://x'' sample_cid)
      sample_cid = Inr None \<and>
    PendingURIs (\<lambda>m. m) (unstamped_proof (ot_name (ots_New ''ots'' [])) ''https://x'' sample_cid) = Inr [''https://x'']"
  by (rule unstamped_proof_is_accepted) (simp_all add: sample_cid_def)

definition bitcoin_proof :: notary_proof where
  "bitcoin_proof = \<lparr>Notary = ''ots'', Format = ''opentimestamps'', Token = detached_serialize sample_proof\<rparr>"

text \<open>A block explorer whose answer for every request is a block with the root the sample proof leads to.\<close>

definition sample_root :: bytes where
  "sample_root = replicate 32 7 @ [1, 2, 3]"

definition sample_block :: string where
  "sample_block = json_text (JObj [(''merkle_root'', JStr (hex_encode (rev sample_root)))]) @ newline"

definition sample_explorer :: http where
  "sample_explorer meth url body = Response 200 (bytes_of sample_block)"

lemma sample_explorer_get: "esploraGet sample_explorer url = Inr (bytes_of sample_block)"
proof -
  have "length sample_block = 89" by code_simp
  then have "length (bytes_of sample_block) \<le> 2 ^ 16" by (simp add: bytes_of_def)
  then show ?thesis by (simp add: esploraGet_def sample_explorer_def)
qed

lemma sample_explorer_root: "bitcoinMerkleRoot sample_explorer h = Inr sample_root"
proof -
  have hex: "sanitize (hex_encode (rev sample_root)) = hex_encode (rev sample_root)"
      "sanitize ''merkle_root'' = ''merkle_root''"
    by code_simp+
  have "json_parse sample_block = Some (JObj [(''merkle_root'', JStr (hex_encode (rev sample_root)))])"
    unfolding sample_block_def by (subst json_parse_text) (simp_all add: max_depth_def hex del: sanitize.simps)
  then have "explorer_block (bytes_of sample_block) = Inr (hex_encode (rev sample_root))"
    by (simp add: explorer_block_def store_merkle_root_def)
  then show ?thesis by (simp add: bitcoinMerkleRoot_def reverseBytes_def sample_explorer_get del: hex_encode.simps)
qed

theorem verify_bitcoin_sound_witness:
  "\<exists>d m a. parseDetachedFile (\<lambda>m. m) (Token bitcoin_proof) = Inr d \<and> ts_msg (df_ts d) = replicate 32 7 \<and>
    a \<in> set (collect (df_ts d)) \<and> isBitcoin a \<and> att_height a = 800000 \<and>
    derives (\<lambda>m. m) (replicate 32 7) m \<and> bitcoinMerkleRoot sample_explorer 800000 = Inr m"
proof (rule verify_bitcoin_sound)
  have parse: "parseDetachedFile (\<lambda>m. m) (detached_serialize sample_proof) = Inr sample_proof"
    by (rule detached_read) (rule sample_proof_good)+
  show "VerifyBitcoin (\<lambda>m. m) sample_explorer (ots_New ''ots'' []) bitcoin_proof (replicate 32 7) =
      Inr 800000"
    unfolding VerifyBitcoin_def ots_Verify_def bitcoin_proof_def notary_proof.simps parse
    by (simp add: sample_proof_def Let_def isBitcoin_def sample_explorer_root) (simp add: sample_root_def)
qed (unfold bitcoin_proof_def notary_proof.simps, rule sample_proof_length)

end
