(* ===== verification/Rfc3161.thy ===== *)
theory Rfc3161
  imports Ots_Notary Verify_Props
begin

section \<open>The RFC 3161 notary (internal/witness/rfc3161/rfc3161.go)\<close>

text \<open>
  Stamping and verifying through a timestamp authority. The package
  \<open>github.com/digitorus/timestamp\<close> is a parameter (\<open>tsa_lib\<close>): how it encodes a request over a
  digest, and what it makes of a response, whose signature it checks. The HTTP client is a
  parameter as in \<open>Ots_Notary\<close>. Nothing is assumed of either.
\<close>

record tsa_token =
  tt_hash :: nat
  tt_message :: bytes

record tsa_lib =
  request_Marshal :: "bytes \<Rightarrow> error + bytes"
  ParseResponse :: "bytes \<Rightarrow> error + tsa_token"

text \<open>\<open>crypto.SHA256\<close>, and how a \<open>crypto.Hash\<close> prints.\<close>

definition crypto_SHA256 :: nat where
  "crypto_SHA256 = 5"

definition hash_names :: "string list" where
  "hash_names =
     [''MD4'', ''MD5'', ''SHA-1'', ''SHA-224'', ''SHA-256'', ''SHA-384'', ''SHA-512'', ''MD5+SHA1'', ''RIPEMD-160'',
      ''SHA3-224'', ''SHA3-256'', ''SHA3-384'', ''SHA3-512'', ''SHA-512/224'', ''SHA-512/256'', ''BLAKE2s-256'',
      ''BLAKE2b-256'', ''BLAKE2b-384'', ''BLAKE2b-512'']"

definition hash_String :: "nat \<Rightarrow> string" where
  "hash_String h =
     (if 1 \<le> h \<and> h \<le> length hash_names then hash_names ! (h - 1) else ''unknown hash value '' @ dec h)"

record rfc3161 =
  rf_name :: string
  rf_url :: string

definition rfc3161_New :: "string \<Rightarrow> string \<Rightarrow> rfc3161" where
  "rfc3161_New name url = \<lparr>rf_name = name, rf_url = url\<rparr>"

definition parseAndCheck :: "tsa_lib \<Rightarrow> bytes \<Rightarrow> bytes \<Rightarrow> error + tsa_token" where
  "parseAndCheck lib token checkpointID =
     (case ParseResponse lib token of
        Inl err \<Rightarrow> Inl (ErrText (''rfc3161: parse/verify token: '' @ error_text err))
      | Inr ts \<Rightarrow>
          if tt_hash ts \<noteq> crypto_SHA256 then
            Inl (ErrText (''rfc3161: unexpected hash algorithm '' @ hash_String (tt_hash ts)))
          else if tt_message ts \<noteq> checkpointID then
            Inl (ErrText ''rfc3161: token attests a different checkpoint id'')
          else Inr ts)"

definition rfc3161_Stamp :: "tsa_lib \<Rightarrow> http \<Rightarrow> rfc3161 \<Rightarrow> bytes \<Rightarrow> failure + notary_proof" where
  "rfc3161_Stamp lib http n checkpointID =
     (case request_Marshal lib checkpointID of
        Inl err \<Rightarrow> Inl (Failed (ErrText (''rfc3161: marshal request: '' @ error_text err)))
      | Inr der \<Rightarrow>
          (case http ''POST'' (rf_url n) der of
             BadRequest err \<Rightarrow> Inl (Failed err)
           | NoResponse err \<Rightarrow>
               Inl (Failed (ErrText (''rfc3161: request to '' @ rf_url n @ '': '' @ error_text err)))
           | BrokenBody err \<Rightarrow> Inl (Failed err)
           | Response status body \<Rightarrow>
               if status \<noteq> 200 then
                 Inl (Failed (ErrText (''rfc3161: TSA returned '' @ dec status @ '': '' @ string_of body)))
               else
                 (case parseAndCheck lib body checkpointID of
                    Inl err \<Rightarrow> Inl (Failed err)
                  | Inr _ \<Rightarrow> Inr \<lparr>Notary = rf_name n, Format = ''rfc3161'', Token = body\<rparr>)))"

definition rfc3161_Verify :: "tsa_lib \<Rightarrow> notary_proof \<Rightarrow> bytes \<Rightarrow> fault + error option" where
  "rfc3161_Verify lib p checkpointID =
     (case parseAndCheck lib (Token p) checkpointID of
        Inl err \<Rightarrow> Inr (Some err)
      | Inr _ \<Rightarrow> Inr None)"

definition rfc3161_iface :: "tsa_lib \<Rightarrow> http \<Rightarrow> rfc3161 \<Rightarrow> notary" where
  "rfc3161_iface lib http n =
     \<lparr>n_Name = rf_name n, n_Stamp = rfc3161_Stamp lib http n, n_Verify = rfc3161_Verify lib\<rparr>"

subsection \<open>The notary contract\<close>

lemma rfc3161_Stamp_Inr:
  "rfc3161_Stamp lib http n cid = Inr p \<longleftrightarrow>
    (\<exists>der. request_Marshal lib cid = Inr der \<and> http ''POST'' (rf_url n) der = Response 200 (Token p) \<and>
      (\<exists>ts. parseAndCheck lib (Token p) cid = Inr ts) \<and> Notary p = rf_name n \<and> Format p = ''rfc3161'')"
  by (cases p) (auto simp: rfc3161_Stamp_def split: sum.splits http_result.splits if_splits)

interpretation rfc: notary_contract "rfc3161_iface lib http n" "\<lambda>_. True" for lib http n
  by unfold_locales (auto simp: rfc3161_iface_def rfc3161_Stamp_Inr rfc3161_Verify_def)

lemma rfc3161_answers: "answers (rfc3161_iface lib http n)"
  by (simp add: answers_def rfc3161_iface_def rfc3161_Verify_def split: sum.split)

text \<open>
  C27 (internal/witness/rfc3161/rfc3161.go, Stamp and Verify): a token the notary keeps is a token
  of its id, and of no other. \<open>Stamp\<close> returns a proof only if the authority answered 200 with a
  token that parses and attests the id; \<open>Verify\<close> accepts the proof for that id and rejects it,
  with the message for a different id, for every other.
\<close>

theorem rfc3161_proof_attests_only_its_id:
  assumes "rfc3161_Stamp lib http n cid = Inr p"
  shows "Notary p = rf_name n \<and>
    rfc3161_Verify lib p cid' =
      Inr (if cid' = cid then None else Some (ErrText ''rfc3161: token attests a different checkpoint id''))"
proof -
  obtain ts where "parseAndCheck lib (Token p) cid = Inr ts" "Notary p = rf_name n"
    using assms by (auto simp: rfc3161_Stamp_Inr)
  then show ?thesis
    by (auto simp: rfc3161_Verify_def parseAndCheck_def split: sum.splits if_splits)
qed

text \<open>An authority whose token is the digest itself.\<close>

definition echo_lib :: tsa_lib where
  "echo_lib = \<lparr>request_Marshal = Inr, ParseResponse = \<lambda>b. Inr \<lparr>tt_hash = 5, tt_message = b\<rparr>\<rparr>"

definition echo_http :: http where
  "echo_http = (\<lambda>method url body. Response 200 body)"

theorem rfc3161_proof_attests_only_its_id_witness:
  "let p = \<lparr>Notary = ''TSA'', Format = ''rfc3161'', Token = [1, 2]\<rparr>
   in Notary p = rf_name (rfc3161_New ''TSA'' ''http://tsa'') \<and>
      rfc3161_Verify echo_lib p [3] =
        Inr (if [3] = [1, 2 :: byte] then None else Some (ErrText ''rfc3161: token attests a different checkpoint id''))"
  unfolding Let_def
  by (rule rfc3161_proof_attests_only_its_id [where http = echo_http])
    (simp add: rfc3161_Stamp_def echo_lib_def echo_http_def parseAndCheck_def crypto_SHA256_def rfc3161_New_def)

end
