(* ===== verification/Witness_Build.thy ===== *)
theory Witness_Build
  imports S3_Worm Rfc3161
begin

section \<open>Witnesses from the environment (internal/witnessbuild/witnessbuild.go, internal/config/config.go)\<close>

text \<open>
  The anchorer and the verifier are separate processes; both build their WORM store and their
  notaries from environment variables. \<open>getenv\<close> is the environment (an unset variable is the
  empty string), \<open>parse_duration\<close> is \<open>time.ParseDuration\<close>, and the S3 client, the HTTP client,
  the timestamp library, RIPEMD-160 and the random source are the parameters of the witnesses.
  The lemmas say that processes with the same settings trust each other's proofs, and that
  every store built has the positive retention the S3 contract asks for.
\<close>

type_synonym environ = "string \<Rightarrow> string"

definition config_Env :: "environ \<Rightarrow> string \<Rightarrow> string \<Rightarrow> string" where
  "config_Env getenv key dflt = (let v = getenv key in if v \<noteq> [] then v else dflt)"

definition durationEnv :: "(string \<Rightarrow> error + i64) \<Rightarrow> environ \<Rightarrow> string \<Rightarrow> i64 \<Rightarrow> i64" where
  "durationEnv parse_duration getenv key dflt =
     (case parse_duration (config_Env getenv key []) of
        Inr d \<Rightarrow> (if 0 < sint d then d else dflt)
      | Inl _ \<Rightarrow> dflt)"

definition TSAName :: string where
  "TSAName = ''RFC 3161 TSA''"

definition OTSName :: string where
  "OTSName = ''OpenTimestamps (Bitcoin)''"

definition worm_config :: "(string \<Rightarrow> error + i64) \<Rightarrow> environ \<Rightarrow> s3_config" where
  "worm_config parse_duration getenv =
     (let retain = 24 * 3600000000000;
          retain = (case parse_duration (config_Env getenv ''WORM_RETAIN'' []) of
                      Inr d \<Rightarrow> (if 0 < sint d then d else retain)
                    | Inl _ \<Rightarrow> retain)
      in \<lparr>Region = config_Env getenv ''S3_REGION'' ''us-east-1'',
          Bucket = config_Env getenv ''S3_BUCKET'' ''multilog-worm'',
          AccessKey = config_Env getenv ''S3_ACCESS_KEY'' ''minioadmin'',
          SecretKey = config_Env getenv ''S3_SECRET_KEY'' ''minioadmin'',
          Endpoint = config_Env getenv ''S3_ENDPOINT'' ''http://localhost:9100'',
          UsePathStyle = True,
          RetainFor = retain\<rparr>)"

definition WORM ::
    "(string \<Rightarrow> string \<Rightarrow> string \<Rightarrow> string option \<Rightarrow> bool \<Rightarrow> 's s3_client) \<Rightarrow> (string \<Rightarrow> error + i64) \<Rightarrow>
      environ \<Rightarrow> 's \<Rightarrow> (error + 's s3_store) \<times> 's"
where
  "WORM NewFromConfig parse_duration getenv s =
     (let st = s3_New NewFromConfig (worm_config parse_duration getenv)
      in case EnsureBucket st s of
           (Some err, s) \<Rightarrow> (Inl err, s)
         | (None, s) \<Rightarrow> (Inr st, s))"

definition Notaries ::
    "tsa_lib \<Rightarrow> (bytes \<Rightarrow> bytes) \<Rightarrow> http \<Rightarrow> error + bytes \<Rightarrow> environ \<Rightarrow> notary list"
where
  "Notaries lib rmd http rand getenv =
     (if config_Env getenv ''NOTARY_MODE'' ''mock'' = ''real''
      then [rfc3161_iface lib http (rfc3161_New TSAName (config_Env getenv ''TSA_URL'' ''http://timestamp.digicert.com'')),
            ots_iface rmd http rand (ots_New OTSName [])]
      else [mock_iface (NewMockNotary TSAName (config_Env getenv ''NOTARY_TSA_SECRET'' ''tsa-demo-secret'')),
            mock_iface (NewMockNotary OTSName (config_Env getenv ''NOTARY_OTS_SECRET'' ''ots-demo-secret''))])"

lemma notary_contract_mono:
  assumes "notary_contract n P" and "\<And>cid. Q cid \<Longrightarrow> P cid"
  shows "notary_contract n Q"
  using notary_contract.stamp_names [OF assms(1)] notary_contract.stamp_verifies [OF assms(1)] assms(2)
  by unfold_locales blast+

lemma Notaries_names:
  assumes "Notaries lib rmd http rand getenv = [a, b]"
  shows "n_Name a = TSAName \<and> n_Name b = OTSName"
  using assms
  by (auto simp: Notaries_def rfc3161_iface_def rfc3161_New_def ots_iface_def ots_New_def mock_iface_def NewMockNotary_def
      split: if_splits)

lemma Notaries_two: obtains a b where "Notaries lib rmd http rand getenv = [a, b]"
  by (cases "config_Env getenv ''NOTARY_MODE'' ''mock'' = ''real''") (auto simp: Notaries_def)

lemma Notaries_contract:
  assumes "rand_ok rand"
  shows "list_all (\<lambda>n. notary_contract n (\<lambda>cid. length cid = 32)) (Notaries lib rmd http rand getenv)"
proof -
  have "notary_contract (rfc3161_iface lib http r) (\<lambda>cid. length cid = 32)" for r
    by (rule notary_contract_mono [OF rfc.notary_contract_axioms]) simp
  moreover have "notary_contract (ots_iface rmd http rand o') (\<lambda>cid. length cid = 32)" for o'
    by (rule notary_contract_mono [OF ots.notary_contract_axioms]) (simp add: assms)
  moreover have "notary_contract (mock_iface m) (\<lambda>cid. length cid = 32)" for m
    by (rule notary_contract_mono [OF mock.notary_contract_axioms]) simp
  ultimately show ?thesis by (simp add: Notaries_def)
qed

text \<open>The settings that decide which proofs are trusted.\<close>

definition same_notary_settings :: "environ \<Rightarrow> environ \<Rightarrow> bool" where
  "same_notary_settings e e' \<longleftrightarrow>
     list_all (\<lambda>k. e k = e' k) [''NOTARY_MODE'', ''NOTARY_TSA_SECRET'', ''NOTARY_OTS_SECRET'']"

lemma Notaries_Verify:
  assumes "same_notary_settings e e'"
  shows "map n_Verify (Notaries lib rmd http rand e) = map n_Verify (Notaries lib rmd http' rand' e')"
  using assms
  by (auto simp: same_notary_settings_def Notaries_def config_Env_def rfc3161_iface_def rfc3161_New_def ots_iface_def
      ots_Verify_def fun_eq_iff)

lemma Notaries_honest:
  assumes "same_notary_settings e e'" and "rand_ok rand"
  shows "list_all (honest (by_name (Notaries lib rmd http' rand' e'))) (Notaries lib rmd http rand e)"
proof -
  obtain a b where ab: "Notaries lib rmd http rand e = [a, b]" by (rule Notaries_two)
  obtain c d where cd: "Notaries lib rmd http' rand' e' = [c, d]" by (rule Notaries_two)
  have "n_Verify a = n_Verify c" "n_Verify b = n_Verify d"
    using Notaries_Verify [OF assms(1), of lib rmd http rand http' rand'] by (simp_all add: ab cd)
  moreover have "TSAName \<noteq> OTSName" by (simp add: TSAName_def OTSName_def)
  moreover have "notary_contract n (\<lambda>cid. length cid = 32)" if "n \<in> {a, b}" for n
    using Notaries_contract [OF assms(2), of lib rmd http e] that by (auto simp: ab)
  ultimately show ?thesis
    using Notaries_names [OF ab] Notaries_names [OF cd]
    by (auto simp: ab cd by_name_def intro!: honest_contract split: if_splits)
qed

text \<open>
  C20 (internal/witnessbuild/witnessbuild.go, Notaries): the anchorer and the verifier agree.
  Processes whose notary mode and secrets are the same trust each other's proofs, in both modes and
  whatever their URL, HTTP client and random source: every proof the anchorer's notaries return
  for an id is accepted, under its name, by the verifier's.
\<close>

theorem same_settings_trust_each_other:
  assumes "same_notary_settings e e'" and "rand_ok rand"
  shows "list_all (honest (by_name (Notaries lib rmd http' rand' e'))) (Notaries lib rmd http rand e)"
  by (rule Notaries_honest [OF assms])

theorem same_settings_trust_each_other_witness:
  "list_all (honest (by_name (Notaries echo_lib id echo_http (Inr [])
      (\<lambda>k. if k = ''TSA_URL'' then ''http://tsa'' else if k = ''NOTARY_MODE'' then ''real'' else []))))
    (Notaries echo_lib id echo_http (Inr (replicate 16 0)) (\<lambda>k. if k = ''NOTARY_MODE'' then ''real'' else []))"
  by (rule same_settings_trust_each_other) (simp_all add: same_notary_settings_def rand_ok_def)

lemma worm_retention:
  assumes "WORM NewFromConfig parse_duration getenv s = (Inr st, s')"
  shows "0 < sint (st_retainFor st)"
proof -
  have "0 < sint (RetainFor (worm_config parse_duration getenv))"
    by (simp add: worm_config_def Let_def split: sum.split)
  moreover from this have "RetainFor (worm_config parse_duration getenv) \<noteq> 0" by auto
  ultimately show ?thesis
    using assms by (auto simp: WORM_def s3_New_def Let_def split: prod.splits option.splits)
qed

text \<open>
  In internal/witnessbuild/witnessbuild.go, WORM: whatever the environment says, the store that
  is built puts a retention that ends in the future on every checkpoint it writes: an absent,
  malformed, zero or negative \<open>WORM_RETAIN\<close> falls back to a day.
\<close>

theorem worm_retention_is_positive:
  assumes "WORM NewFromConfig parse_duration getenv s = (Inr st, s')"
  shows "0 < sint (st_retainFor st)"
  by (rule worm_retention [OF assms])

theorem worm_retention_is_positive_witness:
  "0 < sint (st_retainFor (s3_New (\<lambda>_ _ _ _ _. bucket_client) (worm_config (\<lambda>_. Inr (-5)) (\<lambda>_. []))))"
  by (rule worm_retention_is_positive [where s = empty_bucket and s' = empty_bucket and getenv = "\<lambda>_. []" and
        NewFromConfig = "\<lambda>_ _ _ _ _. bucket_client" and parse_duration = "\<lambda>_. Inr (-5)"])
    (simp add: WORM_def EnsureBucket_def s3_New_def bucket_client_def Let_def)

end
