(* ===== verification/Verifier_Api.thy ===== *)
theory Verifier_Api
  imports Http Witness_Build
begin

section \<open>The verifier's and the anchorer's APIs (cmd/verifier/main.go, cmd/anchorer/main.go)\<close>

text \<open>
  The handlers of the two background services, over the operations of \<open>Verify_Live\<close> and \<open>Anchor\<close>.
  A fault of the call goes up to the HTTP server.
\<close>

text \<open>The field \<open>seq,omitempty\<close> is left out when it is 0.\<close>

definition issue_json :: "issue \<Rightarrow> json" where
  "issue_json i =
     JObj ((''tenant'', JStr (Tenant i)) # (if IssueSeq i = 0 then [] else [(''seq'', jnat (unat (IssueSeq i)))]) @
       [(''kind'', JStr (Kind i)), (''detail'', JStr (Detail i))])"

definition writeReport :: "report \<Rightarrow> http_response" where
  "writeReport rep =
     writeJSON (if report_OK rep then 200 else 409)
       (JObj [(''checkpoints_seen'', jnat (CheckpointsSeen rep)), (''entries_checked'', jnat (EntriesChecked rep)),
         (''issues'', JArr (map issue_json (Issues rep))), (''ok'', JBool (report_OK rep)),
         (''proofs_checked'', jnat (ProofsChecked rep))])"

definition get_verify ::
    "failure + report \<Rightarrow> (string \<Rightarrow> failure + report) \<Rightarrow> string \<Rightarrow> fault + http_response" where
  "get_verify run run_tenant tenant =
     (case (if tenant \<noteq> [] then run_tenant tenant else run) of
        Inl (Fault f) \<Rightarrow> Inl f
      | Inl (Failed err) \<Rightarrow> Inr (http_Error (error_text err) 500)
      | Inr rep \<Rightarrow> Inr (writeReport rep))"

definition post_anchor :: "(nat \<times> failure option) \<times> 's \<Rightarrow> (fault + http_response) \<times> 's" where
  "post_anchor run =
     (case run of
        ((n, None), st) \<Rightarrow> (Inr (writeJSON 200 (JObj [(''anchored'', jnat n)])), st)
      | ((n, Some (Failed err)), st) \<Rightarrow> (Inr (http_Error (error_text err) 500), st)
      | ((n, Some (Fault f)), st) \<Rightarrow> (Inl f, st))"

subsection \<open>Properties\<close>

text \<open>
  An anchoring environment of a deployed anchorer: its notaries are those it builds from its
  settings, and no checkpoint is lost between the two stores.
\<close>

definition deployed_env :: "tsa_lib \<Rightarrow> (bytes \<Rightarrow> bytes) \<Rightarrow> environ \<Rightarrow> anchor_env \<Rightarrow> bool" where
  "deployed_env lib rmd e env \<longleftrightarrow>
     (\<forall>k. (ae_worm env k = Ack None \<or> (\<exists>err. ae_worm env k = Ack (Some err) \<and> err \<noteq> ErrImmutable)) \<and>
       ae_put_cp env k = Ack None \<and> (\<exists>http rand. rand_ok rand \<and> ae_notaries env k = Notaries lib rmd http rand e))"

lemma deployed_env_safe:
  assumes "deployed_env lib rmd e env" and "same_notary_settings e e'"
  shows "safe_env (by_name (Notaries lib rmd http' rand' e')) env"
  unfolding safe_env_def
proof (intro allI conjI)
  fix k
  obtain http rand where n: "rand_ok rand" "ae_notaries env k = Notaries lib rmd http rand e"
    using assms(1) unfolding deployed_env_def by blast
  show "list_all (honest (by_name (Notaries lib rmd http' rand' e'))) (ae_notaries env k)"
    unfolding n(2) by (rule Notaries_honest [OF assms(2) n(1)])
qed (use assms(1) in \<open>simp_all add: deployed_env_def\<close>)

lemma writeReport_status: "rs_status (writeReport rep) = (if report_OK rep then 200 else 409)"
  by (simp add: writeReport_def writeJSON_def)

text \<open>
  In cmd/verifier/main.go, GET /verify, over every other component: a deployment that nobody
  tampered with answers 200. Over S3, with the verifier's notaries built from its environment, in
  every state that the gateway and an anchorer whose proofs it trusts reach, \<open>GET /verify\<close> and
  \<open>GET /verify?tenant=t\<close> answer 200 with no issue, and the count of the entries checked is that
  of the acknowledged records.
\<close>

theorem verify_endpoint_answers_200:
  assumes "object_store st up objects" and "up w0" and "\<And>k. objects w0 k = None"
    and "notaries = Notaries lib rmd http rand e"
    and "live_run (s3_Put st) Marshal (by_name notaries) w0 (hm, tbl, db, w) log"
    and "log_size log \<le> 2 ^ 63" and "\<And>t. length (batch_lines t log) \<le> 100000"
    and "list_all (\<lambda>(u, recs). recs = [] \<or> s3_ok u) log" and "s3_ok t"
  defines "resp \<equiv> get_verify
      (Run None no_failure no_failure no_failure tbl db (\<lambda>t. s3_All st t w) notaries)
      (RunTenant None None tbl db (\<lambda>t. s3_All st t w) notaries)"
  shows "(\<exists>r. resp [] = Inr (writeReport r) \<and> rs_status (writeReport r) = 200 \<and> Issues r = [] \<and>
      EntriesChecked r = log_size log) \<and>
    (\<exists>r. resp t = Inr (writeReport r) \<and> rs_status (writeReport r) = 200 \<and> Issues r = [] \<and>
      EntriesChecked r = (if t = [] then log_size log else length (batch_lines t log)))"
  using object_store.live_run_over_s3 [OF assms(1-3,5-9)]
  by (auto simp: resp_def get_verify_def writeReport_status report_OK_def)

definition sample_settings :: environ where
  "sample_settings = (\<lambda>_. [])"

definition deployed_anchor_env :: anchor_env where
  "deployed_anchor_env =
     sample_env\<lparr>ae_notaries := \<lambda>_. Notaries echo_lib id echo_http (Inr (replicate 16 0)) sample_settings\<rparr>"

lemma deployed_anchor_env: "deployed_env echo_lib id sample_settings deployed_anchor_env"
proof -
  have "rand_ok (Inr (replicate 16 0))" by (simp add: rand_ok_def)
  then show ?thesis
    by (auto simp: deployed_env_def deployed_anchor_env_def sample_env_def)
qed

definition deployed_anchor :: "(nat \<times> failure option) \<times> anchor_db \<times> bucket" where
  "deployed_anchor =
     AnchorTenant (s3_Put bucket_store) Marshal deployed_anchor_env 1000 sample_tbl ''acme'' (empty_db, empty_bucket)"

theorem verify_endpoint_answers_200_witness:
  "let notaries = Notaries echo_lib id echo_http (Inr []) sample_settings;
       db = fst (snd deployed_anchor); w = snd (snd deployed_anchor); log = [(''acme'', [sample_record])];
       resp = get_verify
         (Run None no_failure no_failure no_failure sample_tbl db (\<lambda>t. s3_All bucket_store t w) notaries)
         (RunTenant None None sample_tbl db (\<lambda>t. s3_All bucket_store t w) notaries)
   in (\<exists>r. resp [] = Inr (writeReport r) \<and> rs_status (writeReport r) = 200 \<and> Issues r = [] \<and>
        EntriesChecked r = log_size log) \<and>
      (\<exists>r. resp ''acme'' = Inr (writeReport r) \<and> rs_status (writeReport r) = 200 \<and> Issues r = [] \<and>
        EntriesChecked r = (if ''acme'' = [] then log_size log else length (batch_lines ''acme'' log)))"
proof -
  have "same_notary_settings sample_settings sample_settings"
    by (simp add: same_notary_settings_def)
  note safe = deployed_env_safe [OF deployed_anchor_env this]
  have "live_run (s3_Put bucket_store) Marshal (by_name (Notaries echo_lib id echo_http (Inr []) sample_settings)) empty_bucket
      (fst (snd sample_ingest), sample_tbl, snd deployed_anchor) [(''acme'', [sample_record])]"
    unfolding deployed_anchor_def by (rule live_anchor [OF sample_live_ingest safe prod.collapse [symmetric]])
  then show ?thesis
    unfolding Let_def
    by (intro verify_endpoint_answers_200 [OF bucket.object_store_axioms empty_bucket refl,
          where hm = "fst (snd sample_ingest)"])
      (simp_all add: log_size_def batch_lines_sample s3_ok_acme)
qed

end
