(* ===== verification/Control.thy ===== *)
theory Control
  imports Http Std_Hash Log_Store
begin

section \<open>Tenants and API keys (internal/control/control.go)\<close>

text \<open>
  The control plane's two Postgres tables and the operations on them. A read takes the error it
  ends with, if any; a write takes its fate (\<open>write_ack\<close>). Random bytes and Postgres' clock are
  arguments. Only the SHA-256 of a key is stored, so what \<open>Authenticate\<close> answers is determined
  up to collisions: the runs at the end say that it resolves the keys that were drawn, and no
  other unless it collides.
\<close>

record tenant =
  t_ID :: string
  t_Name :: string
  t_CreatedAt :: int

record key_row =
  kr_key_hash :: string
  kr_key_prefix :: string
  kr_tenant_id :: string
  kr_created_at :: int
  kr_revoked :: bool

record control_db =
  cd_tenants :: "tenant list"
  cd_keys :: "key_row list"

definition empty_control :: control_db where
  "empty_control = \<lparr>cd_tenants = [], cd_keys = []\<rparr>"

text \<open>An insertion: refused when the primary key is taken, otherwise whatever its fate is.\<close>

definition pg_insert :: "write_ack \<Rightarrow> string \<Rightarrow> bool \<Rightarrow> 'd \<Rightarrow> 'd \<Rightarrow> error option \<times> 'd" where
  "pg_insert w pkey taken db' db =
     (if taken
      then (Some (case w of
              Ack (Some err) \<Rightarrow> err
            | Unacknowledged err \<Rightarrow> err
            | Ack None \<Rightarrow> ErrText (''ERROR: duplicate key value violates unique constraint \"'' @ pkey @
                ''\" (SQLSTATE 23505)'')), db)
      else case w of
             Ack None \<Rightarrow> (None, db')
           | Ack (Some err) \<Rightarrow> (Some err, db)
           | Unacknowledged err \<Rightarrow> (Some err, db'))"

definition CreateTenant :: "write_ack \<Rightarrow> int \<Rightarrow> string \<Rightarrow> string \<Rightarrow> control_db \<Rightarrow> error option \<times> control_db" where
  "CreateTenant w now tid name db =
     (if tid = '''' \<or> name = '''' then (Some (ErrText ''control: tenant id and name are required''), db)
      else pg_insert w ''tenants_pkey'' (tid \<in> set (map t_ID (cd_tenants db)))
             (db\<lparr>cd_tenants := cd_tenants db @ [\<lparr>t_ID = tid, t_Name = name, t_CreatedAt = now\<rparr>]\<rparr>) db)"

definition ListTenants :: "error option \<Rightarrow> control_db \<Rightarrow> error + tenant list" where
  "ListTenants fail db =
     (case fail of Some err \<Rightarrow> Inl err | None \<Rightarrow> Inr (sort_key t_CreatedAt (cd_tenants db)))"

definition hashKey :: "string \<Rightarrow> string" where
  "hashKey key = hex_encode (sha256 (bytes_of key))"

definition api_key :: "bytes \<Rightarrow> string" where
  "api_key raw = ''mlog_'' @ base64url raw"

text \<open>\<open>quoted\<close> is \<open>%q\<close>, which depends on the Unicode tables.\<close>

definition IssueAPIKey ::
    "(string \<Rightarrow> string) \<Rightarrow> error option \<Rightarrow> error + bytes \<Rightarrow> write_ack \<Rightarrow> int \<Rightarrow> string \<Rightarrow> control_db \<Rightarrow>
      (error + string) \<times> control_db"
where
  "IssueAPIKey quoted fail rnd w now tenantID db =
     (case fail of
        Some err \<Rightarrow> (Inl err, db)
      | None \<Rightarrow>
          if tenantID \<notin> set (map t_ID (cd_tenants db))
          then (Inl (ErrText (''control: unknown tenant '' @ quoted tenantID)), db)
          else case rnd of
                 Inl err \<Rightarrow> (Inl err, db)
               | Inr raw \<Rightarrow>
                   (let key = api_key raw;
                        hash = hashKey key;
                        pre = take 12 key
                    in case pg_insert w ''api_keys_pkey'' (hash \<in> set (map kr_key_hash (cd_keys db)))
                              (db\<lparr>cd_keys := cd_keys db @
                                 [\<lparr>kr_key_hash = hash, kr_key_prefix = pre, kr_tenant_id = tenantID,
                                   kr_created_at = now, kr_revoked = False\<rparr>]\<rparr>) db of
                         (Some err, db) \<Rightarrow> (Inl err, db)
                       | (None, db) \<Rightarrow> (Inr key, db)))"

definition Authenticate :: "error option \<Rightarrow> control_db \<Rightarrow> string \<Rightarrow> error + string" where
  "Authenticate fail db key =
     (case fail of
        Some err \<Rightarrow> Inl err
      | None \<Rightarrow>
          (case find (\<lambda>r. kr_key_hash r = hashKey key) (cd_keys db) of
             None \<Rightarrow> Inl ErrUnauthorized
           | Some r \<Rightarrow> if kr_revoked r then Inl ErrUnauthorized else Inr (kr_tenant_id r)))"

subsection \<open>Keys\<close>

lemma length_api_key: "length raw = 24 \<Longrightarrow> length (api_key raw) = 37"
  by (simp add: api_key_def length_base64url)

lemma api_key_inject: "length a = 24 \<Longrightarrow> length b = 24 \<Longrightarrow> api_key a = api_key b \<longleftrightarrow> a = b"
  using base64url_inject [of a b] by (auto simp: api_key_def)

lemma hashKey_eq: "hashKey k = hashKey k' \<Longrightarrow> k = k' \<or> collides [bytes_of k] [bytes_of k']"
  by (auto simp: hashKey_def collides_def)

subsection \<open>Runs of the control plane\<close>

text \<open>
  The states of the tables, with the keys drawn for stored rows and their tenants. Rows are stored
  also by a call that fails after the server has applied its write; nothing revokes a key.
\<close>

inductive control_run :: "(string \<Rightarrow> string) \<Rightarrow> control_db \<Rightarrow> (string \<times> string) list \<Rightarrow> bool"
  for quoted where
  control_start: "control_run quoted empty_control []"
| control_create: "control_run quoted db keys \<Longrightarrow> CreateTenant w now tid name db = (r, db') \<Longrightarrow>
    control_run quoted db' keys"
| control_issue: "control_run quoted db keys \<Longrightarrow> length raw = 24 \<Longrightarrow>
    IssueAPIKey quoted fail (Inr raw) w now t db = (r, db') \<Longrightarrow>
    control_run quoted db' (if cd_keys db' = cd_keys db then keys else keys @ [(api_key raw, t)])"

definition keys_ok :: "control_db \<Rightarrow> (string \<times> string) list \<Rightarrow> bool" where
  "keys_ok db keys \<longleftrightarrow>
     distinct (map t_ID (cd_tenants db)) \<and> distinct (map kr_key_hash (cd_keys db)) \<and>
     list_all (\<lambda>r. kr_tenant_id r \<in> set (map t_ID (cd_tenants db)) \<and> \<not> kr_revoked r \<and> length (kr_key_prefix r) = 12)
       (cd_keys db) \<and>
     map (\<lambda>r. (kr_key_hash r, kr_tenant_id r)) (cd_keys db) = map (\<lambda>(k, t). (hashKey k, t)) keys"

lemma CreateTenant_keys_ok:
  assumes "keys_ok db keys" and "CreateTenant w now tid name db = (r, db')"
  shows "keys_ok db' keys"
  using assms by (auto simp: keys_ok_def CreateTenant_def pg_insert_def list_all_iff split: if_splits write_ack.splits option.splits)

lemma IssueAPIKey_cases:
  assumes "IssueAPIKey quoted fail (Inr raw) w now t db = (r, db')"
  obtains (unchanged) err where "db' = db" "r = Inl err"
  | (stored) "t \<in> set (map t_ID (cd_tenants db))" "hashKey (api_key raw) \<notin> set (map kr_key_hash (cd_keys db))"
      "db' = db\<lparr>cd_keys := cd_keys db @ [\<lparr>kr_key_hash = hashKey (api_key raw), kr_key_prefix = take 12 (api_key raw),
         kr_tenant_id = t, kr_created_at = now, kr_revoked = False\<rparr>]\<rparr>"
      "r = Inr (api_key raw) \<or> (\<exists>err. r = Inl err)"
proof (cases fail)
  case (Some err)
  then show thesis using assms by (intro unchanged [of err]) (simp_all add: IssueAPIKey_def)
next
  case None
  show thesis
  proof (cases "t \<in> set (map t_ID (cd_tenants db)) \<and> hashKey (api_key raw) \<notin> set (map kr_key_hash (cd_keys db)) \<and>
      (\<forall>err. w \<noteq> Ack (Some err))")
    case True
    then show thesis
      using assms None by (intro stored) (auto simp: IssueAPIKey_def Let_def pg_insert_def split: write_ack.splits option.splits)
  next
    case False
    then show thesis
      using assms None unchanged
      by (auto simp: IssueAPIKey_def Let_def pg_insert_def split: if_splits write_ack.splits option.splits)
  qed
qed

lemma IssueAPIKey_keys_ok:
  assumes "keys_ok db keys" and "length raw = 24" and "IssueAPIKey quoted fail (Inr raw) w now t db = (r, db')"
  shows "keys_ok db' (if cd_keys db' = cd_keys db then keys else keys @ [(api_key raw, t)])"
  using assms(3)
proof (cases rule: IssueAPIKey_cases)
  case (unchanged err)
  with assms(1) show ?thesis by simp
next
  case stored
  then show ?thesis
    using assms(1) length_api_key [OF assms(2)] by (auto simp: keys_ok_def)
qed

lemma control_run_ok: "control_run quoted db keys \<Longrightarrow> keys_ok db keys"
proof (induction rule: control_run.induct)
  case control_start
  show ?case by (simp add: keys_ok_def empty_control_def)
next
  case (control_create db keys w now tid name r db')
  then show ?case using CreateTenant_keys_ok by blast
next
  case (control_issue db keys raw fail w now t r db')
  then show ?case by (intro IssueAPIKey_keys_ok)
qed

lemma find_key_row:
  assumes "map (\<lambda>r. (kr_key_hash r, kr_tenant_id r)) rs = map (\<lambda>(k, t). (hashKey k, t)) keys"
  shows "map_option kr_tenant_id (find (\<lambda>r. kr_key_hash r = h) rs) = map_option snd (find (\<lambda>(k, t). hashKey k = h) keys)"
  using assms
proof (induction rs arbitrary: keys)
  case (Cons r rs)
  then obtain k t keys' where "keys = (k, t) # keys'" by auto
  with Cons.prems Cons.IH [of keys'] show ?case by auto
qed simp

lemma Authenticate_keys:
  assumes "keys_ok db keys"
  shows "Authenticate None db key =
    (case find (\<lambda>(k, t). hashKey k = hashKey key) keys of None \<Rightarrow> Inl ErrUnauthorized | Some (k, t) \<Rightarrow> Inr t)"
proof -
  have "\<not> kr_revoked r" if "find (\<lambda>r. kr_key_hash r = hashKey key) (cd_keys db) = Some r" for r
    using that assms by (auto simp: keys_ok_def list_all_iff find_Some_iff)
  then show ?thesis
    using assms find_key_row [of "cd_keys db" keys "hashKey key"]
    by (cases "find (\<lambda>(k, t). hashKey k = hashKey key) keys")
      (auto simp: Authenticate_def keys_ok_def split: option.splits)
qed

lemma find_mem: "find P xs = Some x \<Longrightarrow> x \<in> set xs \<and> P x"
  by (auto simp: find_Some_iff)

lemma Authenticate_run:
  assumes "control_run quoted db keys"
  shows "(case Authenticate None db key of
      Inr t \<Rightarrow> (\<exists>k. (k, t) \<in> set keys \<and> (k = key \<or> collides [bytes_of k] [bytes_of key]))
    | Inl err \<Rightarrow> err = ErrUnauthorized \<and> key \<notin> set (map fst keys)) \<and>
    list_all (\<lambda>(k, t). Authenticate None db k = Inr t) keys"
proof -
  have ok: "keys_ok db keys" using assms by (rule control_run_ok)
  note auth = Authenticate_keys [OF ok]
  have "\<exists>k. (k, t) \<in> set keys \<and> (k = key \<or> collides [bytes_of k] [bytes_of key])"
    if "Authenticate None db key = Inr t" for t
    using that hashKey_eq by (auto simp: auth split: option.splits dest!: find_mem)
  moreover have "err = ErrUnauthorized \<and> key \<notin> set (map fst keys)"
    if "Authenticate None db key = Inl err" for err
    using that by (force simp: auth find_None_iff split: option.splits)
  moreover have "Authenticate None db k = Inr t" if mem: "(k, t) \<in> set keys" for k t
  proof -
    have "map fst (map (\<lambda>r. (kr_key_hash r, kr_tenant_id r)) (cd_keys db)) = map fst (map (\<lambda>(k, t). (hashKey k, t)) keys)"
      using ok by (simp only: keys_ok_def)
    then have "map kr_key_hash (cd_keys db) = map (hashKey \<circ> fst) keys"
      by (simp add: comp_def case_prod_beta')
    then have "distinct (map (hashKey \<circ> fst) keys)"
      using ok by (metis keys_ok_def)
    then have inj: "inj_on (hashKey \<circ> fst) (set keys)" by (simp add: distinct_map)
    obtain k' t' where f: "find (\<lambda>(k', t). hashKey k' = hashKey k) keys = Some (k', t')"
      using mem by (cases "find (\<lambda>(k', t). hashKey k' = hashKey k) keys") (auto simp: find_None_iff)
    then have "(k', t') \<in> set keys" "hashKey k' = hashKey k" by (auto dest!: find_mem)
    then have "(k', t') = (k, t)"
      using inj_onD [OF inj _ _ mem, of "(k', t')"] by simp
    with f show ?thesis by (simp add: auth)
  qed
  ultimately show ?thesis
    by (auto simp: list_all_iff split: sum.splits)
qed

text \<open>The control plane keeps the contract of the handlers' authenticator, in every state it reaches.\<close>

lemma control_authenticates:
  assumes "control_run quoted cdb keys"
  shows "key_authenticator (Authenticate None cdb) keys"
proof (unfold_locales, goal_cases)
  case (1 k t)
  then show ?case using Authenticate_run [OF assms] by (auto simp: list_all_iff)
next
  case (2 key t)
  then show ?case using Authenticate_run [OF assms, of key] by simp
qed

text \<open>
  C10 (internal/control/control.go, IssueAPIKey and Authenticate): a key resolves to the tenant it
  was drawn for, and only drawn keys resolve. In every state of the control plane, each drawn key
  authenticates as its tenant; whatever string authenticates is a drawn key of that tenant, or
  an explicit SHA-256 collision with one; every other string is refused with \<open>ErrUnauthorized\<close>.
\<close>

theorem authenticates_exactly_drawn_keys:
  assumes "control_run quoted db keys"
  shows "(case Authenticate None db key of
      Inr t \<Rightarrow> (\<exists>k. (k, t) \<in> set keys \<and> (k = key \<or> collides [bytes_of k] [bytes_of key]))
    | Inl err \<Rightarrow> err = ErrUnauthorized \<and> key \<notin> set (map fst keys)) \<and>
    list_all (\<lambda>(k, t). Authenticate None db k = Inr t) keys"
  by (rule Authenticate_run [OF assms])

definition sample_control :: control_db where
  "sample_control = snd (IssueAPIKey id None (Inr (replicate 24 7)) (Ack None) 2 ''acme''
     (snd (CreateTenant (Ack None) 1 ''acme'' ''Acme'' empty_control)))"

lemma sample_control_run: "control_run id sample_control [(api_key (replicate 24 7), ''acme'')]"
proof -
  let ?db = "snd (CreateTenant (Ack None) 1 ''acme'' ''Acme'' empty_control)"
  have "control_run id ?db []"
    by (rule control_create [OF control_start prod.collapse [symmetric]])
  from control_issue [OF this _ prod.collapse [symmetric], of "replicate 24 7" None "Ack None" 2 "''acme''"]
  show ?thesis
    by (simp add: sample_control_def) (simp add: IssueAPIKey_def CreateTenant_def pg_insert_def empty_control_def Let_def)
qed

interpretation sample_keys: key_authenticator "Authenticate None sample_control" "[(api_key (replicate 24 7), ''acme'')]"
  by (rule control_authenticates [OF sample_control_run])

theorem authenticates_exactly_drawn_keys_witness:
  "let keys = [(api_key (replicate 24 7), ''acme'')]; key = ''mlog_guess''
   in (case Authenticate None sample_control key of
        Inr t \<Rightarrow> (\<exists>k. (k, t) \<in> set keys \<and> (k = key \<or> collides [bytes_of k] [bytes_of key]))
      | Inl err \<Rightarrow> err = ErrUnauthorized \<and> key \<notin> set (map fst keys)) \<and>
      list_all (\<lambda>(k, t). Authenticate None sample_control k = Inr t) keys"
  unfolding Let_def by (rule authenticates_exactly_drawn_keys [OF sample_control_run])

end
