(* ===== verification/Gateway.thy ===== *)
theory Gateway
  imports Control Ingest_Sealer
begin

section \<open>The ingest gateway (internal/ingest/handler.go)\<close>

text \<open>
  \<open>POST /ingest\<close>: authenticate, read at most 16 MB of the body, split it into log objects (a JSON
  array, or one object a line), make a record of each and seal them as one batch of the key's
  tenant. Parameters are the two pieces of Go's library whose value the code only passes on:
  \<open>float64\<close>, the text a number is written back with, and \<open>parse_3339\<close>, the seconds and
  nanoseconds of an RFC 3339 time. The sealer is the model of \<open>Ingest_Sealer\<close>. One text stands
  for those of all JSON errors.
\<close>

record ingest_request =
  rq_method :: string
  rq_key :: string
  rq_source :: string
  rq_body :: "string \<times> error option"

text \<open>
  \<open>io.ReadAll(io.LimitReader(body, n))\<close>: the body is what can be read of it, and the error its
  reader ends with, if any; past the limit nothing is read.
\<close>

definition read_limited :: "nat \<Rightarrow> string \<times> error option \<Rightarrow> error + string" where
  "read_limited n body =
     (case body of (s, e) \<Rightarrow>
        if n \<le> length s then Inr (take n s)
        else case e of Some err \<Rightarrow> Inl err | None \<Rightarrow> Inr s)"

definition body_limit :: nat where
  "body_limit = 2 ^ 24"

definition line_limit :: nat where
  "line_limit = 2 ^ 23"

text \<open>\<open>bufio.ScanLines\<close>; that a carriage return at the end goes too makes no difference to a trimmed line.\<close>

fun split_lines :: "string \<Rightarrow> string list" where
  "split_lines [] = []"
| "split_lines (c # s) =
     (if c = CHR 0x0A then [] # split_lines s
      else case split_lines s of [] \<Rightarrow> [[c]] | l # ls \<Rightarrow> (c # l) # ls)"

fun line_objects :: "(string \<Rightarrow> string option) \<Rightarrow> string list \<Rightarrow> error + json list" where
  "line_objects float64 [] = Inr []"
| "line_objects float64 (l # ls) =
     (if line_limit \<le> length l then Inl (ErrText ''bufio.Scanner: token too long'')
      else let line = trim_space l
           in if line = [] then line_objects float64 ls
              else bind_res (line_objects float64 ls) (\<lambda>os.
                Inr ((case unmarshal_map float64 line of
                        Inr o' \<Rightarrow> o'
                      | Inl _ \<Rightarrow> JObj [(''message'', JStr line)]) # os)))"

fun decode_maps :: "(string \<Rightarrow> string option) \<Rightarrow> json list \<Rightarrow> error + json list" where
  "decode_maps float64 [] = Inr []"
| "decode_maps float64 (v # vs) =
     bind_res (decode_map float64 v) (\<lambda>m. bind_res (decode_maps float64 vs) (\<lambda>ms. Inr (m # ms)))"

definition parseLogObjects :: "(string \<Rightarrow> string option) \<Rightarrow> string \<Rightarrow> error + json list" where
  "parseLogObjects float64 body =
     (let trimmed = trim_space body
      in if trimmed = [] then Inr []
         else if starts_with CHR ''['' trimmed then
           (case json_parse trimmed of
              Some (JArr vs) \<Rightarrow> decode_maps float64 vs
            | _ \<Rightarrow> Inl (ErrText ''json: syntax error''))
         else line_objects float64 (split_lines trimmed))"

definition strVal :: "json option \<Rightarrow> string" where
  "strVal v = (case v of Some (JStr s) \<Rightarrow> s | _ \<Rightarrow> [])"

text \<open>\<open>UnixNano\<close> wraps around for times the 64 bits cannot hold.\<close>

definition unix_nano :: "int \<times> int \<Rightarrow> i64" where
  "unix_nano t = word_of_int (fst t * 1000000000 + snd t)"

definition ingest_parseTime :: "(string \<Rightarrow> (int \<times> int) option) \<Rightarrow> json option \<Rightarrow> i64" where
  "ingest_parseTime parse_3339 v =
     (case v of
        Some (JStr s) \<Rightarrow> (if s = [] then 0 else case parse_3339 s of Some t \<Rightarrow> unix_nano t | None \<Rightarrow> 0)
      | _ \<Rightarrow> 0)"

definition recordFromObject ::
    "(string \<Rightarrow> (int \<times> int) option) \<Rightarrow> json \<Rightarrow> string \<Rightarrow> i64 \<Rightarrow> record_in" where
  "recordFromObject parse_3339 o' defaultSource ingest =
     (let raw = (if strVal (obj_get o' ''message'') \<noteq> [] then strVal (obj_get o' ''message'')
                 else if strVal (obj_get o' ''raw'') \<noteq> [] then strVal (obj_get o' ''raw'')
                 else json_text o');
          source = strVal (obj_get o' ''source'');
          source = (if source = [] then defaultSource else source);
          source = (if source = [] then ''unknown'' else source);
          event = (let t = ingest_parseTime parse_3339 (obj_get o' ''timestamp'')
                   in if t \<noteq> 0 then t
                      else let t = ingest_parseTime parse_3339 (obj_get o' ''time'')
                           in if t \<noteq> 0 then t else ingest)
      in \<lparr>r_Source = source, r_Raw = raw, r_EventTime = event, r_IngestTime = ingest\<rparr>)"

definition ingest_ok_body :: "string \<Rightarrow> entry list \<Rightarrow> fault + json" where
  "ingest_ok_body tenant es =
     (case es of
        [] \<Rightarrow> Inl Panic
      | e # _ \<Rightarrow>
          Inr (JObj [(''accepted'', jnat (length es)), (''first_seq'', jnat (unat (Seq e))),
            (''last_seq'', jnat (unat (Seq (last es)))), (''tenant'', JStr tenant)]))"

definition ingest_ServeHTTP ::
    "(string \<Rightarrow> string option) \<Rightarrow> (string \<Rightarrow> (int \<times> int) option) \<Rightarrow> authenticator \<Rightarrow>
      (string \<Rightarrow> record_in list \<Rightarrow> 's \<Rightarrow> (error + entry list) \<times> 's) \<Rightarrow> i64 \<Rightarrow> ingest_request \<Rightarrow> 's \<Rightarrow>
      (fault + http_response) \<times> 's"
where
  "ingest_ServeHTTP float64 parse_3339 auth seal now r s =
     (if rq_method r \<noteq> ''POST'' then (Inr (http_Error ''method not allowed'' 405), s)
      else with_tenant auth (rq_key r) (\<lambda>resp. (Inr resp, s)) (\<lambda>tenant.
        case read_limited body_limit (rq_body r) of
          Inl err \<Rightarrow> (Inr (http_Error ''read error'' 400), s)
        | Inr body \<Rightarrow>
            (case parseLogObjects float64 body of
               Inl err \<Rightarrow> (Inr (http_Error (''invalid body: '' @ error_text err) 400), s)
             | Inr objs \<Rightarrow>
                 if objs = [] then (Inr (writeJSON 200 (JObj [(''accepted'', jnat 0), (''tenant'', JStr tenant)])), s)
                 else case seal tenant (map (\<lambda>o'. recordFromObject parse_3339 o' (rq_source r) now) objs) s of
                        (Inl err, s) \<Rightarrow> (Inr (http_Error (''ingest failed: '' @ error_text err) 500), s)
                      | (Inr es, s) \<Rightarrow>
                          (case ingest_ok_body tenant es of
                             Inl f \<Rightarrow> (Inl f, s)
                           | Inr v \<Rightarrow> (Inr (writeJSON 200 v), s)))))"

subsection \<open>The size of a batch\<close>

lemma length_parse_elems: "parse_elems n d s = Some (vs, r) \<Longrightarrow> length vs + length r \<le> length s"
proof (induction n arbitrary: s vs r)
  case (Suc n)
  then obtain v r1 where v: "parse_value n d s = Some (v, r1)"
    by (auto split: option.splits)
  then have "length (skip_ws r1) < length s"
    using parse_shorter(1) [OF v] skip_ws_le [of r1] by simp
  moreover have "length (tl (skip_ws r1)) \<le> length (skip_ws r1)" by simp
  moreover have "length (skip_ws (tl (skip_ws r1))) \<le> length (tl (skip_ws r1))" by (rule skip_ws_le)
  ultimately show ?case
    using Suc.prems v Suc.IH [of "skip_ws (tl (skip_ws r1))"]
    by (auto simp: Let_def split: if_splits)
qed simp

lemma parse_value_array:
  "parse_value (Suc n) d s = Some (JArr vs, r) \<Longrightarrow>
    vs = [] \<or> (\<exists>r. parse_elems n (d - 1) (skip_ws (tl s)) = Some (vs, r))"
  by (auto simp: Let_def split: if_splits)

lemma length_json_array:
  assumes "json_parse s = Some (JArr vs)"
  shows "length vs \<le> length s"
proof -
  obtain n r where "parse_value (Suc n) max_depth (skip_ws s) = Some (JArr vs, r)"
    using assms by (auto simp: json_parse_def simp del: parse_value.simps split: option.splits if_splits)
  from parse_value_array [OF this] have "length vs \<le> length (skip_ws (tl (skip_ws s)))"
    using length_parse_elems by fastforce
  then show ?thesis
    using skip_ws_le [of "tl (skip_ws s)"] skip_ws_le [of s] by simp
qed

lemma length_split_lines: "length (split_lines s) \<le> length s"
  by (induction s) (auto split: list.splits)

lemma length_line_objects: "line_objects f ls = Inr objs \<Longrightarrow> length objs \<le> length ls"
  by (induction ls arbitrary: objs) (fastforce simp: Let_def bind_res_eq_Inr split: if_splits)+

lemma length_decode_maps: "decode_maps f vs = Inr ms \<Longrightarrow> length ms = length vs"
  by (induction vs arbitrary: ms) (auto simp: bind_res_eq_Inr)

lemma length_parseLogObjects:
  assumes "parseLogObjects f body = Inr objs"
  shows "length objs \<le> length body"
proof -
  let ?t = "trim_space body"
  have parsed: "(if ?t = [] then Inr []
      else if starts_with CHR ''['' ?t then
        (case json_parse ?t of Some (JArr vs) \<Rightarrow> decode_maps f vs | _ \<Rightarrow> Inl (ErrText ''json: syntax error''))
      else line_objects f (split_lines ?t)) = Inr objs"
    using assms unfolding parseLogObjects_def Let_def .
  consider (none) "?t = []" | (arr) "?t \<noteq> []" "starts_with CHR ''['' ?t" | (lines) "?t \<noteq> []" "\<not> starts_with CHR ''['' ?t"
    by blast
  then have "length objs \<le> length ?t"
  proof cases
    case none
    then show ?thesis using parsed by simp
  next
    case arr
    then obtain vs where "json_parse ?t = Some (JArr vs)" "decode_maps f vs = Inr objs"
      using parsed by (simp split: option.splits json.splits)
    then show ?thesis using length_json_array [of ?t vs] length_decode_maps [of f vs objs] by simp
  next
    case lines
    then have "line_objects f (split_lines ?t) = Inr objs" using parsed by simp
    then show ?thesis using length_line_objects [of f "split_lines ?t" objs] length_split_lines [of ?t] by simp
  qed
  then show ?thesis using length_trim_space [of body] by simp
qed

lemma length_read_limited: "read_limited n body = Inr s \<Longrightarrow> length s \<le> n"
  by (auto simp: read_limited_def split: prod.splits if_splits option.splits)

lemma batch_size:
  assumes "bind_res (read_limited body_limit body) (parseLogObjects f) = Inr objs"
  shows "length objs \<le> 2 ^ 24"
proof -
  obtain s where "read_limited body_limit body = Inr s" "parseLogObjects f s = Inr objs"
    using assms by (auto simp: bind_res_eq_Inr)
  then show ?thesis
    using length_read_limited [of body_limit body s] length_parseLogObjects [of f s objs] by (simp add: body_limit_def)
qed

subsection \<open>A request\<close>

text \<open>The two outcomes of a request: nothing is appended, or one batch is.\<close>

definition nothing_sealed :: "http_response \<Rightarrow> bool" where
  "nothing_sealed resp \<longleftrightarrow> rs_status resp \<noteq> 200 \<or>
     (\<exists>t. resp = writeJSON 200 (JObj [(''accepted'', jnat 0), (''tenant'', JStr t)]))"

definition accepted_json :: "string \<Rightarrow> nat \<Rightarrow> nat \<Rightarrow> json" where
  "accepted_json t first n =
     JObj [(''accepted'', jnat n), (''first_seq'', jnat first), (''last_seq'', jnat (first + n - 1)), (''tenant'', JStr t)]"

definition request_records ::
    "(string \<Rightarrow> string option) \<Rightarrow> (string \<Rightarrow> (int \<times> int) option) \<Rightarrow> i64 \<Rightarrow> ingest_request \<Rightarrow> error + record_in list" where
  "request_records float64 parse_3339 now r =
     bind_res (bind_res (read_limited body_limit (rq_body r)) (parseLogObjects float64)) (\<lambda>objs.
       Inr (map (\<lambda>o'. recordFromObject parse_3339 o' (rq_source r) now) objs))"

lemma ServeHTTP_cases:
  assumes "ingest_ServeHTTP float64 parse_3339 auth seal now r s = (res, s')"
  obtains (idle) resp where "res = Inr resp" "s' = s" "nothing_sealed resp"
  | (batch) t recs out where "auth (rq_key r) = Inr t" "request_records float64 parse_3339 now r = Inr recs"
      "recs \<noteq> []" "length recs \<le> 2 ^ 24" "seal t recs s = (out, s')"
      "res = (case out of
         Inl err \<Rightarrow> Inr (http_Error (''ingest failed: '' @ error_text err) 500)
       | Inr es \<Rightarrow> map_sum id (writeJSON 200) (ingest_ok_body t es))"
proof (cases "rq_method r = ''POST''")
  case False
  with assms show thesis
    by (intro idle [of "http_Error ''method not allowed'' 405"]) (simp_all add: ingest_ServeHTTP_def nothing_sealed_def)
next
  case True
  note served = assms [unfolded ingest_ServeHTTP_def, simplified True, simplified]
  from served show thesis
  proof (cases rule: with_tenant_cases)
    case (refused msg status)
    then show thesis by (intro idle [of "http_Error msg status"]) (simp_all add: nothing_sealed_def)
  next
    case (tenant t)
    let ?objs = "bind_res (read_limited body_limit (rq_body r)) (parseLogObjects float64)"
    show thesis
    proof (cases ?objs)
      case (Inl err)
      then show thesis
        using tenant(2) idle by (cases "read_limited body_limit (rq_body r)") (auto simp: nothing_sealed_def)
    next
      case (Inr objs)
      then obtain body where body: "read_limited body_limit (rq_body r) = Inr body" "parseLogObjects float64 body = Inr objs"
        by (auto simp: bind_res_eq_Inr)
      let ?recs = "map (\<lambda>o'. recordFromObject parse_3339 o' (rq_source r) now) objs"
      show thesis
      proof (cases "objs = []")
        case True
        then show thesis
          using tenant(2) body
          by (intro idle [of "writeJSON 200 (JObj [(''accepted'', jnat 0), (''tenant'', JStr t)])"])
            (auto simp: nothing_sealed_def)
      next
        case False
        obtain out s1 where out: "seal t ?recs s = (out, s1)" by fastforce
        have "s1 = s'" "res = (case out of
            Inl err \<Rightarrow> Inr (http_Error (''ingest failed: '' @ error_text err) 500)
          | Inr es \<Rightarrow> map_sum id (writeJSON 200) (ingest_ok_body t es))"
          using tenant(2) body False out by (auto split: sum.splits)
        then show thesis
          using tenant(1) False out batch_size [OF Inr] Inr
          by (intro batch [of t ?recs out]) (simp_all add: request_records_def)
      qed
    qed
  qed
qed

lemma sealed_seqs:
  assumes "intact t (xs @ es)" and "es \<noteq> []" and "length (xs @ es) \<le> 2 ^ 64"
  shows "unat (Seq (hd es)) = length xs" and "unat (Seq (last es)) = length xs + length es - 1"
proof -
  have seq: "Seq ((xs @ es) ! i) = of_nat i" if "i < length (xs @ es)" for i
    using links_Seq_nth [OF assms(1) that] by simp
  have unat: "unat (of_nat i :: u64) = i" if "i < length (xs @ es)" for i
    using that assms(3) by (simp add: unat_of_nat)
  have "hd es = (xs @ es) ! length xs" "last es = (xs @ es) ! (length xs + length es - 1)"
    using assms(2) by (cases es; simp add: last_conv_nth nth_append)+
  then show "unat (Seq (hd es)) = length xs" "unat (Seq (last es)) = length xs + length es - 1"
    using assms(2) seq unat by (simp_all add: length_greater_0_conv)
qed

lemma ingest_ok_body_hd:
  "es \<noteq> [] \<Longrightarrow> ingest_ok_body t es =
    Inr (JObj [(''accepted'', jnat (length es)), (''first_seq'', jnat (unat (Seq (hd es)))),
      (''last_seq'', jnat (unat (Seq (last es)))), (''tenant'', JStr t)])"
  by (cases es) (simp_all add: ingest_ok_body_def)

lemma ingest_ok_body_sealed:
  assumes "intact t (xs @ es)" and "es \<noteq> []" and "length (xs @ es) \<le> 2 ^ 64"
  shows "ingest_ok_body t es = Inr (accepted_json t (length xs) (length es))"
  using sealed_seqs [OF assms] ingest_ok_body_hd [OF assms(2), of t] by (simp add: accepted_json_def)

lemma sealed_answer:
  assumes run: "ingest_run (hm, tbl) log" and size: "log_size log \<le> 2 ^ 62" and recs: "recs \<noteq> []" "length recs \<le> 2 ^ 24"
    and batch: "SealBatch (ch_Head fail) (ch_Append (Ack ack)) t recs (hm, tbl) = (out, hm', tbl')"
  shows "case out of
      Inl _ \<Rightarrow> tbl' = tbl \<and> ingest_run (hm', tbl') log
    | Inr es \<Rightarrow> es \<noteq> [] \<and> ingest_ok_body t es = Inr (accepted_json t (length (ch_entries tbl t)) (length recs)) \<and>
        ingest_run (hm', tbl') (log @ [(t, recs)]) \<and>
        (\<forall>u. map line_of (ch_entries tbl' u) = map line_of (ch_entries tbl u) @ (if u = t then map line_in recs else []))"
proof -
  have size63: "log_size log \<le> 2 ^ 63" using size by simp
  have ok: "ch.sealed_ok (hm, tbl)" using ingest_run_ok [OF run size63] by simp
  have len: "length (ch_entries tbl t) \<le> 2 ^ 62"
    using ingest_run_length [OF run size63, of t] size by simp
  then have "length (ch_entries tbl t) + length recs \<le> 2 ^ 64"
    using recs(2) by simp
  note sealed = ch.SealBatch_ok [OF ok batch this]
  have run': "ingest_run (hm', tbl') (case out of Inl _ \<Rightarrow> log | Inr _ \<Rightarrow> log @ [(t, recs)])"
    by (rule ingest_batch [OF run recs(2) batch])
  show ?thesis
  proof (cases out)
    case (Inl err)
    have "tbl' = tbl"
      using ok batch
    proof (cases rule: ch.SealBatch_cases)
      case (sealed h es n p)
      then show ?thesis using Inl by (cases ack) (auto simp: ch_Append_def split: if_splits)
    qed
    then show ?thesis using run' Inl by simp
  next
    case (Inr es)
    have es: "map line_of es = map line_in recs" "ch_entries tbl' t = ch_entries tbl t @ es"
      using sealed(2) [of t] sealed(3) Inr by simp_all
    have n: "length es = length recs" using arg_cong [OF es(1), of length] by simp
    then have "es \<noteq> []" using recs(1) by auto
    moreover have "intact t (ch_entries tbl t @ es)"
      using sealed(1) es(2) by (metis ch.sealed_ok_intact)
    moreover have "length (ch_entries tbl t @ es) \<le> 2 ^ 64"
      using len recs(2) n by simp
    ultimately show ?thesis
      using ingest_ok_body_sealed [of t "ch_entries tbl t" es] n sealed(2) es(1) run' Inr by simp
  qed
qed

context key_authenticator
begin

lemma ServeHTTP_seals:
  assumes run: "ingest_run (hm, tbl) log" and size: "log_size log \<le> 2 ^ 62"
    and auth': "\<And>key t. auth' key = Inr t \<Longrightarrow> auth key = Inr t"
    and serve: "ingest_ServeHTTP float64 parse_3339 auth' (SealBatch (ch_Head fail) (ch_Append w))
      now r (hm, tbl) = (res, hm', tbl')"
  shows "(\<exists>resp. res = Inr resp \<and> nothing_sealed resp \<and> tbl' = tbl \<and> ingest_run (hm', tbl') log) \<or>
    (\<exists>t k recs. (k, t) \<in> set keys \<and> (k = rq_key r \<or> collides [bytes_of k] [bytes_of (rq_key r)]) \<and>
      request_records float64 parse_3339 now r = Inr recs \<and> recs \<noteq> [] \<and>
      (\<forall>u. map line_of (ch_entries tbl' u) =
        map line_of (ch_entries tbl u) @ (if u = t then map line_in recs else [])) \<and>
      (case w of
         Ack _ \<Rightarrow>
           res = Inr (writeJSON 200 (accepted_json t (length (ch_entries tbl t)) (length recs))) \<and>
           ingest_run (hm', tbl') (log @ [(t, recs)])
       | Unacknowledged err \<Rightarrow> res = Inr (http_Error (''ingest failed: '' @ error_text err) 500)))"
  using serve
proof (cases rule: ServeHTTP_cases)
  case (idle resp)
  with run show ?thesis by blast
next
  case (batch t recs out)
  obtain k where k: "(k, t) \<in> set keys" "k = rq_key r \<or> collides [bytes_of k] [bytes_of (rq_key r)]"
    using resolves [OF auth' [OF batch(1)]] by blast
  show ?thesis
  proof (cases w)
    case (Ack ack)
    note answer = sealed_answer [OF run size batch(3,4,5) [unfolded Ack]]
    show ?thesis
    proof (cases out)
      case (Inl err)
      then show ?thesis using answer batch(6) by (auto simp: nothing_sealed_def)
    next
      case (Inr es)
      then have "res = Inr (writeJSON 200 (accepted_json t (length (ch_entries tbl t)) (length recs)))"
        using answer batch(6) by simp
      then show ?thesis using answer Inr k batch(2,3) Ack by auto
    qed
  next
    case (Unacknowledged err)
    obtain r0 hm0 where acked: "SealBatch (ch_Head fail) (ch_Append (Ack None)) t recs (hm, tbl) = (r0, hm0, tbl')"
      and out: "case r0 of Inl e \<Rightarrow> out = Inl e \<and> hm' = hm0 | Inr es \<Rightarrow> es = [] \<or> out = Inl err"
      using SealBatch_unacknowledged batch(5) [unfolded Unacknowledged] by metis
    note answer = sealed_answer [OF run size batch(3,4) acked]
    show ?thesis
    proof (cases r0)
      case (Inl e)
      then show ?thesis using answer out batch(6) by (auto simp: nothing_sealed_def)
    next
      case (Inr es)
      then have "res = Inr (http_Error (''ingest failed: '' @ error_text err) 500)"
        using answer out batch(6) by auto
      then show ?thesis using answer Inr k batch(2,3) Unacknowledged by auto
    qed
  qed
qed

end

text \<open>
  C5 (internal/ingest/handler.go, internal/ingest/sealer.go, internal/control/control.go): a
  request seals exactly its own lines, for the tenant of its key. Take a state that batches whose
  writes ClickHouse acknowledged or refused have reached. A request to the gateway, whatever of its
  key look-up, its reads and its write fails, returns (no panic) and does one of two things. It appends
  nothing, and is answered with an error status or with \<open>"accepted": 0\<close>. Or its key was drawn for a
  tenant (or collides with one that was), the rows of that tenant grow by exactly the records
  parsed from the body, in order, and no other tenant's rows change; then the answer is a 200 with
  their number and their first and last sequence numbers, except that when ClickHouse applied the
  write without acknowledging it, it is the 500 of a failed ingest.
\<close>

theorem request_seals_its_lines_for_its_key:
  assumes "control_run quoted cdb keys" and "ingest_run (hm, tbl) log" and "log_size log \<le> 2 ^ 62"
    and "ingest_ServeHTTP float64 parse_3339 (Authenticate auth_fail cdb) (SealBatch (ch_Head fail) (ch_Append w))
      now r (hm, tbl) = (res, hm', tbl')"
  shows "(\<exists>resp. res = Inr resp \<and> nothing_sealed resp \<and> tbl' = tbl \<and> ingest_run (hm', tbl') log) \<or>
    (\<exists>t k recs. (k, t) \<in> set keys \<and> (k = rq_key r \<or> collides [bytes_of k] [bytes_of (rq_key r)]) \<and>
      request_records float64 parse_3339 now r = Inr recs \<and> recs \<noteq> [] \<and>
      (\<forall>u. map line_of (ch_entries tbl' u) =
        map line_of (ch_entries tbl u) @ (if u = t then map line_in recs else [])) \<and>
      (case w of
         Ack _ \<Rightarrow>
           res = Inr (writeJSON 200 (accepted_json t (length (ch_entries tbl t)) (length recs))) \<and>
           ingest_run (hm', tbl') (log @ [(t, recs)])
       | Unacknowledged err \<Rightarrow> res = Inr (http_Error (''ingest failed: '' @ error_text err) 500)))"
proof -
  have "Authenticate None cdb key = Inr t" if "Authenticate auth_fail cdb key = Inr t" for key t
    using that by (cases auth_fail) (simp_all add: Authenticate_def)
  from key_authenticator.ServeHTTP_seals [OF control_authenticates [OF assms(1)] assms(2,3) this assms(4)]
  show ?thesis .
qed

definition sample_request :: ingest_request where
  "sample_request =
     \<lparr>rq_method = ''POST'', rq_key = api_key (replicate 24 7), rq_source = ''app'', rq_body = (''hello'', None)\<rparr>"

definition sample_served :: "(fault + http_response) \<times> sealer_heads \<times> ch_table" where
  "sample_served =
     ingest_ServeHTTP (\<lambda>_. None) (\<lambda>_. None) (Authenticate None sample_control)
       (SealBatch (ch_Head None) (ch_Append (Ack None))) 5 sample_request ([], [])"

theorem request_seals_its_lines_for_its_key_witness:
  "let res = fst sample_served; hm' = fst (snd sample_served); tbl' = snd (snd sample_served);
       key = api_key (replicate 24 7); keys = [(key, ''acme'')]
   in (\<exists>resp. res = Inr resp \<and> nothing_sealed resp \<and> tbl' = [] \<and> ingest_run (hm', tbl') []) \<or>
    (\<exists>t k recs. (k, t) \<in> set keys \<and> (k = rq_key sample_request \<or> collides [bytes_of k] [bytes_of (rq_key sample_request)]) \<and>
      request_records (\<lambda>_. None) (\<lambda>_. None) 5 sample_request = Inr recs \<and> recs \<noteq> [] \<and>
      (\<forall>u. map line_of (ch_entries tbl' u) =
        map line_of (ch_entries [] u) @ (if u = t then map line_in recs else [])) \<and>
      res = Inr (writeJSON 200 (accepted_json t (length (ch_entries [] t)) (length recs))) \<and>
      ingest_run (hm', tbl') ([] @ [(t, recs)]))"
  unfolding Let_def
  using request_seals_its_lines_for_its_key [OF sample_control_run ingest_start, where w = "Ack None" and auth_fail = None and
      fail = None and r = sample_request and now = 5 and ?float64.0 = "\<lambda>_. None" and ?parse_3339.0 = "\<lambda>_. None" and
      res = "fst sample_served" and hm' = "fst (snd sample_served)" and tbl' = "snd (snd sample_served)"]
  by (simp add: sample_served_def log_size_def)

text \<open>
  In internal/ingest/handler.go, ServeHTTP: what a body holds past 16 MB is dropped without a
  word. The request is answered, and sealed, as if the body ended there: the answer is a 200 with
  the number of the lines that were left.
\<close>

theorem oversized_body_is_cut_silently:
  assumes "rq_body r = (s @ rest, e)" and "length s = 2 ^ 24"
  shows "ingest_ServeHTTP float64 parse_3339 auth seal now r st =
    ingest_ServeHTTP float64 parse_3339 auth seal now (r\<lparr>rq_body := (s, None)\<rparr>) st"
proof -
  have same: "rq_method (r\<lparr>rq_body := (s, None)\<rparr>) = rq_method r" "rq_key (r\<lparr>rq_body := (s, None)\<rparr>) = rq_key r"
      "rq_source (r\<lparr>rq_body := (s, None)\<rparr>) = rq_source r"
      "read_limited body_limit (rq_body (r\<lparr>rq_body := (s, None)\<rparr>)) = read_limited body_limit (rq_body r)"
    using assms by (simp_all add: read_limited_def body_limit_def)
  show ?thesis unfolding ingest_ServeHTTP_def same ..
qed

theorem oversized_body_is_cut_silently_witness:
  "let s = replicate (2 ^ 24) CHR ''x''; r = sample_request\<lparr>rq_body := (s @ ''lost'', None)\<rparr>;
       run = (\<lambda>r. ingest_ServeHTTP (\<lambda>_. None) (\<lambda>_. None) (Authenticate None sample_control)
         (SealBatch (ch_Head None) (ch_Append (Ack None))) 5 r ([], []))
   in run r = run (r\<lparr>rq_body := (s, None)\<rparr>)"
  unfolding Let_def by (rule oversized_body_is_cut_silently [where rest = "''lost''" and e = None]) simp_all

text \<open>
  C29 (internal/ingest/handler.go, recordFromObject and parseTime): which event time is sealed.
  Let the line state the time \<open>T\<close>, in nanoseconds since 1970: in its \<open>timestamp\<close> member or, where
  that gives no time, in \<open>time\<close>. If \<open>T\<close> is a multiple of \<open>2^64\<close>, the epoch itself included, it
  counts as no time at all: the time of the \<open>time\<close> member is sealed or, failing that, the time of
  ingestion. Otherwise \<open>T\<close> is sealed wrapped around to 64 signed bits. So a time other than the
  epoch is kept exactly when it fits, that is from 1677 to 2262.
\<close>

theorem event_time_is_kept_within_64_bits:
  fixes src :: string and ingest :: i64
  assumes "k = ''timestamp'' \<or> k = ''time'' \<and> ingest_parseTime parse_3339 (obj_get o' ''timestamp'') = 0"
    and "obj_get o' k = Some (JStr s)" and "s \<noteq> []" and "parse_3339 s = Some (sec, ns)"
  defines "T \<equiv> sec * 1000000000 + ns" and "sealed \<equiv> r_EventTime (recordFromObject parse_3339 o' src ingest)"
  shows "(if T mod 2 ^ 64 = 0
      then sealed = (let t = ingest_parseTime parse_3339 (obj_get o' ''time'') in if t \<noteq> 0 then t else ingest)
      else sint sealed = (T + 2 ^ 63) mod 2 ^ 64 - 2 ^ 63) \<and>
    (T = 0 \<or> (T mod 2 ^ 64 \<noteq> 0 \<and> sint sealed = T \<longleftrightarrow> - (2 ^ 63) \<le> T \<and> T < 2 ^ 63))"
proof -
  have parsed: "ingest_parseTime parse_3339 (obj_get o' k) = word_of_int T"
    using assms(2-4) by (simp add: ingest_parseTime_def unix_nano_def T_def)
  have zero: "(word_of_int T :: i64) = 0 \<longleftrightarrow> T mod 2 ^ 64 = 0"
    by (simp add: word_of_int_eq_0_iff dvd_eq_mod_eq_0)
  have sealed: "sealed = (if T mod 2 ^ 64 = 0
      then let t = ingest_parseTime parse_3339 (obj_get o' ''time'') in if t \<noteq> 0 then t else ingest else word_of_int T)"
    using assms(1) parsed zero by (auto simp: sealed_def recordFromObject_def Let_def)
  have wrap: "sint (word_of_int T :: i64) = (T + 2 ^ 63) mod 2 ^ 64 - 2 ^ 63"
    by (simp add: signed_of_int signed_take_bit_eq_take_bit_shift take_bit_eq_mod)
  have "T mod 2 ^ 64 \<noteq> 0 \<and> (T + 2 ^ 63) mod 2 ^ 64 - 2 ^ 63 = T \<longleftrightarrow> - (2 ^ 63) \<le> T \<and> T < 2 ^ 63" if "T \<noteq> 0"
    using that by (auto simp: mod_eq_0_iff_dvd)
  then show ?thesis
    using wrap by (auto simp: sealed)
qed

theorem event_time_is_kept_within_64_bits_witness:
  "sint (r_EventTime (recordFromObject (\<lambda>_. Some (253402300799, 0)) (JObj [(''timestamp'', JStr ''9999-12-31T23:59:59Z'')]) [] 5)) =
    (253402300799 * 1000000000 + 2 ^ 63) mod 2 ^ 64 - 2 ^ 63"
  using event_time_is_kept_within_64_bits [where k = "''timestamp''" and s = "''9999-12-31T23:59:59Z''" and
      ?parse_3339.0 = "\<lambda>_. Some (253402300799, 0)" and o' = "JObj [(''timestamp'', JStr ''9999-12-31T23:59:59Z'')]"]
  by (simp add: obj_get_def)

end
