(* ===== verification/Query_Api.thy ===== *)
theory Query_Api
  imports Gateway Codec
begin

section \<open>The query API (internal/queryapi/handler.go)\<close>

text \<open>
  \<open>GET /logs\<close>: authenticate, read the search parameters, search the log store for the key's
  tenant and answer with the rows found. The time functions of the library are parameters:
  \<open>parse_3339\<close> as in \<open>Gateway\<close>, and \<open>format_ns\<close>, the text of a time of which the nanoseconds since
  1970 are given. The search is \<open>ch_Search\<close> of \<open>Log_Store\<close>; a parameter that cannot be parsed is
  as good as absent.
\<close>

record query_request =
  qr_method :: string
  qr_key :: string
  qr_get :: "string \<Rightarrow> string"

record logView =
  lv_Seq :: u64
  lv_EventTime :: string
  lv_IngestTime :: string
  lv_Source :: string
  lv_Raw :: string
  lv_EntryHash :: string

text \<open>
  A Go time as seconds and nanoseconds since 1970; the zero time is the first instant of year 1.
  A search leaves out a bound that is the zero time.
\<close>

definition zero_time :: "int \<times> int" where
  "zero_time = (-62135596800, 0)"

definition query_parseTime :: "(string \<Rightarrow> (int \<times> int) option) \<Rightarrow> string \<Rightarrow> int \<times> int" where
  "query_parseTime parse_3339 s =
     (case parse_3339 s of
        Some t \<Rightarrow> t
      | None \<Rightarrow>
          (case parse_int64 s of Some sec \<Rightarrow> (sint sec, 0) | None \<Rightarrow> zero_time))"

definition search_bound :: "int \<times> int \<Rightarrow> int option" where
  "search_bound t = (if t = zero_time then None else Some (fst t * 1000000000 + snd t))"

definition query_params :: "(string \<Rightarrow> (int \<times> int) option) \<Rightarrow> (string \<Rightarrow> string) \<Rightarrow> search_params" where
  "query_params parse_3339 q =
     \<lparr>sp_Start = (if q ''start'' \<noteq> [] then search_bound (query_parseTime parse_3339 (q ''start'')) else None),
      sp_End = (if q ''end'' \<noteq> [] then search_bound (query_parseTime parse_3339 (q ''end'')) else None),
      sp_Text = q ''q'', sp_Source = q ''source'',
      sp_Limit = (if q ''limit'' \<noteq> [] then (case parse_int64 (q ''limit'') of Some n \<Rightarrow> sint n | None \<Rightarrow> 0) else 0)\<rparr>"

fun hexShort :: "bytes \<Rightarrow> string" where
  "hexShort [] = []"
| "hexShort (c # cs) = hex_digit (unat (drop_bit 4 c)) # hex_digit (unat (and c 0x0f)) # hexShort cs"

definition log_view :: "(int \<Rightarrow> string) \<Rightarrow> entry \<Rightarrow> logView" where
  "log_view format_ns e =
     \<lparr>lv_Seq = Seq e, lv_EventTime = format_ns (sint (EventTime e)), lv_IngestTime = format_ns (sint (IngestTime e)),
      lv_Source = Source e, lv_Raw = Raw e, lv_EntryHash = hexShort (EntryHash e)\<rparr>"

definition view_json :: "logView \<Rightarrow> json" where
  "view_json v =
     JObj [(''seq'', jnat (unat (lv_Seq v))), (''event_time'', JStr (lv_EventTime v)),
       (''ingest_time'', JStr (lv_IngestTime v)), (''source'', JStr (lv_Source v)), (''raw'', JStr (lv_Raw v)),
       (''entry_hash'', JStr (lv_EntryHash v))]"

definition query_ServeHTTP ::
    "(string \<Rightarrow> (int \<times> int) option) \<Rightarrow> (int \<Rightarrow> string) \<Rightarrow> authenticator \<Rightarrow>
      (string \<Rightarrow> search_params \<Rightarrow> error + entry list) \<Rightarrow> query_request \<Rightarrow> http_response"
where
  "query_ServeHTTP parse_3339 format_ns auth search r =
     (if qr_method r \<noteq> ''GET'' then http_Error ''method not allowed'' 405
      else with_tenant auth (qr_key r) id (\<lambda>tenant.
        case search tenant (query_params parse_3339 (qr_get r)) of
          Inl err \<Rightarrow> http_Error (''query failed: '' @ error_text err) 500
        | Inr es \<Rightarrow>
            (let views = map (log_view format_ns) es
             in writeJSON 200 (JObj [(''count'', jnat (length views)), (''logs'', JArr (map view_json views)),
                  (''tenant'', JStr tenant)]))))"

subsection \<open>Properties\<close>

lemma hexShort_hex_encode: "hexShort bs = hex_encode bs"
proof (induction bs)
  case (Cons b bs)
  have "unat (drop_bit 4 b) = unat b div 16"
    by (simp add: drop_bit_eq_div unat_div)
  moreover have "unat (and b 0x0f) = unat b mod 16"
  proof -
    have "and b 0x0f = take_bit 4 b" by (simp add: take_bit_eq_mask mask_eq_exp_minus_1)
    then have "unat (and b 0x0f) = take_bit 4 (unat b)" by (simp only: unsigned_take_bit_eq)
    then show ?thesis by (simp add: take_bit_eq_mod)
  qed
  ultimately show ?case using Cons by simp
qed simp

context key_authenticator
begin

lemma query_ServeHTTP_200:
  assumes "query_ServeHTTP parse_3339 format_ns auth (\<lambda>t p. ch_Search fail bind_time t p tbl) r = resp"
    and "rs_status resp = 200"
  shows "\<exists>t k es. (k, t) \<in> set keys \<and> (k = qr_key r \<or> collides [bytes_of k] [bytes_of (qr_key r)]) \<and>
    resp = writeJSON 200 (JObj [(''count'', jnat (length es)), (''logs'', JArr (map (view_json \<circ> log_view format_ns) es)),
      (''tenant'', JStr t)]) \<and>
    list_all (\<lambda>e. TenantID e = t \<and> lv_EntryHash (log_view format_ns e) = hex_encode (EntryHash e) \<and>
      (\<exists>row\<in>set tbl. scan_row row = Inr e \<and> search_where bind_time t (query_params parse_3339 (qr_get r)) row)) es \<and>
    sorted (map Seq (rev es)) \<and> length es \<le> 10000"
proof -
  have get: "qr_method r = ''GET''"
    using assms by (auto simp: query_ServeHTTP_def split: if_splits)
  have "with_tenant auth (qr_key r) id (\<lambda>tenant.
      case ch_Search fail bind_time tenant (query_params parse_3339 (qr_get r)) tbl of
        Inl err \<Rightarrow> http_Error (''query failed: '' @ error_text err) 500
      | Inr es \<Rightarrow>
          (let views = map (log_view format_ns) es
           in writeJSON 200 (JObj [(''count'', jnat (length views)), (''logs'', JArr (map view_json views)),
                (''tenant'', JStr tenant)]))) = resp"
    using assms(1) get by (simp add: query_ServeHTTP_def)
  then show ?thesis
  proof (cases rule: with_tenant_keyed)
    case (refused msg status)
    with assms(2) show ?thesis by simp
  next
    case (tenant t k)
    then obtain es where es: "ch_Search fail bind_time t (query_params parse_3339 (qr_get r)) tbl = Inr es"
        "resp = writeJSON 200 (JObj [(''count'', jnat (length es)), (''logs'', JArr (map (view_json \<circ> log_view format_ns) es)),
          (''tenant'', JStr t)])"
      using assms(2) by (auto simp: Let_def split: sum.splits)
    note ch_Search_scoped [OF es(1)]
    moreover have "lv_EntryHash (log_view format_ns e) = hex_encode (EntryHash e)" for e
      by (simp add: log_view_def hexShort_hex_encode)
    ultimately show ?thesis
      using es(2) tenant(3,4) by (intro exI [of _ t] exI [of _ k] exI [of _ es]) (auto simp: list_all_iff)
  qed
qed

end

text \<open>
  C12 (internal/queryapi/handler.go, internal/control/control.go, internal/logstore/clickhouse.go):
  an answer with status 200 holds rows of one tenant, the tenant the key was drawn for (up to a
  collision with a drawn key): its log views are, newest first and at most 10000, stored rows of
  that tenant that satisfy the filters of the request, each with its stored hash.
\<close>

theorem answer_holds_only_the_keys_rows:
  assumes "control_run quoted cdb keys"
    and "query_ServeHTTP parse_3339 format_ns (Authenticate None cdb) (\<lambda>t p. ch_Search fail bind_time t p tbl) r = resp"
    and "rs_status resp = 200"
  shows "\<exists>t k es. (k, t) \<in> set keys \<and> (k = qr_key r \<or> collides [bytes_of k] [bytes_of (qr_key r)]) \<and>
    resp = writeJSON 200 (JObj [(''count'', jnat (length es)), (''logs'', JArr (map (view_json \<circ> log_view format_ns) es)),
      (''tenant'', JStr t)]) \<and>
    list_all (\<lambda>e. TenantID e = t \<and> lv_EntryHash (log_view format_ns e) = hex_encode (EntryHash e) \<and>
      (\<exists>row\<in>set tbl. scan_row row = Inr e \<and> search_where bind_time t (query_params parse_3339 (qr_get r)) row)) es \<and>
    sorted (map Seq (rev es)) \<and> length es \<le> 10000"
  by (rule key_authenticator.query_ServeHTTP_200 [OF control_authenticates [OF assms(1)] assms(2,3)])

definition sample_query :: query_request where
  "sample_query =
     \<lparr>qr_method = ''GET'', qr_key = api_key (replicate 24 7), qr_get = (\<lambda>k. if k = ''limit'' then ''5'' else [])\<rparr>"

lemma sample_key: "Authenticate None sample_control (api_key (replicate 24 7)) = Inr ''acme''"
  by (rule sample_keys.opens) simp

theorem answer_holds_only_the_keys_rows_witness:
  "let resp = query_ServeHTTP (\<lambda>_. None) (\<lambda>_. []) (Authenticate None sample_control)
         (\<lambda>t p. ch_Search None id t p sample_table) sample_query;
       keys = [(api_key (replicate 24 7), ''acme'')]
   in \<exists>t k es. (k, t) \<in> set keys \<and> (k = qr_key sample_query \<or> collides [bytes_of k] [bytes_of (qr_key sample_query)]) \<and>
    resp = writeJSON 200 (JObj [(''count'', jnat (length es)), (''logs'', JArr (map (view_json \<circ> log_view (\<lambda>_. [])) es)),
      (''tenant'', JStr t)]) \<and>
    list_all (\<lambda>e. TenantID e = t \<and> lv_EntryHash (log_view (\<lambda>_. []) e) = hex_encode (EntryHash e) \<and>
      (\<exists>row\<in>set sample_table. scan_row row = Inr e \<and>
        search_where id t (query_params (\<lambda>_. None) (qr_get sample_query)) row)) es \<and>
    sorted (map Seq (rev es)) \<and> length es \<le> 10000"
proof -
  have "set (take (search_limit p) (rev (sort_key col_seq (filter (search_where id t p) sample_table)))) \<subseteq> range to_row"
    for p t
    by (auto simp: sample_table_def dest!: in_set_takeD)
  from scanEntries_ex [OF this] obtain es where
    "ch_Search None id ''acme'' (query_params (\<lambda>_. None) (qr_get sample_query)) sample_table = Inr es"
    by (auto simp: ch_Search_def)
  then have "rs_status (query_ServeHTTP (\<lambda>_. None) (\<lambda>_. []) (Authenticate None sample_control)
      (\<lambda>t p. ch_Search None id t p sample_table) sample_query) = 200"
    using sample_key by (simp add: query_ServeHTTP_def with_tenant_def sample_query_def Let_def writeJSON_def api_key_def)
  then show ?thesis
    unfolding Let_def by (intro answer_holds_only_the_keys_rows [OF sample_control_run refl])
qed

end
