(* ===== verification/Control_Api.thy ===== *)
theory Control_Api
  imports Control Codec
begin

section \<open>The admin API (cmd/controlplane/main.go)\<close>

text \<open>
  The three handlers of the control plane over the tables of \<open>Control\<close>. The body of \<open>POST /tenants\<close> is
  read by a streaming decoder, which looks at the first JSON value only. \<open>format_time\<close> is the text
  of a \<open>timestamptz\<close> and \<open>quoted\<close> the \<open>%q\<close> format, both parameters.
\<close>

definition tenant_field :: "string \<Rightarrow> string option" where
  "tenant_field k = find (\<lambda>f. fold_name f = fold_name k) [''ID'', ''Name'']"

text \<open>The struct being filled, and whether a member had a wrong type.\<close>

definition store_tenant_member :: "string \<times> json \<Rightarrow> (string \<times> string) \<times> bool \<Rightarrow> (string \<times> string) \<times> bool" where
  "store_tenant_member m st =
     (case tenant_field (fst m) of
        None \<Rightarrow> st
      | Some f \<Rightarrow>
          (case snd m of
             JStr s \<Rightarrow> (if f = ''ID'' then (s, snd (fst st)) else (fst (fst st), s), snd st)
           | JNull \<Rightarrow> st
           | _ \<Rightarrow> (fst st, True)))"

definition decode_tenant :: "string \<Rightarrow> (string \<times> string) option" where
  "decode_tenant body =
     (let s = skip_ws body
      in case parse_value (Suc (2 * length s)) max_depth s of
           None \<Rightarrow> None
         | Some (v, _) \<Rightarrow>
             (case v of
                JObj ms \<Rightarrow>
                  (case fold store_tenant_member ms (([], []), False) of (t, bad) \<Rightarrow> if bad then None else Some t)
              | JNull \<Rightarrow> Some ([], [])
              | _ \<Rightarrow> None))"

definition post_tenants :: "write_ack \<Rightarrow> int \<Rightarrow> string \<Rightarrow> control_db \<Rightarrow> http_response \<times> control_db" where
  "post_tenants w now body db =
     (case decode_tenant body of
        None \<Rightarrow> (http_Error ''bad json'' 400, db)
      | Some (tid, name) \<Rightarrow>
          (case CreateTenant w now tid name db of
             (Some err, db) \<Rightarrow> (http_Error (error_text err) 400, db)
           | (None, db) \<Rightarrow> (writeJSON 201 (JObj [(''id'', JStr tid), (''name'', JStr name)]), db)))"

definition tenant_json :: "(int \<Rightarrow> string) \<Rightarrow> tenant \<Rightarrow> json" where
  "tenant_json format_time t =
     JObj [(''ID'', JStr (t_ID t)), (''Name'', JStr (t_Name t)), (''CreatedAt'', JStr (format_time (t_CreatedAt t)))]"

text \<open>A nil slice, which \<open>ListTenants\<close> returns when there is no tenant, is written \<open>null\<close>.\<close>

definition get_tenants :: "(int \<Rightarrow> string) \<Rightarrow> error option \<Rightarrow> control_db \<Rightarrow> http_response" where
  "get_tenants format_time fail db =
     (case ListTenants fail db of
        Inl err \<Rightarrow> http_Error (error_text err) 500
      | Inr ts \<Rightarrow> writeJSON 200 (if ts = [] then JNull else JArr (map (tenant_json format_time) ts)))"

definition post_keys ::
    "(string \<Rightarrow> string) \<Rightarrow> error option \<Rightarrow> error + bytes \<Rightarrow> write_ack \<Rightarrow> int \<Rightarrow> string \<Rightarrow> control_db \<Rightarrow>
      http_response \<times> control_db"
where
  "post_keys quoted fail rnd w now tid db =
     (case IssueAPIKey quoted fail rnd w now tid db of
        (Inl err, db) \<Rightarrow> (http_Error (error_text err) 400, db)
      | (Inr key, db) \<Rightarrow> (writeJSON 201 (JObj [(''api_key'', JStr key)]), db))"

subsection \<open>Properties\<close>

lemma find_append: "find P (xs @ ys) = (case find P xs of None \<Rightarrow> find P ys | Some x \<Rightarrow> Some x)"
  by (induction xs) auto

text \<open>A new row is found by its own hash, and hides no other.\<close>

lemma Authenticate_new_row:
  assumes "kr_key_hash row \<notin> set (map kr_key_hash (cd_keys db))" and "\<not> kr_revoked row"
  shows "Authenticate None (db\<lparr>cd_keys := cd_keys db @ [row]\<rparr>) key =
    (if hashKey key = kr_key_hash row then Inr (kr_tenant_id row) else Authenticate None db key)"
proof -
  have "find (\<lambda>r. kr_key_hash r = kr_key_hash row) (cd_keys db) = None"
    using assms(1) by (auto simp: find_None_iff image_iff)
  then show ?thesis
    using assms(2) by (auto simp: Authenticate_def find_append split: option.splits)
qed

lemma issued_key_authenticates:
  assumes "IssueAPIKey quoted fail (Inr raw) w now t db = (Inr key, db')"
  shows "key = api_key raw \<and> t \<in> set (map t_ID (cd_tenants db)) \<and> cd_tenants db' = cd_tenants db \<and>
    Authenticate None db' key = Inr t \<and>
    (\<forall>key'. hashKey key' \<noteq> hashKey key \<longrightarrow> Authenticate None db' key' = Authenticate None db key')"
  using assms
proof (cases rule: IssueAPIKey_cases)
  case stored
  then show ?thesis by (auto simp: Authenticate_new_row)
qed simp

text \<open>
  In cmd/controlplane/main.go, internal/control/control.go: the key that \<open>POST /tenants/{id}/keys\<close>
  answers with 201 opens exactly that tenant: the tenant exists, the key in the answer is the drawn
  one, it authenticates as the tenant from then on, and what every other key (one that hashes
  differently) opens is unchanged.
\<close>

theorem posted_key_opens_its_tenant:
  assumes "post_keys quoted fail (Inr raw) w now t db = (resp, db')" and "rs_status resp = 201"
  shows "resp = writeJSON 201 (JObj [(''api_key'', JStr (api_key raw))]) \<and>
    t \<in> set (map t_ID (cd_tenants db)) \<and> Authenticate None db' (api_key raw) = Inr t \<and>
    (if hashKey key' = hashKey (api_key raw) then True
     else Authenticate None db' key' = Authenticate None db key')"
proof -
  obtain out db1 where out: "IssueAPIKey quoted fail (Inr raw) w now t db = (out, db1)" by fastforce
  have "\<exists>key. out = Inr key"
    using assms out by (cases out) (auto simp: post_keys_def http_Error_def)
  then obtain key where key: "out = Inr key" ..
  then have "resp = writeJSON 201 (JObj [(''api_key'', JStr key)])" "db' = db1"
    using assms(1) out by (auto simp: post_keys_def)
  with issued_key_authenticates [OF out [unfolded key]] show ?thesis by auto
qed

theorem posted_key_opens_its_tenant_witness:
  "let db = snd (CreateTenant (Ack None) 1 ''acme'' ''Acme'' empty_control); raw = replicate 24 7
   in writeJSON 201 (JObj [(''api_key'', JStr (api_key raw))]) = writeJSON 201 (JObj [(''api_key'', JStr (api_key raw))]) \<and>
    ''acme'' \<in> set (map t_ID (cd_tenants db)) \<and> Authenticate None sample_control (api_key raw) = Inr ''acme'' \<and>
    (if hashKey ''other'' = hashKey (api_key raw) then True
     else Authenticate None sample_control ''other'' = Authenticate None db ''other'')"
  unfolding Let_def
proof (rule posted_key_opens_its_tenant [where quoted = id and fail = None and w = "Ack None" and now = 2])
  let ?db = "snd (CreateTenant (Ack None) 1 ''acme'' ''Acme'' empty_control)"
  have "fst (IssueAPIKey id None (Inr (replicate 24 7)) (Ack None) 2 ''acme'' ?db) = Inr (api_key (replicate 24 7))"
    by (simp add: IssueAPIKey_def CreateTenant_def pg_insert_def empty_control_def Let_def)
  then have "IssueAPIKey id None (Inr (replicate 24 7)) (Ack None) 2 ''acme'' ?db = (Inr (api_key (replicate 24 7)), sample_control)"
    by (simp add: sample_control_def prod_eq_iff)
  then show "post_keys id None (Inr (replicate 24 7)) (Ack None) 2 ''acme'' ?db =
      (writeJSON 201 (JObj [(''api_key'', JStr (api_key (replicate 24 7)))]), sample_control)"
    by (simp add: post_keys_def)
qed (simp add: writeJSON_def)

end
