(* ===== verification/Services.thy ===== *)
theory Services
  imports Serve_Mux Startup Verifier_Api Query_Api Control_Api
begin

section \<open>The services (cmd/*/main.go)\<close>

text \<open>
  The five HTTP services as they serve requests: their routes over the handlers of \<open>Gateway\<close>,
  \<open>Query_Api\<close>, \<open>Control_Api\<close> and \<open>Verifier_Api\<close>, and what the two background loops do and log at a
  tick. A fault of a handler ends its connection, one of a loop its process.
\<close>

subsection \<open>Routes\<close>

definition healthz :: http_response where
  "healthz = http_text ''ok''"

definition ingest_request_of :: "http_request \<Rightarrow> ingest_request" where
  "ingest_request_of r =
     \<lparr>rq_method = hr_method r, rq_key = hr_header r ''X-API-Key'', rq_source = hr_header r ''X-Source'',
      rq_body = hr_body r\<rparr>"

definition gateway_serve ::
    "(string \<Rightarrow> http_response) \<Rightarrow> (string \<Rightarrow> string option) \<Rightarrow> (string \<Rightarrow> (int \<times> int) option) \<Rightarrow> authenticator \<Rightarrow>
      (string \<Rightarrow> record_in list \<Rightarrow> 's \<Rightarrow> (error + entry list) \<times> 's) \<Rightarrow> i64 \<Rightarrow> http_request \<Rightarrow> 's \<Rightarrow>
      (fault + http_response) \<times> 's"
where
  "gateway_serve redirect float64 parse_3339 auth seal now r =
     mux_ServeHTTP redirect (\<lambda>resp s. (Inr resp, s))
       [\<lparr>rt_method = ''GET'', rt_pattern = [Lit ''healthz''], rt_handler = \<lambda>_ s. (Inr healthz, s)\<rparr>,
        \<lparr>rt_method = ''POST'', rt_pattern = [Lit ''ingest''],
         rt_handler = \<lambda>_. ingest_ServeHTTP float64 parse_3339 auth seal now (ingest_request_of r)\<rparr>] r"

definition query_request_of :: "http_request \<Rightarrow> query_request" where
  "query_request_of r = \<lparr>qr_method = hr_method r, qr_key = hr_header r ''X-API-Key'', qr_get = hr_query r\<rparr>"

definition queryproxy_serve ::
    "(string \<Rightarrow> http_response) \<Rightarrow> (string \<Rightarrow> (int \<times> int) option) \<Rightarrow> (int \<Rightarrow> string) \<Rightarrow> authenticator \<Rightarrow>
      (string \<Rightarrow> search_params \<Rightarrow> error + entry list) \<Rightarrow> http_request \<Rightarrow> http_response"
where
  "queryproxy_serve redirect parse_3339 format_ns auth search r =
     mux_ServeHTTP redirect id
       [\<lparr>rt_method = ''GET'', rt_pattern = [Lit ''healthz''], rt_handler = \<lambda>_. healthz\<rparr>,
        \<lparr>rt_method = ''GET'', rt_pattern = [Lit ''logs''],
         rt_handler = \<lambda>_. query_ServeHTTP parse_3339 format_ns auth search (query_request_of r)\<rparr>] r"

text \<open>
  What the streaming decoder of \<open>POST /tenants\<close> sees of a body whose reader ends with an error: a
  bare \<open>null\<close> is not known to be complete then.
\<close>

definition decoder_input :: "string \<times> error option \<Rightarrow> string" where
  "decoder_input body = (if snd body \<noteq> None \<and> skip_ws (fst body) = ''null'' then [] else fst body)"

text \<open>One call's luck at the servers: a read's failure, random bytes, a write's fate and the clock.\<close>

record control_env =
  ce_fail :: "error option"
  ce_rand :: "error + bytes"
  ce_write :: write_ack
  ce_now :: int

definition controlplane_serve ::
    "(string \<Rightarrow> http_response) \<Rightarrow> (int \<Rightarrow> string) \<Rightarrow> (string \<Rightarrow> string) \<Rightarrow> control_env \<Rightarrow> http_request \<Rightarrow>
      control_db \<Rightarrow> http_response \<times> control_db"
where
  "controlplane_serve redirect format_time quoted env r =
     mux_ServeHTTP redirect Pair
       [\<lparr>rt_method = ''GET'', rt_pattern = [Lit ''healthz''], rt_handler = \<lambda>_ db. (healthz, db)\<rparr>,
        \<lparr>rt_method = ''POST'', rt_pattern = [Lit ''tenants''],
         rt_handler = \<lambda>_. post_tenants (ce_write env) (ce_now env) (decoder_input (hr_body r))\<rparr>,
        \<lparr>rt_method = ''GET'', rt_pattern = [Lit ''tenants''],
         rt_handler = \<lambda>_ db. (get_tenants format_time (ce_fail env) db, db)\<rparr>,
        \<lparr>rt_method = ''POST'', rt_pattern = [Lit ''tenants'', Wild, Lit ''keys''],
         rt_handler = \<lambda>vals. post_keys quoted (ce_fail env) (ce_rand env) (ce_write env) (ce_now env) (hd vals)\<rparr>] r"

definition anchorer_serve ::
    "(string \<Rightarrow> http_response) \<Rightarrow> ('s \<Rightarrow> (nat \<times> failure option) \<times> 's) \<Rightarrow> http_request \<Rightarrow> 's \<Rightarrow> (fault + http_response) \<times> 's"
where
  "anchorer_serve redirect anchor_all r =
     mux_ServeHTTP redirect (\<lambda>resp s. (Inr resp, s))
       [\<lparr>rt_method = ''GET'', rt_pattern = [Lit ''healthz''], rt_handler = \<lambda>_ s. (Inr healthz, s)\<rparr>,
        \<lparr>rt_method = ''POST'', rt_pattern = [Lit ''anchor''], rt_handler = \<lambda>_ s. post_anchor (anchor_all s)\<rparr>] r"

definition verifier_serve ::
    "(string \<Rightarrow> http_response) \<Rightarrow> failure + report \<Rightarrow> (string \<Rightarrow> failure + report) \<Rightarrow> http_request \<Rightarrow> fault + http_response"
where
  "verifier_serve redirect run run_tenant r =
     mux_ServeHTTP redirect Inr
       [\<lparr>rt_method = ''GET'', rt_pattern = [Lit ''healthz''], rt_handler = \<lambda>_. Inr healthz\<rparr>,
        \<lparr>rt_method = ''GET'', rt_pattern = [Lit ''verify''],
         rt_handler = \<lambda>_. get_verify run run_tenant (hr_query r ''tenant'')\<rparr>] r"

subsection \<open>The background loops\<close>

text \<open>A tick of the anchorer and of the verifier, with the lines it logs.\<close>

definition runAnchor :: "(nat \<times> failure option) \<times> 's \<Rightarrow> (fault + string list) \<times> 's" where
  "runAnchor run =
     (case run of
        ((n, Some (Fault f)), st) \<Rightarrow> (Inl f, st)
      | ((n, Some (Failed err)), st) \<Rightarrow> (Inr [''anchor run error: '' @ error_text err], st)
      | ((n, None), st) \<Rightarrow> (Inr (if 0 < n then [''anchored '' @ dec n @ '' checkpoint(s)''] else []), st))"

definition verify_sweep :: "failure + report \<Rightarrow> fault + string list" where
  "verify_sweep run =
     (case run of
        Inl (Fault f) \<Rightarrow> Inl f
      | Inl (Failed err) \<Rightarrow> Inr [''verify sweep error: '' @ error_text err]
      | Inr rep \<Rightarrow>
          Inr (if report_OK rep
               then [''verify sweep OK: '' @ dec (EntriesChecked rep) @ '' entries, '' @ dec (CheckpointsSeen rep) @
                     '' checkpoints, '' @ dec (ProofsChecked rep) @ '' proofs'']
               else (''ALERT: verification failed with '' @ dec (length (Issues rep)) @ '' issue(s):'') #
                    map (\<lambda>iss. ''  - '' @ issue_String iss) (Issues rep)))"

subsection \<open>How a request is routed\<close>

lemmas route_simps = mux_ServeHTTP_def firstSegment_def pathUnescape_def cleanPath_def rooted_def starts_with_def Let_def

lemma gateway_ingest:
  assumes "hr_method r = ''POST''" and "hr_path r = ''/ingest''"
  shows "gateway_serve redirect float64 parse_3339 auth seal now r =
    ingest_ServeHTTP float64 parse_3339 auth seal now (ingest_request_of r)"
  using assms by (simp add: gateway_serve_def route_simps)

lemma verifier_verify:
  assumes "hr_method r = ''GET''" and "hr_path r = ''/verify''"
  shows "verifier_serve redirect run run_tenant r = get_verify run run_tenant (hr_query r ''tenant'')"
  using assms by (simp add: verifier_serve_def route_simps)

lemma anchorer_anchor:
  assumes "hr_method r = ''POST''" and "hr_path r = ''/anchor''"
  shows "anchorer_serve redirect anchor_all r = (\<lambda>s. post_anchor (anchor_all s))"
  using assms by (simp add: anchorer_serve_def route_simps)

subsection \<open>What a request can change\<close>

text \<open>What a request does to the control plane's tables.\<close>

lemma control_step_cases:
  assumes "controlplane_serve redirect format_time quoted env r db = (resp, db')"
  obtains (same) "db' = db"
  | (created) tid name res where "CreateTenant (ce_write env) (ce_now env) tid name db = (res, db')"
  | (issued) t raw res where "ce_rand env = Inr raw"
      "IssueAPIKey quoted (ce_fail env) (Inr raw) (ce_write env) (ce_now env) t db = (res, db')"
proof -
  consider (idle) "db' = db"
    | (tenants) body where "post_tenants (ce_write env) (ce_now env) body db = (resp, db')"
    | (keys) t where "post_keys quoted (ce_fail env) (ce_rand env) (ce_write env) (ce_now env) t db = (resp, db')"
    using assms unfolding controlplane_serve_def by (cases rule: mux_run_cases) auto
  then show thesis
  proof cases
    case idle
    then show thesis by (rule same)
  next
    case tenants
    then show thesis
      using same created by (auto simp: post_tenants_def split: option.splits prod.splits)
  next
    case keys
    then obtain res where issue: "IssueAPIKey quoted (ce_fail env) (ce_rand env) (ce_write env) (ce_now env) t db = (res, db')"
      by (auto simp: post_keys_def split: sum.splits prod.splits)
    show thesis
    proof (cases "ce_rand env")
      case (Inl err)
      with issue have "db' = db" by (auto simp: IssueAPIKey_def split: option.splits if_splits)
      then show thesis by (rule same)
    next
      case (Inr raw)
      with issue show thesis by (intro issued) simp_all
    qed
  qed
qed

definition random_ok :: "control_env \<Rightarrow> bool" where
  "random_ok env \<longleftrightarrow> (case ce_rand env of Inl _ \<Rightarrow> True | Inr raw \<Rightarrow> length raw = 24)"

lemma control_step_run:
  assumes "control_run quoted db keys" and "random_ok env"
    and "controlplane_serve redirect format_time quoted env r db = (resp, db')"
  shows "(\<exists>keys'. control_run quoted db' keys') \<and> set (map t_ID (cd_tenants db)) \<subseteq> set (map t_ID (cd_tenants db'))"
  using assms(3)
proof (cases rule: control_step_cases)
  case same
  with assms(1) show ?thesis by blast
next
  case (created tid name res)
  from control_create [OF assms(1) this] this show ?thesis
    by (auto simp: CreateTenant_def pg_insert_def split: if_splits write_ack.splits option.splits)
next
  case (issued t raw res)
  have "cd_tenants db' = cd_tenants db"
    using issued(2) by (cases rule: IssueAPIKey_cases) simp_all
  with control_issue [OF assms(1) _ issued(2)] issued(1) assms(2) show ?thesis by (auto simp: random_ok_def)
qed

lemma anchorer_serve_cases:
  assumes "anchorer_serve redirect run r s = (res, s')"
  shows "s' = s \<or> (\<exists>out. run s = (out, s'))"
  using assms unfolding anchorer_serve_def
  by (cases rule: mux_run_cases) (auto simp: post_anchor_def split: prod.splits option.splits failure.splits)

lemma runAnchor_state: "runAnchor run = (res, s') \<Longrightarrow> \<exists>out. run = (out, s')"
  by (auto simp: runAnchor_def split: prod.splits option.splits failure.splits)

subsection \<open>The types of the control plane's tables\<close>

text \<open>
  Every tenant has an id of its own and a name, every key row the hash of a key (64 hex digits, of
  its own), a prefix of twelve characters that starts with \<open>mlog_\<close>, and an existing tenant.
\<close>

definition tables_typed :: "control_db \<Rightarrow> bool" where
  "tables_typed db \<longleftrightarrow>
     distinct (map t_ID (cd_tenants db)) \<and>
     list_all (\<lambda>t. t_ID t \<noteq> [] \<and> t_Name t \<noteq> []) (cd_tenants db) \<and>
     distinct (map kr_key_hash (cd_keys db)) \<and>
     list_all (\<lambda>r. length (kr_key_hash r) = 64 \<and> length (kr_key_prefix r) = 12 \<and> take 5 (kr_key_prefix r) = ''mlog_'' \<and>
       kr_tenant_id r \<in> set (map t_ID (cd_tenants db))) (cd_keys db)"

lemma CreateTenant_typed:
  "tables_typed db \<Longrightarrow> CreateTenant w now tid name db = (r, db') \<Longrightarrow> tables_typed db'"
  by (auto simp: tables_typed_def CreateTenant_def pg_insert_def list_all_iff
      split: if_splits write_ack.splits option.splits)

lemma IssueAPIKey_typed:
  assumes "tables_typed db" and "length raw = 24" and "IssueAPIKey quoted fail (Inr raw) w now t db = (r, db')"
  shows "tables_typed db'"
  using assms(3)
proof (cases rule: IssueAPIKey_cases)
  case (unchanged err)
  with assms(1) show ?thesis by simp
next
  case stored
  moreover have "length (hashKey k) = 64" for k by (simp add: hashKey_def)
  moreover have "take 5 (take 12 (api_key raw)) = ''mlog_''" by (simp add: api_key_def)
  ultimately show ?thesis
    using assms(1) length_api_key [OF assms(2)] by (auto simp: tables_typed_def)
qed

lemma control_step_typed:
  assumes "tables_typed db" and "random_ok env"
    and "controlplane_serve redirect format_time quoted env r db = (resp, db')"
  shows "tables_typed db'"
  using assms(3)
proof (cases rule: control_step_cases)
  case (created tid name res)
  with assms(1) show ?thesis by (rule CreateTenant_typed)
next
  case (issued t raw res)
  with assms(2) have "length raw = 24" by (simp add: random_ok_def)
  then show ?thesis by (rule IssueAPIKey_typed [OF assms(1) _ issued(2)])
qed (use assms(1) in simp)

text \<open>The tables after a list of requests, each with its luck.\<close>

definition control_session ::
    "(string \<Rightarrow> http_response) \<Rightarrow> (int \<Rightarrow> string) \<Rightarrow> (string \<Rightarrow> string) \<Rightarrow> (control_env \<times> http_request) list \<Rightarrow> control_db"
where
  "control_session redirect format_time quoted calls =
     fold (\<lambda>(env, r) db. snd (controlplane_serve redirect format_time quoted env r db)) calls empty_control"

text \<open>
  C11 (cmd/controlplane/main.go, internal/control/control.go): the control plane's tables stay well
  typed. After any requests to the admin API, on any paths and with any bodies, with failing
  reads and writes that fail or whose fate is unknown, ids and key hashes are unique, no tenant
  lacks an id or a name, and every key row holds a 64 digit hash, a \<open>mlog_\<close> prefix and an existing
  tenant.
\<close>

theorem control_tables_stay_typed:
  assumes "list_all (\<lambda>(env, r). random_ok env) calls"
  shows "tables_typed (control_session redirect format_time quoted calls)"
proof -
  have "tables_typed db \<Longrightarrow>
      tables_typed (fold (\<lambda>(env, r) db. snd (controlplane_serve redirect format_time quoted env r db)) calls db)" for db
    using assms
  proof (induction calls arbitrary: db)
    case (Cons c calls)
    obtain env r where c: "c = (env, r)" by fastforce
    have "tables_typed (snd (controlplane_serve redirect format_time quoted env r db))"
      using control_step_typed [OF Cons.prems(1) _ prod.collapse [symmetric]] Cons.prems(2) by (simp add: c)
    with Cons c show ?case by simp
  qed simp
  then show ?thesis by (simp add: control_session_def tables_typed_def empty_control_def)
qed

definition http_call :: "string \<Rightarrow> string \<Rightarrow> string \<Rightarrow> string \<Rightarrow> http_request" where
  "http_call method path key body =
     \<lparr>hr_method = method, hr_path = path, hr_header = \<lambda>k. if k = ''X-API-Key'' then key else [],
      hr_query = \<lambda>_. [], hr_body = (body, None)\<rparr>"

definition sample_luck :: control_env where
  "sample_luck = \<lparr>ce_fail = None, ce_rand = Inr (replicate 24 7), ce_write = Ack None, ce_now = 1\<rparr>"

definition acme_json :: string where
  "acme_json = [CHR ''{'', dquote] @ ''ID'' @ [dquote, CHR '':'', dquote] @ ''acme'' @ [dquote, CHR '','', dquote] @
     ''Name'' @ [dquote, CHR '':'', dquote] @ ''Acme'' @ [dquote, CHR ''}'']"

theorem control_tables_stay_typed_witness:
  "tables_typed (control_session (\<lambda>_. http_Error [] 307) (\<lambda>_. []) id
     [(sample_luck, http_call ''POST'' ''/tenants'' [] acme_json),
      (sample_luck\<lparr>ce_write := Unacknowledged ErrEOF\<rparr>, http_call ''POST'' ''/tenants/acme/keys'' [] [])])"
  by (rule control_tables_stay_typed) (simp add: random_ok_def sample_luck_def)

subsection \<open>What a client reads of its logs\<close>

lemma view_printable: "printable d (view_json v) \<longleftrightarrow> 0 < d"
  by (simp add: view_json_def)

lemma logs_keys_read: "sanitize ''count'' = ''count''" "sanitize ''logs'' = ''logs''" "sanitize ''tenant'' = ''tenant''"
    "sanitize ''seq'' = ''seq''" "sanitize ''event_time'' = ''event_time''" "sanitize ''ingest_time'' = ''ingest_time''"
    "sanitize ''source'' = ''source''" "sanitize ''raw'' = ''raw''" "sanitize ''entry_hash'' = ''entry_hash''"
  by (intro sanitize_ascii; simp add: code_of_char)+

lemma hexShort_ascii: "sanitize (hexShort bs) = hexShort bs"
  unfolding hexShort_hex_encode by (rule sanitize_valid [OF valid_utf8_ascii [OF hex_encode_ascii]])

text \<open>A row as a client reads it: its number, its source and its line, their invalid UTF-8 replaced, and its hash.\<close>

definition row_read :: "json \<Rightarrow> entry \<Rightarrow> bool" where
  "row_read v e \<longleftrightarrow>
     obj_get v ''seq'' = Some (JNum (dec (unat (Seq e)))) \<and> obj_get v ''source'' = Some (JStr (sanitize (Source e))) \<and>
     obj_get v ''raw'' = Some (JStr (sanitize (Raw e))) \<and>
     obj_get v ''entry_hash'' = Some (JStr (hex_encode (EntryHash e)))"

lemma view_read: "row_read (as_read (view_json (log_view format_ns e))) e"
  by (simp add: row_read_def view_json_def log_view_def obj_get_def logs_keys_read hexShort_ascii hexShort_hex_encode
      del: sanitize.simps)

text \<open>
  C23 (internal/queryapi/handler.go): what the query API answers reads back. A client that parses an
  answer with status 200 finds as many rows as \<open>count\<close> says, the rows the search found, in order,
  each with its sequence number, source, line and hash; source and line come back byte by byte
  when they are valid UTF-8, and otherwise with the invalid bytes replaced.
\<close>

theorem logs_answer_reads_back:
  assumes "query_ServeHTTP parse_3339 format_ns auth search q = resp" and "rs_status resp = 200"
  shows "\<exists>t es vs. auth (qr_key q) = Inr t \<and> search t (query_params parse_3339 (qr_get q)) = Inr es \<and>
    json_parse (rs_body resp) =
      Some (JObj [(''count'', JNum (dec (length es))), (''logs'', JArr vs), (''tenant'', JStr (sanitize t))]) \<and>
    list_all2 row_read vs es"
proof -
  have get: "qr_method q = ''GET''"
    using assms by (auto simp: query_ServeHTTP_def split: if_splits)
  have "with_tenant auth (qr_key q) id (\<lambda>tenant.
      case search tenant (query_params parse_3339 (qr_get q)) of
        Inl err \<Rightarrow> http_Error (''query failed: '' @ error_text err) 500
      | Inr es \<Rightarrow>
          (let views = map (log_view format_ns) es
           in writeJSON 200 (JObj [(''count'', jnat (length views)), (''logs'', JArr (map view_json views)),
                (''tenant'', JStr tenant)]))) = resp"
    using assms(1) get by (simp add: query_ServeHTTP_def)
  then show ?thesis
  proof (cases rule: with_tenant_cases)
    case (refused msg status)
    with assms(2) show ?thesis by simp
  next
    case (tenant t)
    then obtain es where es: "search t (query_params parse_3339 (qr_get q)) = Inr es"
      and resp: "resp = writeJSON 200 (JObj [(''count'', jnat (length es)),
        (''logs'', JArr (map view_json (map (log_view format_ns) es))), (''tenant'', JStr t)])"
      using assms(2) by (auto simp: Let_def split: sum.splits)
    have "printable max_depth (JObj [(''count'', jnat (length es)),
        (''logs'', JArr (map view_json (map (log_view format_ns) es))), (''tenant'', JStr t)])"
      by (simp add: max_depth_def view_printable list_all_iff)
    from json_parse_writeJSON [OF this, of 200] have "json_parse (rs_body resp) =
        Some (JObj [(''count'', JNum (dec (length es))),
          (''logs'', JArr (map (as_read \<circ> view_json \<circ> log_view format_ns) es)), (''tenant'', JStr (sanitize t))])"
      unfolding resp by (simp add: logs_keys_read comp_assoc del: sanitize.simps)
    moreover have "list_all2 row_read (map (as_read \<circ> view_json \<circ> log_view format_ns) es) es"
      by (simp add: list_all2_conv_all_nth view_read)
    ultimately show ?thesis using tenant(1) es by blast
  qed
qed

definition hello_entry :: entry where
  "hello_entry = hd (ch_entries sample_table ''acme'')"

theorem logs_answer_reads_back_witness:
  "let resp = query_ServeHTTP (\<lambda>_. None) (\<lambda>_. []) (\<lambda>_. Inr ''acme'') (\<lambda>_ _. Inr [hello_entry]) sample_query
   in \<exists>t es vs. Inr ''acme'' = (Inr t :: error + string) \<and> Inr [hello_entry] = (Inr es :: error + entry list) \<and>
    json_parse (rs_body resp) =
      Some (JObj [(''count'', JNum (dec (length es))), (''logs'', JArr vs), (''tenant'', JStr (sanitize t))]) \<and>
    list_all2 row_read vs es"
  unfolding Let_def
  by (rule logs_answer_reads_back [OF refl])
    (simp add: query_ServeHTTP_def with_tenant_def sample_query_def api_key_def Let_def writeJSON_def)

end
