(* ===== verification/Deployment.thy ===== *)
theory Deployment
  imports Services
begin

section \<open>The whole deployment, over HTTP\<close>

text \<open>
  The processes together: a gateway, a control plane and an anchorer that share a Postgres, a
  ClickHouse and an S3 bucket, each changing its part in answer to any HTTP request or at a
  tick. What a client knows is the gateway's answers. The last theorem is the end-to-end
  promise: a client that adds up what it was told was accepted finds the same number in the
  verifier's answer.
\<close>

subsection \<open>States and steps\<close>

text \<open>
  What is fixed: the redirects of the mux, the parsing and formatting the handlers call, the
  anchorer's timestamp library, RIPEMD-160, environment, window size and WORM store, and the
  notaries the verifier trusts.
\<close>

record 'w site =
  si_redirect :: "string \<Rightarrow> http_response"
  si_float64 :: "string \<Rightarrow> string option"
  si_parse_3339 :: "string \<Rightarrow> (int \<times> int) option"
  si_quoted :: "string \<Rightarrow> string"
  si_format_time :: "int \<Rightarrow> string"
  si_lib :: tsa_lib
  si_rmd :: "bytes \<Rightarrow> bytes"
  si_env :: environ
  si_window :: int
  si_worm :: "'w s3_store"

record 'w plane =
  pl_control :: control_db
  pl_heads :: sealer_heads
  pl_logs :: ch_table
  pl_anchor :: anchor_db
  pl_bucket :: 'w
  pl_answers :: "http_response list"

definition answered :: "fault + http_response \<Rightarrow> http_response list" where
  "answered res = (case res of Inl _ \<Rightarrow> [] | Inr resp \<Rightarrow> [resp])"

text \<open>The three kinds of state change. Reads fail as they like; the log store accepts or refuses a write,
  and says which.\<close>

definition gateway_step ::
    "'w site \<Rightarrow> error option \<Rightarrow> error option \<Rightarrow> error option \<Rightarrow> i64 \<Rightarrow> http_request \<Rightarrow> 'w plane \<Rightarrow> 'w plane"
where
  "gateway_step si auth_fail head_fail append_fail now r s =
     (let (res, hm, tbl) = gateway_serve (si_redirect si) (si_float64 si) (si_parse_3339 si)
            (Authenticate auth_fail (pl_control s)) (SealBatch (ch_Head head_fail) (ch_Append (Ack append_fail)))
            now r (pl_heads s, pl_logs s)
      in s\<lparr>pl_heads := hm, pl_logs := tbl, pl_answers := pl_answers s @ answered res\<rparr>)"

definition control_step :: "'w site \<Rightarrow> control_env \<Rightarrow> http_request \<Rightarrow> 'w plane \<Rightarrow> 'w plane" where
  "control_step si env r s =
     s\<lparr>pl_control := snd (controlplane_serve (si_redirect si) (si_format_time si) (si_quoted si) env r (pl_control s))\<rparr>"

definition anchoring_run ::
    "'w site \<Rightarrow> error option \<Rightarrow> (string \<Rightarrow> anchor_env) \<Rightarrow> ch_table \<Rightarrow> anchor_db \<times> 'w \<Rightarrow>
      (nat \<times> failure option) \<times> anchor_db \<times> 'w"
where
  "anchoring_run si fail envs tbl = AnchorAll (s3_Put (si_worm si)) Marshal fail envs (si_window si) tbl"

definition anchor_request ::
    "'w site \<Rightarrow> error option \<Rightarrow> (string \<Rightarrow> anchor_env) \<Rightarrow> http_request \<Rightarrow> 'w plane \<Rightarrow> 'w plane"
where
  "anchor_request si fail envs r s =
     (let (res, db, w) = anchorer_serve (si_redirect si) (anchoring_run si fail envs (pl_logs s)) r (pl_anchor s, pl_bucket s)
      in s\<lparr>pl_anchor := db, pl_bucket := w\<rparr>)"

definition anchor_tick :: "'w site \<Rightarrow> error option \<Rightarrow> (string \<Rightarrow> anchor_env) \<Rightarrow> 'w plane \<Rightarrow> 'w plane" where
  "anchor_tick si fail envs s =
     (let (res, db, w) = runAnchor (anchoring_run si fail envs (pl_logs s) (pl_anchor s, pl_bucket s))
      in s\<lparr>pl_anchor := db, pl_bucket := w\<rparr>)"

definition empty_plane :: "'w \<Rightarrow> 'w plane" where
  "empty_plane w0 =
     \<lparr>pl_control = empty_control, pl_heads = [], pl_logs = [], pl_anchor = empty_db, pl_bucket = w0, pl_answers = []\<rparr>"

text \<open>
  Requests, ticks and restarts of the gateway in any order. Anchoring runs follow one another, and
  their environment keeps the two copies of a checkpoint together (\<open>deployed_env\<close>).
\<close>

inductive reachable :: "'w site \<Rightarrow> 'w \<Rightarrow> 'w plane \<Rightarrow> bool" for si w0 where
  reach_start: "reachable si w0 (empty_plane w0)"
| reach_gateway: "reachable si w0 s \<Longrightarrow> reachable si w0 (gateway_step si auth_fail head_fail append_fail now r s)"
| reach_control: "reachable si w0 s \<Longrightarrow> random_ok env \<Longrightarrow>
    reachable si w0 (control_step si env r s)"
| reach_anchor: "reachable si w0 s \<Longrightarrow> (\<And>t. deployed_env (si_lib si) (si_rmd si) (si_env si) (envs t)) \<Longrightarrow>
    reachable si w0 (anchor_request si fail envs r s)"
| reach_tick: "reachable si w0 s \<Longrightarrow> (\<And>t. deployed_env (si_lib si) (si_rmd si) (si_env si) (envs t)) \<Longrightarrow>
    reachable si w0 (anchor_tick si fail envs s)"
| reach_restart: "reachable si w0 s \<Longrightarrow> reachable si w0 (s\<lparr>pl_heads := []\<rparr>)"

subsection \<open>What a client reads\<close>

text \<open>The tenant and the count of an answer with status 200.\<close>

definition accepted_by :: "http_response \<Rightarrow> (string \<times> nat) option" where
  "accepted_by resp =
     (if rs_status resp \<noteq> 200 then None
      else case json_parse (rs_body resp) of
             None \<Rightarrow> None
           | Some v \<Rightarrow>
               (case (obj_get v ''tenant'', obj_get v ''accepted'') of
                  (Some (JStr t), Some (JNum l)) \<Rightarrow> Some (t, undec l)
                | _ \<Rightarrow> None))"

definition receipts :: "http_response list \<Rightarrow> (string \<times> nat) list" where
  "receipts resps = filter (\<lambda>(t, n). 0 < n) (List.map_filter accepted_by resps)"

definition accepted_total :: "http_response list \<Rightarrow> nat" where
  "accepted_total resps = sum_list (map snd (receipts resps))"

definition accepted_for :: "string \<Rightarrow> http_response list \<Rightarrow> nat" where
  "accepted_for t resps = sum_list (map snd (filter (\<lambda>(u, n). u = t) (receipts resps)))"

text \<open>The verifier of the deployment, in the current state, reading without failures.\<close>

definition plane_verify :: "'w site \<Rightarrow> notary list \<Rightarrow> http_request \<Rightarrow> 'w plane \<Rightarrow> fault + http_response" where
  "plane_verify si notaries r s =
     verifier_serve (si_redirect si)
       (Run None no_failure no_failure no_failure (pl_logs s) (pl_anchor s) (\<lambda>t. s3_All (si_worm si) t (pl_bucket s)) notaries)
       (RunTenant None None (pl_logs s) (pl_anchor s) (\<lambda>t. s3_All (si_worm si) t (pl_bucket s)) notaries) r"

subsection \<open>The invariant\<close>

lemma keys_read: "sanitize ''accepted'' = ''accepted''" "sanitize ''tenant'' = ''tenant''"
    "sanitize ''first_seq'' = ''first_seq''" "sanitize ''last_seq'' = ''last_seq''"
  by (intro sanitize_ascii; simp add: code_of_char)+

lemma accepted_by_writeJSON:
  assumes "printable max_depth v"
  shows "accepted_by (writeJSON 200 v) =
    (case (obj_get (as_read v) ''tenant'', obj_get (as_read v) ''accepted'') of
       (Some (JStr t), Some (JNum l)) \<Rightarrow> Some (t, undec l)
     | _ \<Rightarrow> None)"
proof -
  have "rs_status (writeJSON 200 v) = 200" by (simp add: writeJSON_def)
  then show ?thesis
    unfolding accepted_by_def json_parse_writeJSON [OF assms] by simp
qed

lemma accepted_by_zero:
  "accepted_by (writeJSON 200 (JObj [(''accepted'', jnat 0), (''tenant'', JStr t)])) = Some (sanitize t, 0)"
proof -
  have "printable max_depth (JObj [(''accepted'', jnat 0), (''tenant'', JStr t)])" by (simp add: max_depth_def)
  from accepted_by_writeJSON [OF this] show ?thesis
    by (simp add: keys_read obj_get_def del: One_nat_def sanitize.simps)
qed

lemma accepted_by_batch:
  "accepted_by (writeJSON 200 (JObj [(''accepted'', jnat n), (''first_seq'', jnat a), (''last_seq'', jnat b),
     (''tenant'', JStr t)])) = Some (sanitize t, n)"
proof -
  have "printable max_depth (JObj [(''accepted'', jnat n), (''first_seq'', jnat a), (''last_seq'', jnat b),
      (''tenant'', JStr t)])"
    by (simp add: max_depth_def)
  from accepted_by_writeJSON [OF this] show ?thesis
    by (simp add: keys_read obj_get_def del: sanitize.simps)
qed

lemma accepted_by_status: "rs_status resp \<noteq> 200 \<Longrightarrow> accepted_by resp = None"
  by (simp add: accepted_by_def)

lemma accepted_by_healthz: "accepted_by healthz = None"
proof -
  have "json_parse ''ok'' = None" by code_simp
  then show ?thesis by (simp add: accepted_by_def healthz_def http_text_def)
qed

lemma receipts_append: "receipts (xs @ ys) = receipts xs @ receipts ys"
  by (simp add: receipts_def List.map_filter_def)

definition empty_handed :: "http_response \<Rightarrow> bool" where
  "empty_handed resp \<longleftrightarrow> receipts [resp] = []"

lemma nothing_sealed_empty: "nothing_sealed resp \<Longrightarrow> empty_handed resp"
  by (auto simp: nothing_sealed_def empty_handed_def receipts_def List.map_filter_def accepted_by_status accepted_by_zero)

definition redirecting :: "'w site \<Rightarrow> bool" where
  "redirecting si \<longleftrightarrow> (\<forall>p. rs_status (si_redirect si p) \<noteq> 200)"

lemma gateway_serve_cases:
  assumes "gateway_serve redirect float64 parse_3339 auth seal now r s = (res, s')" and "\<And>p. rs_status (redirect p) \<noteq> 200"
  obtains (idle) resp where "res = Inr resp" "s' = s" "empty_handed resp"
  | (ingest) "ingest_ServeHTTP float64 parse_3339 auth seal now (ingest_request_of r) s = (res, s')"
  using assms(1) unfolding gateway_serve_def
proof (cases rule: mux_run_cases)
  case (own resp)
  then have "rs_status resp \<noteq> 200" using assms(2) by auto
  then have "empty_handed resp"
    by (simp add: empty_handed_def receipts_def List.map_filter_def accepted_by_status)
  with own show thesis by (intro idle [of resp]) simp_all
next
  case (routed rt vals)
  have "empty_handed healthz"
    by (simp add: empty_handed_def receipts_def List.map_filter_def accepted_by_healthz)
  with routed show thesis using idle [of healthz] ingest by auto
qed

lemma SealBatch_length:
  assumes "SealBatch get_head put_rows t recs (hm, s) = (Inr es, st')"
  shows "length es = length recs"
  using assms seal_records_spec
  by (auto simp: SealBatch_def Let_def split: sum.splits option.splits prod.splits)

definition receipt_of :: "string \<times> record_in list \<Rightarrow> string \<times> nat" where
  "receipt_of b = (sanitize (fst b), length (snd b))"

definition registered :: "control_db \<Rightarrow> string \<times> record_in list \<Rightarrow> bool" where
  "registered cdb b \<longleftrightarrow> snd b \<noteq> [] \<and> fst b \<in> set (map t_ID (cd_tenants cdb))"

lemma Authenticate_registered:
  assumes "control_run quoted cdb keys" and "Authenticate fail cdb key = Inr t"
  shows "t \<in> set (map t_ID (cd_tenants cdb))"
proof -
  obtain row where "row \<in> set (cd_keys cdb)" "kr_tenant_id row = t"
    using assms(2) by (auto simp: Authenticate_def split: option.splits if_splits dest!: find_mem)
  then show ?thesis
    using control_run_ok [OF assms(1)] by (auto simp: keys_ok_def list_all_iff)
qed

lemma gateway_serve_live:
  assumes ctl: "control_run quoted cdb keys" and live: "live_run put marshal ns w0 (hm, tbl, st) log"
    and "\<And>p. rs_status (redirect p) \<noteq> 200"
    and "gateway_serve redirect float64 parse_3339 (Authenticate auth_fail cdb)
      (SealBatch (ch_Head head_fail) (ch_Append (Ack append_fail))) now r (hm, tbl) = (res, hm', tbl')"
  shows "\<exists>bs. live_run put marshal ns w0 (hm', tbl', st) (log @ bs) \<and>
    receipts (answered res) = map receipt_of bs \<and> list_all (registered cdb) bs \<and>
    (bs = [] \<or> (\<exists>t recs. bs = [(t, recs)] \<and> request_records float64 parse_3339 now (ingest_request_of r) = Inr recs))"
  using assms(4,3)
proof (cases rule: gateway_serve_cases)
  case (idle resp)
  with live show ?thesis
    by (intro exI [of _ "[]"]) (simp add: answered_def empty_handed_def)
next
  case ingest
  then show ?thesis
  proof (cases rule: ServeHTTP_cases)
    case (idle resp)
    with live nothing_sealed_empty [of resp] show ?thesis
      by (intro exI [of _ "[]"]) (simp add: answered_def empty_handed_def)
  next
    case (batch t recs out)
    have live': "live_run put marshal ns w0 (hm', tbl', st) (case out of Inl _ \<Rightarrow> log | Inr _ \<Rightarrow> log @ [(t, recs)])"
      by (rule live_batch [OF live batch(4,5)])
    show ?thesis
    proof (cases out)
      case (Inl err)
      with live' batch(6) show ?thesis
        by (intro exI [of _ "[]"])
          (simp add: answered_def receipts_def List.map_filter_def accepted_by_status)
    next
      case (Inr es)
      have n: "length es = length recs"
        by (rule SealBatch_length [OF batch(5) [unfolded Inr]])
      then have "es \<noteq> []" using batch(3) by auto
      then have "receipts (answered res) = [(sanitize t, length recs)]"
        using batch(3,6) Inr ingest_ok_body_hd [of es t]
        by (simp add: answered_def receipts_def List.map_filter_def accepted_by_batch n)
      moreover have "registered cdb (t, recs)"
        using Authenticate_registered [OF ctl batch(1)] batch(3) by (simp add: registered_def)
      ultimately show ?thesis
        using live' Inr batch(2) by (intro exI [of _ "[(t, recs)]"]) (simp add: receipt_of_def)
    qed
  qed
qed

definition plane_inv :: "'w site \<Rightarrow> notary list \<Rightarrow> 'w \<Rightarrow> 'w plane \<Rightarrow> (string \<times> record_in list) list \<Rightarrow> bool" where
  "plane_inv si notaries w0 s log \<longleftrightarrow>
     (\<exists>keys. control_run (si_quoted si) (pl_control s) keys) \<and>
     live_run (s3_Put (si_worm si)) Marshal (by_name notaries) w0 (pl_heads s, pl_logs s, pl_anchor s, pl_bucket s) log \<and>
     receipts (pl_answers s) = map receipt_of log \<and> list_all (registered (pl_control s)) log"

lemma plane_inv_anchored:
  assumes "plane_inv si notaries w0 s log" and "\<And>t. safe_env (by_name notaries) (envs t)"
    and "(db, w) = (pl_anchor s, pl_bucket s) \<or>
      (\<exists>out. anchoring_run si fail envs (pl_logs s) (pl_anchor s, pl_bucket s) = (out, db, w))"
  shows "plane_inv si notaries w0 (s\<lparr>pl_anchor := db, pl_bucket := w\<rparr>) log"
  using assms(3)
proof
  assume "\<exists>out. anchoring_run si fail envs (pl_logs s) (pl_anchor s, pl_bucket s) = (out, db, w)"
  then obtain out where "AnchorAll (s3_Put (si_worm si)) Marshal fail envs (si_window si) (pl_logs s)
      (pl_anchor s, pl_bucket s) = (out, db, w)"
    by (auto simp: anchoring_run_def)
  from live_anchor_all [OF _ assms(2) this] assms(1) show ?thesis
    by (simp add: plane_inv_def)
qed (use assms(1) in \<open>simp add: plane_inv_def\<close>)

lemma plane_inv_gateway:
  assumes "plane_inv si notaries w0 s log" and "redirecting si"
  shows "\<exists>bs. plane_inv si notaries w0 (gateway_step si auth_fail head_fail append_fail now r s) (log @ bs)"
proof -
  obtain res hm tbl where serve: "gateway_serve (si_redirect si) (si_float64 si) (si_parse_3339 si)
      (Authenticate auth_fail (pl_control s)) (SealBatch (ch_Head head_fail) (ch_Append (Ack append_fail))) now r
      (pl_heads s, pl_logs s) = (res, hm, tbl)"
    by (metis prod_cases3)
  obtain keys where keys: "control_run (si_quoted si) (pl_control s) keys"
    using assms(1) by (auto simp: plane_inv_def)
  have live: "live_run (s3_Put (si_worm si)) Marshal (by_name notaries) w0
      (pl_heads s, pl_logs s, pl_anchor s, pl_bucket s) log"
    using assms(1) by (simp add: plane_inv_def)
  have redirect: "rs_status (si_redirect si p) \<noteq> 200" for p
    using assms(2) by (simp add: redirecting_def)
  obtain bs where bs: "live_run (s3_Put (si_worm si)) Marshal (by_name notaries) w0
      (hm, tbl, pl_anchor s, pl_bucket s) (log @ bs)"
      "receipts (answered res) = map receipt_of bs" "list_all (registered (pl_control s)) bs"
    using gateway_serve_live [OF keys live redirect serve] by blast
  then have "plane_inv si notaries w0 (gateway_step si auth_fail head_fail append_fail now r s) (log @ bs)"
    using assms(1) unfolding gateway_step_def serve by (simp add: plane_inv_def receipts_append)
  then show ?thesis ..
qed

lemma plane_inv_control:
  assumes "plane_inv si notaries w0 s log" and "random_ok env"
  shows "plane_inv si notaries w0 (control_step si env r s) log"
proof -
  obtain keys where keys: "control_run (si_quoted si) (pl_control s) keys"
    using assms(1) by (auto simp: plane_inv_def)
  obtain resp cdb where serve:
    "controlplane_serve (si_redirect si) (si_format_time si) (si_quoted si) env r (pl_control s) = (resp, cdb)"
    by fastforce
  note run = control_step_run [OF keys assms(2) serve]
  then have "registered cdb b" if "registered (pl_control s) b" for b
    using that by (auto simp: registered_def)
  then show ?thesis
    using assms(1) run by (simp add: control_step_def serve plane_inv_def list_all_iff)
qed

lemma reachable_inv:
  assumes "reachable si w0 s" and redirecting: "redirecting si"
    and notaries: "notaries = Notaries (si_lib si) (si_rmd si) http rand e" and settings: "same_notary_settings (si_env si) e"
  shows "\<exists>log. plane_inv si notaries w0 s log"
  using assms(1)
proof induction
  case reach_start
  show ?case
    using control_start live_start
    by (intro exI [of _ "[]"]) (auto simp: plane_inv_def empty_plane_def receipts_def List.map_filter_def)
next
  case (reach_gateway s auth_fail head_fail append_fail now r)
  then show ?case using plane_inv_gateway [OF _ redirecting] by blast
next
  case (reach_control s env r)
  then obtain log where "plane_inv si notaries w0 s log" by blast
  from plane_inv_control [OF this reach_control.hyps(2)] show ?case ..
next
  case (reach_anchor s envs fail r)
  obtain log where inv: "plane_inv si notaries w0 s log" using reach_anchor.IH ..
  obtain res db w where run: "anchorer_serve (si_redirect si) (anchoring_run si fail envs (pl_logs s)) r
      (pl_anchor s, pl_bucket s) = (res, db, w)"
    by (metis prod_cases3)
  have "safe_env (by_name notaries) (envs t)" for t
    unfolding notaries using deployed_env_safe [OF reach_anchor.hyps(2) settings] .
  from plane_inv_anchored [OF inv, where envs = envs and db = db and w = w and fail = fail, OF this] anchorer_serve_cases [OF run]
  have "plane_inv si notaries w0 (anchor_request si fail envs r s) log"
    unfolding anchor_request_def run by simp
  then show ?case ..
next
  case (reach_tick s envs fail)
  obtain log where inv: "plane_inv si notaries w0 s log" using reach_tick.IH ..
  obtain res db w where run: "runAnchor (anchoring_run si fail envs (pl_logs s) (pl_anchor s, pl_bucket s)) = (res, db, w)"
    by (metis prod_cases3)
  have "safe_env (by_name notaries) (envs t)" for t
    unfolding notaries using deployed_env_safe [OF reach_tick.hyps(2) settings] .
  from plane_inv_anchored [OF inv, where envs = envs and db = db and w = w and fail = fail, OF this] runAnchor_state [OF run]
  have "plane_inv si notaries w0 (anchor_tick si fail envs s) log"
    unfolding anchor_tick_def run by simp
  then show ?case ..
next
  case (reach_restart s)
  then obtain log where "plane_inv si notaries w0 s log" by blast
  then have "plane_inv si notaries w0 (s\<lparr>pl_heads := []\<rparr>) log"
    using live_restart by (auto simp: plane_inv_def)
  then show ?case ..
qed

subsection \<open>The promise\<close>

lemma sum_receipts: "sum_list (map snd (map receipt_of log)) = log_size log"
  by (simp add: log_size_def receipt_of_def comp_def case_prod_beta')

lemma sum_receipts_for:
  assumes "list_all (\<lambda>b. valid_utf8 (fst b)) log"
  shows "sum_list (map snd (filter (\<lambda>(u, n). u = t) (map receipt_of log))) = length (batch_lines t log)"
  using assms
  by (induction log) (auto simp: batch_lines_def receipt_of_def sanitize_valid)

lemma accepted_counts:
  assumes inv: "plane_inv si notaries w0 s log" and ids: "list_all (\<lambda>t. s3_ok (t_ID t)) (cd_tenants (pl_control s))"
  shows "accepted_total (pl_answers s) = log_size log" "accepted_for t (pl_answers s) = length (batch_lines t log)"
    "list_all (\<lambda>(u, recs). recs = [] \<or> s3_ok u) log"
proof -
  have reg: "s3_ok u" if "(u, recs) \<in> set log" for u recs
    using inv ids that by (fastforce simp: plane_inv_def list_all_iff registered_def)
  then show "list_all (\<lambda>(u, recs). recs = [] \<or> s3_ok u) log" by (auto simp: list_all_iff)
  have "list_all (\<lambda>b. valid_utf8 (fst b)) log"
    using reg by (fastforce simp: list_all_iff s3_ok_def)
  moreover have "receipts (pl_answers s) = map receipt_of log" using inv by (simp add: plane_inv_def)
  ultimately show "accepted_total (pl_answers s) = log_size log" "accepted_for t (pl_answers s) = length (batch_lines t log)"
    using sum_receipts sum_receipts_for by (simp_all add: accepted_total_def accepted_for_def)
qed

text \<open>The members of the verifier's answer, as a client reads them.\<close>

definition report_field :: "http_response \<Rightarrow> string \<Rightarrow> json option" where
  "report_field resp k = (case json_parse (rs_body resp) of None \<Rightarrow> None | Some v \<Rightarrow> obj_get v k)"

lemma report_keys_read: "sanitize ''checkpoints_seen'' = ''checkpoints_seen''" "sanitize ''entries_checked'' = ''entries_checked''"
    "sanitize ''issues'' = ''issues''" "sanitize ''ok'' = ''ok''" "sanitize ''proofs_checked'' = ''proofs_checked''"
  by (intro sanitize_ascii; simp add: code_of_char)+

lemma writeReport_read:
  assumes "report_OK rep"
  shows "rs_status (writeReport rep) = 200 \<and>
    report_field (writeReport rep) ''ok'' = Some (JBool True) \<and>
    report_field (writeReport rep) ''issues'' = Some (JArr []) \<and>
    report_field (writeReport rep) ''entries_checked'' = Some (JNum (dec (EntriesChecked rep)))"
proof -
  have "Issues rep = []" using assms by (simp add: report_OK_def)
  then have w: "writeReport rep = writeJSON 200 (JObj [(''checkpoints_seen'', jnat (CheckpointsSeen rep)),
      (''entries_checked'', jnat (EntriesChecked rep)), (''issues'', JArr []), (''ok'', JBool True),
      (''proofs_checked'', jnat (ProofsChecked rep))])" (is "_ = writeJSON 200 ?v")
    using assms by (simp add: writeReport_def)
  have "printable max_depth ?v" by (simp add: max_depth_def)
  note read = json_parse_writeJSON [OF this, of 200]
  have "rs_status (writeReport rep) = 200" by (simp add: w writeJSON_def)
  then show ?thesis
    unfolding report_field_def w read by (simp add: report_keys_read obj_get_def del: sanitize.simps)
qed

lemma deployment_verified:
  assumes store: "object_store (si_worm si) up objects" "up w0" "\<And>k. objects w0 k = None"
    and run: "reachable si w0 s" "redirecting si"
    and notaries: "notaries = Notaries (si_lib si) (si_rmd si) http rand e" "same_notary_settings (si_env si) e"
    and ids: "list_all (\<lambda>t. s3_ok (t_ID t)) (cd_tenants (pl_control s))"
    and size: "accepted_total (pl_answers s) \<le> 2 ^ 63" "\<And>t. accepted_for t (pl_answers s) \<le> 100000"
    and r: "hr_method r = ''GET''" "hr_path r = ''/verify''" "s3_ok (hr_query r ''tenant'')"
  shows "\<exists>resp. plane_verify si notaries r s = Inr resp \<and> rs_status resp = 200 \<and>
    report_field resp ''ok'' = Some (JBool True) \<and> report_field resp ''issues'' = Some (JArr []) \<and>
    report_field resp ''entries_checked'' =
      Some (JNum (dec (if hr_query r ''tenant'' = [] then accepted_total (pl_answers s)
                       else accepted_for (hr_query r ''tenant'') (pl_answers s))))"
proof -
  let ?t = "hr_query r ''tenant''"
  obtain log where inv: "plane_inv si notaries w0 s log"
    using reachable_inv [OF run notaries] by blast
  note total = accepted_counts(1) [OF inv ids] and per = accepted_counts(2) [OF inv ids]
  have "log_size log \<le> 2 ^ 63" "\<And>t. length (batch_lines t log) \<le> 100000"
    using size total per by simp_all
  then have both: "(\<exists>rep. Run None no_failure no_failure no_failure (pl_logs s) (pl_anchor s)
        (\<lambda>t. s3_All (si_worm si) t (pl_bucket s)) notaries = Inr rep \<and> report_OK rep \<and> EntriesChecked rep = log_size log) \<and>
      (\<exists>rep. RunTenant None None (pl_logs s) (pl_anchor s) (\<lambda>t. s3_All (si_worm si) t (pl_bucket s)) notaries ?t = Inr rep \<and>
        report_OK rep \<and> EntriesChecked rep = length (batch_lines ?t log) \<and>
        CheckpointsSeen rep = length (projr (s3_All (si_worm si) ?t (pl_bucket s))))"
    using inv r(3) accepted_counts(3) [OF inv ids]
    by (intro object_store.live_run_over_s3 [OF store, where hm = "pl_heads s"]) (simp_all add: plane_inv_def)
  then obtain rep where rep: "get_verify (Run None no_failure no_failure no_failure (pl_logs s) (pl_anchor s)
        (\<lambda>t. s3_All (si_worm si) t (pl_bucket s)) notaries)
      (RunTenant None None (pl_logs s) (pl_anchor s) (\<lambda>t. s3_All (si_worm si) t (pl_bucket s)) notaries) ?t =
        Inr (writeReport rep)"
      "report_OK rep" "EntriesChecked rep = (if ?t = [] then log_size log else length (batch_lines ?t log))"
    by (cases "?t = []") (auto simp: get_verify_def)
  then have "plane_verify si notaries r s = Inr (writeReport rep)"
    using r(1,2) by (simp add: plane_verify_def verifier_verify)
  with writeReport_read [OF rep(2)] rep(3) show ?thesis
    by (simp add: total per)
qed

text \<open>
  C1 (the five services of cmd/, over every other component): what was accepted is what is
  verified. Take any run of the deployment over S3: HTTP requests of any kind, ticks of the
  anchorer and gateway restarts, in which reads, notaries and proof inserts may fail, ClickHouse
  acknowledges or refuses each write, and the WORM store takes a checkpoint or fails without
  storing it. A client that reads the gateway's answers with status 200 and adds up their
  \<open>accepted\<close> counts finds the sum, in total or per tenant, in the field \<open>entries_checked\<close> of what
  \<open>GET /verify\<close> answers; that answer has status 200, \<open>ok\<close> true and no issue.

  This holds for tenant ids that are valid UTF-8 without a slash and of at most 986 bytes, at most
  100000 accepted lines a tenant and \<open>2^63\<close> in all; as long as \<open>PutCheckpoint\<close> succeeds after each
  WORM write, no write is applied without being acknowledged, anchoring runs do not overlap, S3
  behaves as documented (\<open>object_store\<close>), anchorer and verifier have the same notary settings, and
  the redirects of the mux are no 200s. Other properties show it fail beyond these bounds.
\<close>

theorem accepted_entries_are_verified:
  assumes "object_store (si_worm si) up objects" and "up w0" and "\<And>k. objects w0 k = None"
    and "reachable si w0 s" and "redirecting si"
    and "notaries = Notaries (si_lib si) (si_rmd si) http rand e" and "same_notary_settings (si_env si) e"
    and "list_all (\<lambda>t. s3_ok (t_ID t)) (cd_tenants (pl_control s))"
    and "accepted_total (pl_answers s) \<le> 2 ^ 63" and "\<And>t. accepted_for t (pl_answers s) \<le> 100000"
    and "hr_method r = ''GET''" and "hr_path r = ''/verify''" and "s3_ok (hr_query r ''tenant'')"
  shows "\<exists>resp. plane_verify si notaries r s = Inr resp \<and> rs_status resp = 200 \<and>
    report_field resp ''ok'' = Some (JBool True) \<and> report_field resp ''issues'' = Some (JArr []) \<and>
    report_field resp ''entries_checked'' =
      Some (JNum (dec (if hr_query r ''tenant'' = [] then accepted_total (pl_answers s)
                       else accepted_for (hr_query r ''tenant'') (pl_answers s))))"
  by (rule deployment_verified [OF assms])

definition sample_site :: "bucket site" where
  "sample_site =
     \<lparr>si_redirect = \<lambda>_. http_Error ''Temporary Redirect'' 307, si_float64 = \<lambda>_. None, si_parse_3339 = \<lambda>_. None,
      si_quoted = id, si_format_time = \<lambda>_. [], si_lib = echo_lib, si_rmd = id, si_env = sample_settings,
      si_window = 1000, si_worm = bucket_store\<rparr>"

abbreviation sample_key :: string where
  "sample_key \<equiv> api_key (replicate 24 7)"

definition keyed_plane :: "bucket plane" where
  "keyed_plane = control_step sample_site sample_luck (http_call ''POST'' ''/tenants/acme/keys'' [] [])
     (control_step sample_site sample_luck (http_call ''POST'' ''/tenants'' [] acme_json) (empty_plane empty_bucket))"

definition sealed_plane :: "bucket plane" where
  "sealed_plane = gateway_step sample_site None None None 5 (http_call ''POST'' ''/ingest'' sample_key ''hello'') keyed_plane"

definition sample_plane :: "bucket plane" where
  "sample_plane = anchor_tick sample_site None (\<lambda>_. deployed_anchor_env) sealed_plane"

lemma decode_acme: "decode_tenant (decoder_input (acme_json, None)) = Some (''acme'', ''Acme'')"
  by code_simp

lemma keyed_plane_control:
  "pl_control keyed_plane = \<lparr>cd_tenants = [\<lparr>t_ID = ''acme'', t_Name = ''Acme'', t_CreatedAt = 1\<rparr>],
     cd_keys = [\<lparr>kr_key_hash = hashKey sample_key, kr_key_prefix = take 12 sample_key, kr_tenant_id = ''acme'',
       kr_created_at = 1, kr_revoked = False\<rparr>]\<rparr>"
proof -
  have keys: "snd (controlplane_serve rd ft q env (http_call ''POST'' ''/tenants/acme/keys'' [] []) db) =
      snd (post_keys q (ce_fail env) (ce_rand env) (ce_write env) (ce_now env) ''acme'' db)" for rd ft q env db
    by (simp add: controlplane_serve_def http_call_def route_simps)
  have post: "snd (controlplane_serve rd ft q sample_luck (http_call ''POST'' ''/tenants'' [] acme_json) empty_control) =
      \<lparr>cd_tenants = [\<lparr>t_ID = ''acme'', t_Name = ''Acme'', t_CreatedAt = 1\<rparr>], cd_keys = []\<rparr>" for rd ft q
    by (simp add: controlplane_serve_def http_call_def route_simps post_tenants_def decode_acme)
      (simp add: CreateTenant_def pg_insert_def empty_control_def sample_luck_def)
  show ?thesis
    by (simp add: keyed_plane_def control_step_def keys post empty_plane_def)
      (simp add: post_keys_def IssueAPIKey_def pg_insert_def sample_luck_def Let_def)
qed

lemma seal_one:
  "\<exists>e prev. seal_records t 0 p [r] = ([e], 1, prev) \<and> TenantID e = t \<and> Source e = r_Source r \<and> Raw e = r_Raw r"
  by (simp add: Let_def)

lemma hello_object: "parseLogObjects (\<lambda>_. None) ''hello'' = Inr [JObj [(''message'', JStr ''hello'')]]"
proof -
  have "trim_space ''hello'' = ''hello''" by code_simp
  moreover have "unmarshal_map (\<lambda>_. None) ''hello'' = Inl (ErrText ''json: syntax error'')" by code_simp
  ultimately show ?thesis by (simp add: parseLogObjects_def Let_def starts_with_def line_limit_def)
qed

lemma hello_sealed:
  obtains e where "pl_logs sealed_plane = [to_row e]" "TenantID e = ''acme''" "entry_sized e"
    "receipts (pl_answers sealed_plane) = [(''acme'', 1)]"
proof -
  have body: "read_limited body_limit (''hello'', None) = Inr ''hello''" by (simp add: read_limited_def body_limit_def)
  have auth: "Authenticate None (pl_control keyed_plane) sample_key = Inr ''acme''"
    by (simp add: Authenticate_def keyed_plane_control)
  have key: "sample_key \<noteq> []" by (simp add: api_key_def)
  define rec where "rec = recordFromObject (\<lambda>_. None) (JObj [(''message'', JStr ''hello'')]) [] 5"
  have rec: "r_Raw rec = ''hello''" "r_Source rec = ''unknown''"
    by (simp_all add: rec_def recordFromObject_def Let_def obj_get_def strVal_def)
  have start: "pl_heads keyed_plane = []" "pl_logs keyed_plane = []" "pl_answers keyed_plane = []"
    by (simp_all add: keyed_plane_def control_step_def empty_plane_def)
  obtain e prev where e: "seal_records ''acme'' 0 (Genesis ''acme'') [rec] = ([e], 1, prev)" "TenantID e = ''acme''"
      "Source e = r_Source rec" "Raw e = r_Raw rec"
    using seal_one by blast
  obtain hm where seal: "SealBatch (ch_Head None) (ch_Append (Ack None)) ''acme'' [rec] ([], []) = (Inr [e], hm, [to_row e])"
    using e(1) by (simp add: SealBatch_def ch_Head_def ch_Append_def tenant_rows_def Let_def del: seal_records.simps)
  have "gateway_serve (si_redirect sample_site) (si_float64 sample_site) (si_parse_3339 sample_site)
      (Authenticate None (pl_control keyed_plane)) (SealBatch (ch_Head None) (ch_Append (Ack None))) 5
      (http_call ''POST'' ''/ingest'' sample_key ''hello'') ([], []) =
    (map_sum id (writeJSON 200) (ingest_ok_body ''acme'' [e]), hm, [to_row e])"
    using key by (simp add: gateway_ingest http_call_def sample_site_def ingest_ServeHTTP_def ingest_request_of_def
        with_tenant_def auth body hello_object seal ingest_ok_body_def flip: rec_def)
  then have step: "pl_logs sealed_plane = [to_row e]"
      "pl_answers sealed_plane = answered (map_sum id (writeJSON 200) (ingest_ok_body ''acme'' [e]))"
    by (simp_all add: sealed_plane_def gateway_step_def start)
  have "sanitize ''acme'' = ''acme''" by (intro sanitize_ascii) (simp add: code_of_char)
  then have "receipts (pl_answers sealed_plane) = [(''acme'', 1)]"
    unfolding step(2) by (simp add: answered_def ingest_ok_body_def receipts_def List.map_filter_def accepted_by_batch
        del: sanitize.simps One_nat_def)
  with e rec step(1) show thesis
    by (intro that [of e]) (simp_all add: entry_sized_def sized_def)
qed

lemma sample_plane_facts:
  "pl_control sample_plane = pl_control sealed_plane" "pl_logs sample_plane = pl_logs sealed_plane"
  "pl_answers sample_plane = pl_answers sealed_plane" "pl_control sealed_plane = pl_control keyed_plane"
  by (simp_all add: sample_plane_def anchor_tick_def sealed_plane_def gateway_step_def split: prod.split)

lemma sample_plane_reachable: "reachable sample_site empty_bucket sealed_plane" "reachable sample_site empty_bucket sample_plane"
  unfolding sample_plane_def sealed_plane_def keyed_plane_def
  by (intro reachable.intros; simp add: sample_site_def sample_luck_def random_ok_def deployed_anchor_env)+

lemma sample_plane_tenants: "list_all (\<lambda>t. s3_ok (t_ID t)) (cd_tenants (pl_control sample_plane))"
  by (simp add: sample_plane_facts keyed_plane_control s3_ok_acme)

lemma sample_plane_receipts: "receipts (pl_answers sample_plane) = [(''acme'', 1)]"
  using hello_sealed by (metis sample_plane_facts(3))

lemma sample_plane_total: "accepted_total (pl_answers sample_plane) = 1" "accepted_for t (pl_answers sample_plane) \<le> 1"
  by (simp_all add: accepted_total_def accepted_for_def sample_plane_receipts)

lemma sample_site_facts:
  "object_store (si_worm sample_site) bucket_up bucket_objects" "redirecting sample_site"
  "same_notary_settings (si_env sample_site) sample_settings"
  "Notaries echo_lib id http rand e = Notaries (si_lib sample_site) (si_rmd sample_site) http rand e"
  using bucket.object_store_axioms by (simp_all add: sample_site_def redirecting_def same_notary_settings_def)

theorem accepted_entries_are_verified_witness:
  "\<exists>resp. plane_verify sample_site (Notaries echo_lib id echo_http (Inr []) sample_settings)
      (http_call ''GET'' ''/verify'' [] []) sample_plane = Inr resp \<and> rs_status resp = 200 \<and>
    report_field resp ''ok'' = Some (JBool True) \<and> report_field resp ''issues'' = Some (JArr []) \<and>
    report_field resp ''entries_checked'' = Some (JNum (dec (accepted_total (pl_answers sample_plane))))"
proof -
  have small: "accepted_total (pl_answers sample_plane) \<le> 2 ^ 63" "accepted_for t (pl_answers sample_plane) \<le> 100000" for t
    using sample_plane_total(1) sample_plane_total(2) [of t] by simp_all
  have "s3_ok []" by (simp add: s3_ok_def)
  then show ?thesis
    using accepted_entries_are_verified [where r = "http_call ''GET'' ''/verify'' [] []" and http = echo_http and
        rand = "Inr []", OF sample_site_facts(1) empty_bucket sample_plane_reachable(2) sample_site_facts(2,4,3)
        sample_plane_tenants small]
    by (simp add: http_call_def)
qed

end
