(* ===== verification/Anchor_Progress.thy ===== *)
theory Anchor_Progress
  imports Deployment
begin

section \<open>What a tick of the anchorer protects\<close>

text \<open>
  Anchoring makes progress for every tenant at once: a run in which no call fails leaves no row of
  any tenant without a checkpoint, as long as no tenant has more rows than a run reads.
\<close>

definition all_anchored :: "string \<Rightarrow> entry list \<Rightarrow> error + checkpoint list \<Rightarrow> bool" where
  "all_anchored t es res \<longleftrightarrow> (\<exists>cps. res = Inr cps \<and> anchored t [] es cps \<and> covered cps = length es)"

text \<open>The row at which the last of these checkpoints ends.\<close>

lemma all_anchored_end:
  assumes "all_anchored t es res" and "intact t es" and "length es \<le> 2 ^ 64"
  obtains cps where "res = Inr cps" "(if cps = [] then 0 else unat (SeqEnd (last cps)) + 1) = length es"
proof -
  obtain cps where cps: "res = Inr cps" "anchored t [] es cps" "covered cps = length es"
    using assms(1) by (auto simp: all_anchored_def)
  with anchored_ends [of t "[]" es "[]" cps] assms(2,3) show thesis
    by (intro that [of cps]) (cases "cps = []"; simp)+
qed

context worm_store
begin

lemma AnchorTenant_anchors_all:
  assumes ok: "plane_ok ns tbl st" and safe: "safe_env ns env" and calm: "calm_env env"
    and doc: "\<And>cp. \<exists>doc. marshal cp = Inr doc" and t: "ok t" and small: "length (ch_entries tbl t) \<le> 100000"
    and run: "AnchorTenant put marshal env wm tbl t st = ((k, f), st')"
  shows "f = None \<and> all_anchored t (ch_entries tbl t) (all t (snd st')) \<and> (\<forall>u. u \<noteq> t \<longrightarrow> same_for u st st')"
proof -
  obtain cps where wf: "ch_wf tbl" "intact t (ch_entries tbl t)" and cps: "in_step ns (ch_entries tbl t) t cps st"
    using ok t by (auto simp: plane_ok_def)
  have f: "f = None"
    by (rule AnchorTenant_calm [OF wf(1) cps calm doc t run])
  have len: "length (ch_entries tbl t) \<le> 2 ^ 63" using small by simp
  from AnchorTenant_ok [OF wf len safe doc t cps run] f small show ?thesis
    by (auto simp: all_anchored_def in_step_def)
qed

lemma anchor_tenants_anchor_all:
  assumes safe: "\<And>t. safe_env ns (envs t)" and calm: "\<And>t. calm_env (envs t)"
    and doc: "\<And>cp. \<exists>doc. marshal cp = Inr doc" and small: "\<And>t. length (ch_entries tbl t) \<le> 100000"
    and tok: "\<And>t. ch_entries tbl t \<noteq> [] \<Longrightarrow> ok t"
  shows "plane_ok ns tbl st \<Longrightarrow> list_all ok ts \<Longrightarrow> anchor_tenants put marshal envs wm tbl ts tot st = ((k, f), st') \<Longrightarrow>
    f = None \<and> (\<forall>u. ok u \<and> (u \<in> set ts \<or> all_anchored u (ch_entries tbl u) (all u (snd st))) \<longrightarrow>
      all_anchored u (ch_entries tbl u) (all u (snd st')))"
proof (induction ts arbitrary: tot st)
  case (Cons t ts)
  obtain k1 f1 st1 where one: "AnchorTenant put marshal (envs t) wm tbl t st = ((k1, f1), st1)"
    by (metis surj_pair)
  have t: "ok t" using Cons.prems(2) by simp
  have len: "length (ch_entries tbl t) \<le> 2 ^ 63" for t
    using small [of t] by simp
  have ok1: "plane_ok ns tbl st1"
    by (rule AnchorTenant_plane [OF Cons.prems(1) safe doc len tok one])
  note step = AnchorTenant_anchors_all [OF Cons.prems(1) safe calm doc t small one]
  have "anchor_tenants put marshal envs wm tbl ts (tot + k1) st1 = ((k, f), st')"
    using Cons.prems(3) one step by simp
  from Cons.IH [OF ok1 _ this] Cons.prems(2) have rest: "f = None"
    "\<And>u. ok u \<Longrightarrow> u \<in> set ts \<or> all_anchored u (ch_entries tbl u) (all u (snd st1)) \<Longrightarrow>
      all_anchored u (ch_entries tbl u) (all u (snd st'))"
    by simp_all
  have "all_anchored u (ch_entries tbl u) (all u (snd st1))"
    if "ok u" "u = t \<or> all_anchored u (ch_entries tbl u) (all u (snd st))" for u
    using that step by (cases "u = t") (auto simp: same_for_def)
  with rest show ?case by auto
qed simp

lemma AnchorAll_anchors_all:
  assumes ok: "plane_ok ns tbl st" and safe: "\<And>t. safe_env ns (envs t)" and calm: "\<And>t. calm_env (envs t)"
    and doc: "\<And>cp. \<exists>doc. marshal cp = Inr doc" and small: "\<And>t. length (ch_entries tbl t) \<le> 100000"
    and tok: "\<And>t. ch_entries tbl t \<noteq> [] \<Longrightarrow> ok t" and t: "ok t"
    and run: "AnchorAll put marshal None envs wm tbl st = ((k, f), st')"
  shows "f = None \<and> all_anchored t (ch_entries tbl t) (all t (snd st'))"
proof -
  have rows: "ch_entries tbl u \<noteq> []" if "u \<in> set (map col_tenant_id tbl)" for u
  proof -
    have "tenant_rows tbl u \<noteq> []" using that by (auto simp: tenant_rows_def filter_empty_conv dest: arg_cong [of _ _ length])
    then show ?thesis using ok tenant_rows_wf [of tbl u] by (auto simp: plane_ok_def)
  qed
  have none: "all_anchored t (ch_entries tbl t) (all t (snd st))" if "t \<notin> set (map col_tenant_id tbl)"
  proof -
    have "tenant_rows tbl t = []" using that by (force simp: tenant_rows_def filter_empty_conv)
    then have "ch_entries tbl t = []" using ok tenant_rows_wf [of tbl t] by (simp add: plane_ok_def)
    with ok t show ?thesis by (auto simp: plane_ok_def in_step_def all_anchored_def anchored_nothing)
  qed
  have "anchor_tenants put marshal envs wm tbl (remdups (map col_tenant_id tbl)) 0 st = ((k, f), st')"
    using run by (simp add: AnchorAll_def ch_Tenants_def)
  moreover have "list_all ok (remdups (map col_tenant_id tbl))"
    using rows tok by (auto simp: list_all_iff)
  ultimately have "f = None \<and> (\<forall>u. ok u \<and> (u \<in> set (remdups (map col_tenant_id tbl)) \<or>
      all_anchored u (ch_entries tbl u) (all u (snd st))) \<longrightarrow> all_anchored u (ch_entries tbl u) (all u (snd st')))"
    by (intro anchor_tenants_anchor_all [OF safe calm doc small tok ok])
  with none t show ?thesis by (cases "t \<in> set (map col_tenant_id tbl)") simp_all
qed

end

context object_store
begin

lemma live_run_anchors_all:
  assumes "up w0" and "\<And>k. objects w0 k = None"
    and live: "live_run (s3_Put st) Marshal ns w0 (hm, tbl, db, w) log" and size: "log_size log \<le> 2 ^ 63"
    and small: "\<And>t. length (batch_lines t log) \<le> 100000"
    and ids: "list_all (\<lambda>(u, recs). recs = [] \<or> s3_ok u) log" and t: "s3_ok t"
    and envs: "\<And>t. safe_env ns (envs t)" "\<And>t. calm_env (envs t)"
    and run: "AnchorAll (s3_Put st) Marshal None envs wm tbl (db, w) = (out, db', w')"
  shows "\<exists>cps. s3_All st t w' = Inr cps \<and>
    (if cps = [] then 0 else unat (SeqEnd (last cps)) + 1) = length (batch_lines t log)"
proof -
  have ok: "s3.plane_ok ns tbl (db, w)"
    by (rule s3.live_run_ok [OF _ filed_start [OF assms(1,2)] All_start [OF assms(1,2)] live size ids])
      (simp_all add: Marshal_def)
  have lines: "length (ch_entries tbl u) = length (batch_lines u log)" for u
    using ingest_run_ok [OF live_run_ingest [OF live] size] by (metis length_map snd_conv)
  have doc: "\<exists>doc. Marshal cp = Inr doc" for cp by (simp add: Marshal_def)
  obtain k f where out: "out = (k, f)" by fastforce
  have anch: "all_anchored t (ch_entries tbl t) (s3_All st t (snd (db', w')))"
    using s3.AnchorAll_anchors_all [OF ok envs doc _ live_run_tenants [OF live size ids] t run [unfolded out]] small
    by (simp add: lines)
  have intact: "intact t (ch_entries tbl t)" using ok by (simp add: s3.plane_ok_def)
  have len: "length (ch_entries tbl t) \<le> 2 ^ 64" using small [of t] lines [of t] by simp
  obtain cps where "s3_All st t (snd (db', w')) = Inr cps"
      "(if cps = [] then 0 else unat (SeqEnd (last cps)) + 1) = length (ch_entries tbl t)"
    by (rule all_anchored_end [OF anch intact len])
  then show ?thesis by (simp add: lines)
qed

end

lemma anchoring_state:
  assumes "s' = anchor_tick si None envs s \<or>
      hr_method r = ''POST'' \<and> hr_path r = ''/anchor'' \<and> s' = anchor_request si None envs r s"
  shows "\<exists>out db. anchoring_run si None envs (pl_logs s) (pl_anchor s, pl_bucket s) = (out, db, pl_bucket s')"
proof -
  obtain out db w where run: "anchoring_run si None envs (pl_logs s) (pl_anchor s, pl_bucket s) = (out, db, w)"
    by (metis prod_cases3)
  have "snd (post_anchor (out, db, w)) = (db, w)" "snd (runAnchor (out, db, w)) = (db, w)"
    by (auto simp: post_anchor_def runAnchor_def split: prod.splits option.splits failure.splits)
  then have "pl_bucket s' = w"
    using assms by (auto simp: anchor_tick_def anchor_request_def anchorer_anchor run split: prod.splits)
  with run show ?thesis by blast
qed

lemma anchoring_reaches_accepted:
  assumes "object_store (si_worm si) up objects" and "up w0" and "\<And>k. objects w0 k = None"
    and "reachable si w0 s" and "redirecting si"
    and "list_all (\<lambda>t. s3_ok (t_ID t)) (cd_tenants (pl_control s))"
    and "accepted_total (pl_answers s) \<le> 2 ^ 63" and "\<And>t. accepted_for t (pl_answers s) \<le> 100000"
    and "\<And>t. deployed_env (si_lib si) (si_rmd si) (si_env si) (envs t)" and "\<And>t. calm_env (envs t)"
    and "s' = anchor_tick si None envs s \<or>
      hr_method r = ''POST'' \<and> hr_path r = ''/anchor'' \<and> s' = anchor_request si None envs r s"
    and "s3_ok t"
  shows "\<exists>cps. s3_All (si_worm si) t (pl_bucket s') = Inr cps \<and>
    (if cps = [] then 0 else unat (SeqEnd (last cps)) + 1) = accepted_for t (pl_answers s)"
proof -
  let ?ns = "Notaries (si_lib si) (si_rmd si) http rand (si_env si)"
  have same: "same_notary_settings (si_env si) (si_env si)" by (simp add: same_notary_settings_def)
  obtain log where inv: "plane_inv si ?ns w0 s log"
    using reachable_inv [OF assms(4,5) refl same] by blast
  note counts = accepted_counts [OF inv assms(6)]
  obtain out db where run: "AnchorAll (s3_Put (si_worm si)) Marshal None envs (si_window si) (pl_logs s)
      (pl_anchor s, pl_bucket s) = (out, db, pl_bucket s')"
    using anchoring_state [OF assms(11)] by (auto simp: anchoring_run_def)
  have live: "live_run (s3_Put (si_worm si)) Marshal (by_name ?ns) w0 (pl_heads s, pl_logs s, pl_anchor s, pl_bucket s) log"
    using inv by (simp add: plane_inv_def)
  have "safe_env (by_name ?ns) (envs t)" for t
    by (rule deployed_env_safe [OF assms(9) same])
  from object_store.live_run_anchors_all [OF assms(1-3) live _ _ counts(3) assms(12) this assms(10) run] assms(7,8)
  show ?thesis by (simp add: counts(1,2))
qed

text \<open>
  C3 (cmd/anchorer/main.go, the ticker and POST /anchor, over every other component): what was
  accepted gets anchored. Take a state the deployment reaches in which no tenant has more than 100000
  accepted lines, which is what one run reads. After one anchoring run in which no call fails, the
  checkpoints in the bucket of a tenant reach exactly as far as the lines that the gateway told its
  clients were accepted for it: the last one ends at the last of them, and there is none if there
  are no lines. Tenant ids are valid UTF-8 without a slash and of at most 986 bytes, at most \<open>2^63\<close>
  lines were accepted in all, and the runs before are those of \<open>reachable\<close>: \<open>PutCheckpoint\<close> succeeds
  after each WORM write, no write is applied without being acknowledged, and anchoring runs do not
  overlap.
\<close>

theorem anchoring_reaches_what_was_accepted:
  assumes "object_store (si_worm si) up objects" and "up w0" and "\<And>k. objects w0 k = None"
    and "reachable si w0 s" and "redirecting si"
    and "list_all (\<lambda>t. s3_ok (t_ID t)) (cd_tenants (pl_control s))"
    and "accepted_total (pl_answers s) \<le> 2 ^ 63" and "\<And>t. accepted_for t (pl_answers s) \<le> 100000"
    and "\<And>t. deployed_env (si_lib si) (si_rmd si) (si_env si) (envs t)" and "\<And>t. calm_env (envs t)"
    and "s' = anchor_tick si None envs s \<or>
      hr_method r = ''POST'' \<and> hr_path r = ''/anchor'' \<and> s' = anchor_request si None envs r s"
    and "s3_ok t"
  shows "\<exists>cps. s3_All (si_worm si) t (pl_bucket s') = Inr cps \<and>
    (if cps = [] then 0 else unat (SeqEnd (last cps)) + 1) = accepted_for t (pl_answers s)"
  by (rule anchoring_reaches_accepted [OF assms])

subsection \<open>Witness\<close>

lemma deployed_env_calm: "calm_env deployed_anchor_env"
  by (simp add: calm_env_def deployed_anchor_env_def sample_env_def Notaries_def sample_settings_def config_Env_def
      mock_iface_def mock_Stamp_def)

lemma sealed_plane_total: "accepted_total (pl_answers sealed_plane) = 1" "accepted_for t (pl_answers sealed_plane) \<le> 1"
    "accepted_for ''acme'' (pl_answers sealed_plane) = 1"
  using sample_plane_receipts by (simp_all add: sample_plane_facts accepted_total_def accepted_for_def)

lemma sealed_plane_tenants: "list_all (\<lambda>t. s3_ok (t_ID t)) (cd_tenants (pl_control sealed_plane))"
  using sample_plane_tenants by (simp add: sample_plane_facts)

lemma deployed_sample_env: "deployed_env (si_lib sample_site) (si_rmd sample_site) (si_env sample_site) deployed_anchor_env"
  using deployed_anchor_env by (simp add: sample_site_def)

theorem anchoring_reaches_what_was_accepted_witness:
  "\<exists>cps. s3_All (si_worm sample_site) ''acme''
      (pl_bucket (anchor_tick sample_site None (\<lambda>_. deployed_anchor_env) sealed_plane)) = Inr cps \<and>
    (if cps = [] then 0 else unat (SeqEnd (last cps)) + 1) = accepted_for ''acme'' (pl_answers sealed_plane) \<and>
    accepted_for ''acme'' (pl_answers sealed_plane) = 1"
proof -
  have small: "accepted_total (pl_answers sealed_plane) \<le> 2 ^ 63" "accepted_for t (pl_answers sealed_plane) \<le> 100000" for t
    using sealed_plane_total(1) sealed_plane_total(2) [of t] by simp_all
  show ?thesis
    using anchoring_reaches_what_was_accepted [OF sample_site_facts(1) empty_bucket sample_plane_reachable(1)
        sample_site_facts(2) sealed_plane_tenants small deployed_sample_env deployed_env_calm disjI1 [OF refl] s3_ok_acme]
      sealed_plane_total(3) by auto
qed

end
