(* ===== verification/Withheld_Proofs.thy ===== *)
theory Withheld_Proofs
  imports Verify_Live
begin

section \<open>A verification whose proofs are gone\<close>

text \<open>
  The proofs a verification checks are those the Postgres of the operator still holds. This theory
  compares a report with the report of the same data when the proof table has been emptied.
\<close>

text \<open>What a report says apart from proofs.\<close>

definition without_proofs :: "report \<Rightarrow> report" where
  "without_proofs r = r\<lparr>ProofsChecked := 0, Issues := filter (\<lambda>i. Kind i \<noteq> ''notary-mismatch'') (Issues r)\<rparr>"

lemma without_proofs_updates [simp]:
  "without_proofs (r\<lparr>EntriesChecked := n\<rparr>) = (without_proofs r)\<lparr>EntriesChecked := n\<rparr>"
  "without_proofs (r\<lparr>CheckpointsSeen := n\<rparr>) = (without_proofs r)\<lparr>CheckpointsSeen := n\<rparr>"
  "without_proofs (r\<lparr>ProofsChecked := n\<rparr>) = without_proofs r"
  "EntriesChecked (without_proofs r) = EntriesChecked r" "CheckpointsSeen (without_proofs r) = CheckpointsSeen r"
  "ProofsChecked (without_proofs r) = 0" "without_proofs empty_report = empty_report"
  by (simp_all add: without_proofs_def empty_report_def)

lemma without_proofs_add_issue:
  "without_proofs (add_issue i r) =
    (if Kind i = ''notary-mismatch'' then without_proofs r else add_issue i (without_proofs r))"
  by (simp add: without_proofs_def add_issue_def)

lemma without_proofs_OK: "report_OK r \<Longrightarrow> report_OK (without_proofs r)"
  by (simp add: report_OK_def without_proofs_def)

lemma chain_loop_without_proofs: "without_proofs (chain_loop t p w es r) = chain_loop t p w es (without_proofs r)"
proof (induction es arbitrary: p w r)
  case (Cons e es)
  show ?case by (simp add: Let_def Cons.IH without_proofs_add_issue)
qed simp

lemma verify_proofs_without: "verify_proofs ns t n cid ps r = Inr r' \<Longrightarrow> without_proofs r' = without_proofs r"
proof (induction ps arbitrary: r)
  case (Cons p ps)
  then show ?case
    by (auto simp: Let_def bind_res_eq_Inr without_proofs_add_issue split: option.splits dest!: Cons.IH)
qed simp

lemma verify_checkpoint_without:
  assumes "verify_checkpoint s l ns t prev cp r = Inr r'" and "\<And>n. ledger_Get t n l0 = []"
  shows "verify_checkpoint s l0 ns t prev cp (without_proofs r) = Inr (without_proofs r')"
proof (cases "store_Range s t (SeqStart cp) (SeqEnd cp)")
  case (Inr res)
  obtain es complete where range: "store_Range s t (SeqStart cp) (SeqEnd cp) = Inr (es, complete)"
    using Inr by (cases res) simp
  show ?thesis
  proof (cases "complete \<and> (\<exists>rebuilt. Build t es prev (AnchoredAt cp) = Inr rebuilt)")
    case True
    then obtain rebuilt where "complete" "Build t es prev (AnchoredAt cp) = Inr rebuilt" by blast
    with assms(1) show ?thesis
      by (simp add: verify_checkpoint_def range assms(2) Let_def without_proofs_add_issue verify_proofs_without
          split: if_splits)
  next
    case False
    with assms(1) show ?thesis
      by (cases "Build t es prev (AnchoredAt cp)")
        (auto simp: verify_checkpoint_def range Let_def without_proofs_add_issue split: if_splits)
  qed
qed (use assms(1) in \<open>simp add: verify_checkpoint_def Let_def\<close>)

lemma checkpoint_loop_without:
  assumes "\<And>n. ledger_Get t n l0 = []"
  shows "checkpoint_loop s l ns t prev cps r = Inr r' \<Longrightarrow>
    checkpoint_loop s l0 ns t prev cps (without_proofs r) = Inr (without_proofs r')"
  by (induction cps arbitrary: prev r)
    (auto simp: bind_res_eq_Inr dest: verify_checkpoint_without [OF _ assms])

lemma verifyCheckpoints_without:
  assumes "verifyCheckpoints s w l ns t r = Inr r'" and "\<And>n. ledger_Get t n l0 = []"
  shows "verifyCheckpoints s w l0 ns t (without_proofs r) = Inr (without_proofs r')"
  using assms(1) checkpoint_loop_without [OF assms(2)]
  by (auto simp: verifyCheckpoints_def without_proofs_add_issue split: sum.splits)

lemma verify_tenants_without:
  assumes "\<And>t n. ledger_Get t n l0 = []"
  shows "verify_tenants w l ns ts s r = Inr (r', s') \<Longrightarrow>
    verify_tenants w l0 ns ts s (without_proofs r) = Inr (without_proofs r', s')"
proof (induction ts arbitrary: s r)
  case (Cons t ts)
  obtain es s1 where s1: "store_Tenant t s = (es, s1)" by fastforce
  with Cons.prems obtain r2 where r2: "verifyCheckpoints s1 w l ns t (chain_loop t (Genesis t) 0 es r) = Inr r2"
      and rest: "verify_tenants w l ns ts s1 r2 = Inr (r', s')"
    by (auto simp: bind_res_eq_Inr verifyChain_def)
  show ?case
    using verifyCheckpoints_without [OF r2 assms] Cons.IH [OF rest]
    by (simp add: verifyChain_def s1 chain_loop_without_proofs)
qed simp

lemma Verify_without:
  assumes "Verify s w l notaries = Inr (r, s')" and "\<And>t n. ledger_Get t n l0 = []"
  shows "Verify s w l0 notaries = Inr (without_proofs r, s')"
  using verify_tenants_without [OF assms(2)] assms(1) unfolding Verify_def by fastforce

lemma load_plane_without:
  "load_plane f fl logs db ts s l = Inr (s', l') \<Longrightarrow>
    load_plane f fl logs (db\<lparr>checkpoint_proofs := []\<rparr>) ts s l0 = Inr (s', l0)"
  by (induction ts arbitrary: s l) (auto simp: bind_res_eq_Inr LoadLedger_def split: option.splits)

lemma verifyTenants_without:
  assumes "verifyTenants f fl logs db w notaries ts = Inr r"
  shows "verifyTenants f fl logs (db\<lparr>checkpoint_proofs := []\<rparr>) w notaries ts = Inr (without_proofs r)"
proof -
  obtain s l s' where load: "load_plane f fl logs db ts NewStore NewProofLedger = Inr (s, l)"
    and run: "Verify s w l notaries = Inr (r, s')"
    using assms by (auto simp: verifyTenants_def split: sum.splits)
  have "ledger_Get t n NewProofLedger = []" for t n by (simp add: ledger_Get_def NewProofLedger_def)
  from Verify_without [OF run this] load_plane_without [OF load] show ?thesis
    by (simp add: verifyTenants_def)
qed

lemma RunTenant_without:
  "RunTenant f fl logs db w notaries t = Inr r \<Longrightarrow>
    RunTenant f fl logs (db\<lparr>checkpoint_proofs := []\<rparr>) w notaries t = Inr (without_proofs r)"
  by (simp add: RunTenant_def verifyTenants_without)

text \<open>
  C33 (internal/verifylive/verifylive.go, Run and RunTenant, over internal/verify): proofs that are
  withheld are not missed. Delete every proof from Postgres, whatever else the databases, the WORM
  store and the notaries hold: the verification, in total or of a tenant, reports the same
  entries, checkpoints and issues as before, apart from the complaints of notaries, which it can
  no longer have. So a history whose only flaw is that no notary ever attested it is reported clean.
\<close>

theorem withheld_proofs_are_not_missed:
  "(case Run fail_tenants fail_load fail fail_ledger logs db worm_All notaries of
      Inl _ \<Rightarrow> True
    | Inr r \<Rightarrow> Run fail_tenants fail_load fail fail_ledger logs (db\<lparr>checkpoint_proofs := []\<rparr>) worm_All notaries =
        Inr (without_proofs r)) \<and>
   (case RunTenant fail_rows fail_proofs logs db worm_All notaries t of
      Inl _ \<Rightarrow> True
    | Inr r \<Rightarrow> RunTenant fail_rows fail_proofs logs (db\<lparr>checkpoint_proofs := []\<rparr>) worm_All notaries t =
        Inr (without_proofs r))"
  by (auto simp: Run_def RunTenant_without verifyTenants_without split: sum.splits)

end
