(* ===== verification/Tamper_Evidence.thy ===== *)
theory Tamper_Evidence
  imports Anchor_Progress Withheld_Proofs
begin

section \<open>What an answer of the verifier is worth\<close>

text \<open>
  The adversary of the system owns its databases: ClickHouse and Postgres hold whatever it likes,
  while the S3 bucket is append-only. If the verifier still answers 200, the rows that were
  anchored are the rows that were sealed. The statement is about the HTTP answer, in any state the
  deployment reaches.
\<close>

text \<open>Every anchored checkpoint was built over a window of the chain, on \<open>prev\<close> or on the one before.\<close>

lemma anchored_member:
  assumes "intact t (pre @ es)" and "length (pre @ es) \<le> 2 ^ 63" and "anchored t prev es cps" and "cp \<in> set cps"
  shows "\<exists>a b prev'. a \<le> b \<and> b < length (pre @ es) \<and> Build t (window (pre @ es) a b) prev' (AnchoredAt cp) = Inr cp \<and>
    unat (SeqEnd cp) = b \<and> prev' \<in> insert prev (CheckpointID ` set cps)"
  using assms
proof (induction cps arbitrary: pre es prev)
  case (Cons c cps)
  let ?n = "unat (EntryCount c)" and ?all = "pre @ es" and ?p = "length pre"
  have c: "Build t (take ?n es) prev (AnchoredAt c) = Inr c" and n: "?n \<le> length es"
    and rest: "anchored t (CheckpointID c) (drop ?n es) cps"
    using Cons.prems(3) by (simp_all add: Let_def)
  have "0 < ?n" using Build_fields(1) [OF c] by auto
  have split: "?all = (pre @ take ?n es) @ drop ?n es" by simp
  show ?case
  proof (cases "cp = c")
    case True
    have "window ?all ?p (?p + ?n - 1) = take ?n es"
      using \<open>0 < ?n\<close> by (simp add: window_def)
    moreover have "unat (SeqEnd c) + 1 = ?p + ?n"
      using anchored_ends [of t pre es prev "[c]"] Cons.prems(1,2) c n by simp
    ultimately show ?thesis
      using True c n \<open>0 < ?n\<close> by (intro exI [of _ ?p] exI [of _ "?p + ?n - 1"] exI [of _ prev]) auto
  next
    case False
    have "intact t ((pre @ take ?n es) @ drop ?n es)" "length ((pre @ take ?n es) @ drop ?n es) \<le> 2 ^ 63"
      using Cons.prems(1,2) unfolding split [symmetric] .
    from Cons.IH [OF this rest] False Cons.prems(4) show ?thesis
      unfolding split [symmetric] by fastforce
  qed
qed simp

lemma anchored_ids: "anchored t prev es cps \<Longrightarrow> list_all (\<lambda>c. length (CheckpointID c) = 32) cps"
  by (induction cps arbitrary: prev es) (auto simp: Let_def dest: Build_fields(11))

context object_store
begin

lemma live_run_anchored:
  assumes "up w0" and "\<And>k. objects w0 k = None"
    and "live_run (s3_Put st) Marshal ns w0 (hm, tbl, db, w) log" and "log_size log \<le> 2 ^ 63"
    and "list_all (\<lambda>(u, recs). recs = [] \<or> s3_ok u) log" and "s3_ok t"
  shows "intact t (ch_entries tbl t) \<and> (\<exists>cps. s3_All st t w = Inr cps \<and> anchored t [] (ch_entries tbl t) cps)"
proof -
  have "s3.plane_ok ns tbl (db, w)"
    by (rule s3.live_run_ok [OF _ filed_start [OF assms(1,2)] All_start [OF assms(1,2)] assms(3-5)])
      (simp_all add: Marshal_def)
  then show ?thesis
    using assms(6) by (auto simp: s3.plane_ok_def s3.in_step_def)
qed

end

text \<open>The rows of a tenant are no more than what the clients were told.\<close>

lemma reached_anchored:
  assumes store: "object_store (si_worm si) up objects" "up w0" "\<And>k. objects w0 k = None"
    and inv: "plane_inv si notaries w0 s log"
    and ids: "list_all (\<lambda>t. s3_ok (t_ID t)) (cd_tenants (pl_control s))"
    and size: "accepted_total (pl_answers s) < 2 ^ 63" and t: "s3_ok t"
  shows "intact t (ch_entries (pl_logs s) t) \<and> sized (ch_entries (pl_logs s) t) \<and>
    (\<exists>cps. s3_All (si_worm si) t (pl_bucket s) = Inr cps \<and> anchored t [] (ch_entries (pl_logs s) t) cps)"
proof -
  have live: "live_run (s3_Put (si_worm si)) Marshal (by_name notaries) w0
      (pl_heads s, pl_logs s, pl_anchor s, pl_bucket s) log"
    using inv by (simp add: plane_inv_def)
  have total: "log_size log < 2 ^ 63"
    using size accepted_counts(1) [OF inv ids] by simp
  note run = object_store.live_run_anchored [OF store live less_imp_le [OF total] accepted_counts(3) [OF inv ids] t]
  have "length (ch_entries (pl_logs s) t) \<le> log_size log"
    by (rule ingest_run_length [OF live_run_ingest [OF live] less_imp_le [OF total]])
  with run total show ?thesis by (simp add: sized_def)
qed

lemma plane_verify_200:
  assumes "hr_method r = ''GET''" and "hr_path r = ''/verify''" and "hr_query r ''tenant'' = t" and "t \<noteq> []"
  shows "(\<exists>resp. plane_verify si verifiers r s = Inr resp \<and> rs_status resp = 200) \<longleftrightarrow>
    (\<exists>rep. RunTenant None None (pl_logs s) (pl_anchor s) (\<lambda>t. s3_All (si_worm si) t (pl_bucket s)) verifiers t = Inr rep \<and>
      report_OK rep)"
  using assms
  by (auto simp: plane_verify_def verifier_verify get_verify_def writeReport_status split: sum.splits failure.splits)

lemma clean_answer_unaltered:
  assumes store: "object_store (si_worm si) up objects" "up w0" "\<And>k. objects w0 k = None"
    and run: "reachable si w0 s" "redirecting si"
    and notaries: "notaries = Notaries (si_lib si) (si_rmd si) http rand e" "same_notary_settings (si_env si) e"
    and ids: "list_all (\<lambda>t. s3_ok (t_ID t)) (cd_tenants (pl_control s))"
    and size: "accepted_total (pl_answers s) < 2 ^ 63"
    and r: "hr_method r = ''GET''" "hr_path r = ''/verify''" "hr_query r ''tenant'' = t" "t \<noteq> []" "s3_ok t"
    and answer: "plane_verify si verifiers r (s\<lparr>pl_logs := logs, pl_anchor := db\<rparr>) = Inr resp" "rs_status resp = 200"
    and rows: "seen logs t = Inr st" "st \<noteq> []"
    and worm: "s3_All (si_worm si) t (pl_bucket s) = Inr cps" "cp \<in> set cps"
    and sizes: "list_all entry_sized st" "list_all entry_sized (ch_entries (pl_logs s) t)"
  defines "n \<equiv> unat (SeqEnd cp)" and "es \<equiv> ch_entries (pl_logs s) t" and "ids \<equiv> insert [] (CheckpointID ` set cps)"
  shows "map content (take (Suc n) st) = map content (take (Suc n) es) \<or>
    (\<exists>a\<le>n. \<exists>prev\<in>ids. \<exists>prev'\<in>ids.
      collides (replay_inputs t st a n prev' (AnchoredAt cp)) (replay_inputs t es a n prev (AnchoredAt cp)))"
proof -
  obtain log where inv: "plane_inv si notaries w0 s log"
    using reachable_inv [OF run notaries] by blast
  have es: "intact t es" "sized es" "anchored t [] es cps"
    using reached_anchored [OF store inv ids size r(5)] worm(1) by (auto simp: es_def)
  obtain a prev where w: "a \<le> n" "n < length es" "Build t (window es a n) prev (AnchoredAt cp) = Inr cp" "prev \<in> ids"
    using anchored_member [of t "[]" es "[]" cps cp] es worm(2) by (auto simp: n_def ids_def sized_def)
  have cps: "list_all (\<lambda>c. sized (CheckpointID c)) cps"
    using anchored_ids [OF es(3)] by (simp add: list_all_iff sized_def)
  then have "sized prev"
    using w(4) by (auto simp: ids_def list_all_iff sized_def)
  moreover have "sized t" using r(5) by (simp add: s3_ok_def sized_def)
  moreover obtain rep where "RunTenant None None logs db (\<lambda>t. s3_All (si_worm si) t (pl_bucket s)) verifiers t = Inr rep"
      "report_OK rep"
    using plane_verify_200 [OF r(1-4), of si verifiers "s\<lparr>pl_logs := logs, pl_anchor := db\<rparr>"] answer by auto
  ultimately show ?thesis
    using clean_RunTenant_unaltered [where worm_All = "\<lambda>t. s3_All (si_worm si) t (pl_bucket s)" and es = es and a = a and
        b = n and prev = prev and at = "AnchoredAt cp" and cp = cp, OF _ _ rows worm es(1) w(1-3) _ es(2)] w(1,4) sizes cps
    unfolding es_def [symmetric] ids_def [symmetric] by blast
qed

text \<open>
  C2 (cmd/verifier/main.go, GET /verify?tenant=t, over every other component): what the answer 200
  proves. Take any state that the deployment reaches over S3. Then let somebody replace all of
  ClickHouse and all of Postgres, leaving the bucket. If the verifier, with whatever notaries it
  trusts, still answers 200 for a tenant that has a row left, then up to the last row of every
  checkpoint in the bucket the rows it read carry the timestamps, sources and lines that were
  sealed, or the two replays exhibit a SHA-256 collision. (Tenant ids are valid UTF-8 without a slash
  and of at most 986 bytes; fewer than \<open>2^63\<close> lines were accepted, and none is as long as that.)
\<close>

theorem answer_200_proves_rows_unaltered:
  assumes "object_store (si_worm si) up objects" and "up w0" and "\<And>k. objects w0 k = None"
    and "reachable si w0 s" and "redirecting si"
    and "list_all (\<lambda>t. s3_ok (t_ID t)) (cd_tenants (pl_control s))"
    and "accepted_total (pl_answers s) < 2 ^ 63"
    and "hr_method r = ''GET''" and "hr_path r = ''/verify''" and "hr_query r ''tenant'' = t" and "t \<noteq> []" and "s3_ok t"
    and "plane_verify si verifiers r (s\<lparr>pl_logs := logs, pl_anchor := db\<rparr>) = Inr resp" and "rs_status resp = 200"
    and "seen logs t = Inr st" and "st \<noteq> []"
    and "s3_All (si_worm si) t (pl_bucket s) = Inr cps" and "cp \<in> set cps"
    and "list_all entry_sized st" and "list_all entry_sized (ch_entries (pl_logs s) t)"
  shows "map content (take (Suc (unat (SeqEnd cp))) st) =
      map content (take (Suc (unat (SeqEnd cp))) (ch_entries (pl_logs s) t)) \<or>
    (\<exists>a\<le>unat (SeqEnd cp). \<exists>prev\<in>insert [] (CheckpointID ` set cps). \<exists>prev'\<in>insert [] (CheckpointID ` set cps).
      collides (replay_inputs t st a (unat (SeqEnd cp)) prev' (AnchoredAt cp))
        (replay_inputs t (ch_entries (pl_logs s) t) a (unat (SeqEnd cp)) prev (AnchoredAt cp)))"
proof -
  have "same_notary_settings (si_env si) (si_env si)" by (simp add: same_notary_settings_def)
  from clean_answer_unaltered [OF assms(1-5) refl this assms(6-20)] show ?thesis .
qed

subsection \<open>Witness\<close>

lemma sample_plane_anchored:
  obtains cps where "s3_All (si_worm sample_site) ''acme'' (pl_bucket sample_plane) = Inr cps" "cps \<noteq> []"
proof -
  have small: "accepted_total (pl_answers sealed_plane) \<le> 2 ^ 63" "accepted_for t (pl_answers sealed_plane) \<le> 100000" for t
    using sealed_plane_total(1) sealed_plane_total(2) [of t] by simp_all
  have "sample_plane = anchor_tick sample_site None (\<lambda>_. deployed_anchor_env) sealed_plane"
    by (simp add: sample_plane_def)
  from anchoring_reaches_accepted [OF sample_site_facts(1) empty_bucket sample_plane_reachable(1)
      sample_site_facts(2) sealed_plane_tenants small deployed_sample_env deployed_env_calm disjI1 [OF this] s3_ok_acme]
  obtain cps where "s3_All (si_worm sample_site) ''acme'' (pl_bucket sample_plane) = Inr cps"
      "(if cps = [] then 0 else unat (SeqEnd (last cps)) + 1) = (1 :: nat)"
    by (auto simp: sealed_plane_total(3))
  then show thesis using that [of cps] by (cases "cps = []") simp_all
qed

theorem answer_200_proves_rows_unaltered_witness:
  "\<exists>resp cps st. plane_verify sample_site (Notaries echo_lib id echo_http (Inr []) sample_settings)
      (http_call ''GET'' ''/verify'' [] []\<lparr>hr_query := \<lambda>_. ''acme''\<rparr>)
      (sample_plane\<lparr>pl_logs := pl_logs sample_plane, pl_anchor := (pl_anchor sample_plane)\<lparr>checkpoint_proofs := []\<rparr>\<rparr>) =
        Inr resp \<and> rs_status resp = 200 \<and>
    s3_All (si_worm sample_site) ''acme'' (pl_bucket sample_plane) = Inr cps \<and> cps \<noteq> [] \<and>
    seen (pl_logs sample_plane) ''acme'' = Inr st \<and> st \<noteq> [] \<and>
    (let cp = hd cps; n = unat (SeqEnd cp); ids = insert [] (CheckpointID ` set cps); es = ch_entries (pl_logs sample_plane) ''acme''
     in map content (take (Suc n) st) = map content (take (Suc n) es) \<or>
        (\<exists>a\<le>n. \<exists>prev\<in>ids. \<exists>prev'\<in>ids. collides (replay_inputs ''acme'' st a n prev' (AnchoredAt cp))
          (replay_inputs ''acme'' es a n prev (AnchoredAt cp))))"
proof -
  let ?r = "http_call ''GET'' ''/verify'' [] []\<lparr>hr_query := \<lambda>_. ''acme''\<rparr>"
    and ?s = "sample_plane\<lparr>pl_logs := pl_logs sample_plane, pl_anchor := (pl_anchor sample_plane)\<lparr>checkpoint_proofs := []\<rparr>\<rparr>"
    and ?ns = "Notaries echo_lib id echo_http (Inr []) sample_settings"
  have r: "hr_method ?r = ''GET''" "hr_path ?r = ''/verify''" "hr_query ?r ''tenant'' = ''acme''"
    by (simp_all add: http_call_def)
  have small: "accepted_total (pl_answers sample_plane) \<le> 2 ^ 63" "accepted_for t (pl_answers sample_plane) \<le> 100000" for t
    using sample_plane_total(1) sample_plane_total(2) [of t] by simp_all
  have "\<exists>resp. plane_verify sample_site ?ns ?r sample_plane = Inr resp \<and> rs_status resp = 200"
    using deployment_verified [OF sample_site_facts(1) empty_bucket sample_plane_reachable(2) sample_site_facts(2,4,3)
        sample_plane_tenants small r(1,2)] r(3) s3_ok_acme by auto
  then obtain rep where rep: "RunTenant None None (pl_logs sample_plane) (pl_anchor sample_plane)
      (\<lambda>t. s3_All (si_worm sample_site) t (pl_bucket sample_plane)) ?ns ''acme'' = Inr rep" "report_OK rep"
    using plane_verify_200 [OF r, of sample_site ?ns sample_plane] by auto
  obtain resp where resp: "plane_verify sample_site ?ns ?r ?s = Inr resp" "rs_status resp = 200"
    using plane_verify_200 [OF r, of sample_site ?ns ?s] RunTenant_without [OF rep(1)] without_proofs_OK [OF rep(2)] by auto
  obtain cps where cps: "s3_All (si_worm sample_site) ''acme'' (pl_bucket sample_plane) = Inr cps" "cps \<noteq> []"
    by (rule sample_plane_anchored)
  obtain e where e: "pl_logs sample_plane = [to_row e]" "TenantID e = ''acme''" "entry_sized e"
    using hello_sealed by (metis sample_plane_facts(2))
  then have es: "ch_entries (pl_logs sample_plane) ''acme'' = [e]"
    using ch_entries_map [of "[e]" "''acme''"] by simp
  have "ch_wf (pl_logs sample_plane)"
    using ch_wf_append [OF ch_wf_Nil, of "[e]"] e(1) by simp
  then have st: "seen (pl_logs sample_plane) ''acme'' = Inr [e]"
    by (simp add: seen_wf es)
  note answer_200_proves_rows_unaltered [OF sample_site_facts(1) empty_bucket sample_plane_reachable(2) sample_site_facts(2)
      sample_plane_tenants _ r _ s3_ok_acme resp st _ cps(1) hd_in_set [OF cps(2)]]
  then show ?thesis
    using resp cps st e(3) sample_plane_total(1) by (simp add: Let_def es)
qed

end
