(* ===== verification/Overlaps.thy ===== *)
theory Overlaps
  imports Verify_Live
begin

section \<open>Runs that overlap (cmd/anchorer/main.go, cmd/verifier/main.go)\<close>

text \<open>
  The anchorer anchors on its ticker, in a goroutine, and on every \<open>POST /anchor\<close>, in the request's;
  nothing keeps two runs apart, and so it is with two instances. A run reads the last checkpoint
  and the rows after it, and then writes; \<open>overtaken_anchor\<close> is a run that another one overtakes
  between the two. A verification, in turn, reads the rows first and the checkpoints later. What
  happens when runs overlap needs no failure of any server.
\<close>

definition anchor_reads ::
    "anchor_env \<Rightarrow> ch_table \<Rightarrow> string \<Rightarrow> anchor_db \<Rightarrow> error + bytes \<times> entry list"
where
  "anchor_reads env logs tenant db =
     bind_res (LastCheckpoint (ae_last env) tenant db) (\<lambda>lc.
       let start = (case lc of None \<Rightarrow> 0 | Some (lastEnd, _) \<Rightarrow> lastEnd + 1);
           prevID = (case lc of None \<Rightarrow> [] | Some (_, cid) \<Rightarrow> cid)
       in bind_res (ch_EntriesAsc (ae_entries env) tenant start 0 logs) (\<lambda>es. Inr (prevID, es)))"

text \<open>The reads see \<open>db\<close>, the writes start from \<open>st\<close>.\<close>

definition overtaken_anchor ::
    "(checkpoint \<Rightarrow> 'w \<Rightarrow> error option \<times> 'w) \<Rightarrow> (checkpoint \<Rightarrow> error + bytes) \<Rightarrow> anchor_env \<Rightarrow> int \<Rightarrow>
      ch_table \<Rightarrow> string \<Rightarrow> anchor_db \<Rightarrow> anchor_db \<times> 'w \<Rightarrow> (nat \<times> failure option) \<times> anchor_db \<times> 'w"
where
  "overtaken_anchor put marshal env wm logs tenant db st =
     (case anchor_reads env logs tenant db of
        Inl err \<Rightarrow> ((0, Some (Failed err)), st)
      | Inr (prevID, es) \<Rightarrow> anchor_loop put marshal env wm tenant 0 prevID es st)"

text \<open>A run that nothing overtakes is \<open>AnchorTenant\<close>.\<close>

lemma AnchorTenant_undisturbed:
  "AnchorTenant put marshal env wm logs tenant st = overtaken_anchor put marshal env wm logs tenant (fst st) st"
  by (simp add: AnchorTenant_def overtaken_anchor_def anchor_reads_def Let_def split: sum.splits)





subsection \<open>A verification that is overtaken by anchoring\<close>





end
