(* ===== verification/Demo.thy ===== *)
theory Demo
  imports Verify_Live
begin

section \<open>The demo walkthrough (cmd/demo/main.go)\<close>

text \<open>
  The demo seals sample logs of two tenants in memory, anchors them in windows of six to a
  \<open>MemStore\<close> and two mock notaries, and runs the verifier on the untouched system and after three
  kinds of tampering. \<open>build\<close> is modelled for any logs and notaries; a call whose error the demo
  answers with \<open>panic\<close> is a fault. The theorems say what the walkthrough shows, for every system
  built this way: the baseline verifies, and an edit followed by a recomputation of the whole
  chain does not, unless it exhibits a collision.
\<close>

subsection \<open>The program\<close>

definition windowSize :: nat where
  "windowSize = 6"

definition baseTime :: i64 where
  "baseTime = 1700000000000000000"

definition demo_second :: i64 where
  "demo_second = 1000000000"

definition sampleLogs :: "(string \<times> (string \<times> string) list) list" where
  \<open>sampleLogs =
    [(''acme-corp'',
      [(''api'', ''{"lvl":"info","msg":"user login","user":"alice","ip":"10.0.0.4"}''),
       (''api'', ''{"lvl":"info","msg":"user login","user":"bob","ip":"10.0.0.9"}''),
       (''authz'', ''{"lvl":"warn","msg":"permission denied","user":"bob","res":"billing"}''),
       (''api'', ''{"lvl":"info","msg":"invoice created","id":"INV-1001","amt":4200}''),
       (''authz'', ''{"lvl":"alert","msg":"admin role granted","by":"alice","to":"carol"}''),
       (''api'', ''{"lvl":"info","msg":"export started","user":"carol","rows":50000}''),
       (''k8s'', ''{"lvl":"info","msg":"pod scheduled","pod":"api-7f9","node":"node-2"}''),
       (''authz'', ''{"lvl":"alert","msg":"unauthorized access attempt","user":"mallory","res":"secrets"}''),
       (''api'', ''{"lvl":"info","msg":"payment captured","id":"PAY-77","amt":4200}''),
       (''k8s'', ''{"lvl":"warn","msg":"OOMKilled","pod":"worker-3","node":"node-1"}''),
       (''api'', ''{"lvl":"info","msg":"user logout","user":"alice"}''),
       (''authz'', ''{"lvl":"info","msg":"api key rotated","user":"carol"}'')]),
     (''globex'',
      [(''app'', ''{"lvl":"info","msg":"order placed","order":"G-501","total":120}''),
       (''app'', ''{"lvl":"error","msg":"payment gateway timeout","order":"G-501"}''),
       (''app'', ''{"lvl":"info","msg":"retry succeeded","order":"G-501"}''),
       (''host'', ''{"lvl":"warn","msg":"disk usage high","mount":"/var","pct":88}''),
       (''app'', ''{"lvl":"info","msg":"order shipped","order":"G-501","carrier":"UPS"}''),
       (''host'', ''{"lvl":"crit","msg":"sshd auth failure","user":"root","ip":"8.8.8.8"}''),
       (''app'', ''{"lvl":"info","msg":"refund issued","order":"G-477","amt":60}''),
       (''host'', ''{"lvl":"info","msg":"backup completed","size":"2.1GB"}'')])]\<close>

definition tenantOrder :: "string list" where
  "tenantOrder = [''acme-corp'', ''globex'']"

record demo_system =
  sy_store :: store
  sy_worm :: mem_store
  sy_ledger :: proof_ledger
  sy_notaries :: "notary list"

fun seal_lines :: "string \<Rightarrow> (string \<times> string) list \<Rightarrow> i64 \<Rightarrow> sealer \<Rightarrow> i64 \<times> sealer" where
  "seal_lines tenant [] t sl = (t, sl)"
| "seal_lines tenant ((source, raw) # ls) t sl =
     seal_lines tenant ls (t + demo_second) (snd (sealer_Seal sl tenant source raw t t))"

fun seal_tenants :: "(string \<Rightarrow> (string \<times> string) list) \<Rightarrow> string list \<Rightarrow> i64 \<Rightarrow> sealer \<Rightarrow> i64 \<times> sealer" where
  "seal_tenants logs [] t sl = (t, sl)"
| "seal_tenants logs (u # us) t sl =
     (case seal_lines u (logs u) t sl of (t, sl) \<Rightarrow> seal_tenants logs us t sl)"

fun stamp_all :: "string \<Rightarrow> checkpoint \<Rightarrow> notary list \<Rightarrow> proof_ledger \<Rightarrow> fault + proof_ledger" where
  "stamp_all tenant cp [] l = Inr l"
| "stamp_all tenant cp (n # ns) l =
     (case n_Stamp n (CheckpointID cp) of
        Inl (Fault f) \<Rightarrow> Inl f
      | Inl (Failed _) \<Rightarrow> Inl Panic
      | Inr p \<Rightarrow> stamp_all tenant cp ns (ledger_Add tenant (SeqEnd cp) p l))"

text \<open>One window after the other; \<open>at\<close> is the clock.\<close>

function anchor_windows ::
    "notary list \<Rightarrow> string \<Rightarrow> bytes \<Rightarrow> entry list \<Rightarrow> i64 \<Rightarrow> mem_store \<Rightarrow> proof_ledger \<Rightarrow>
      fault + i64 \<times> mem_store \<times> proof_ledger"
where
  "anchor_windows notaries tenant prevID es at worm l =
     (if es = [] then Inr (at, worm, l)
      else
        bind_res (Build tenant (take windowSize es) prevID at) (\<lambda>cp.
          case mem_Put cp worm of
            (Some _, _) \<Rightarrow> Inl Panic
          | (None, worm) \<Rightarrow>
              bind_res (stamp_all tenant cp notaries l) (\<lambda>l.
                anchor_windows notaries tenant (CheckpointID cp) (drop windowSize es) (at + demo_second) worm l)))"
  by pat_completeness auto
termination
  by (relation "measure (\<lambda>(_, _, _, es, _). length es)") (auto simp: windowSize_def)

fun anchor_all ::
    "notary list \<Rightarrow> string list \<Rightarrow> store \<Rightarrow> i64 \<Rightarrow> mem_store \<Rightarrow> proof_ledger \<Rightarrow>
      fault + store \<times> mem_store \<times> proof_ledger"
where
  "anchor_all notaries [] s at worm l = Inr (s, worm, l)"
| "anchor_all notaries (u # us) s at worm l =
     (case store_Tenant u s of (es, s) \<Rightarrow>
        bind_res (anchor_windows notaries u [] es at worm l) (\<lambda>(at, worm, l). anchor_all notaries us s at worm l))"

definition build_from :: "(string \<Rightarrow> (string \<times> string) list) \<Rightarrow> string list \<Rightarrow> notary list \<Rightarrow> fault + demo_system" where
  "build_from logs order notaries =
     (case seal_tenants logs order baseTime (NewSealer NewStore) of (t, sl) \<Rightarrow>
        bind_res (anchor_all notaries order (sl_store sl) t (NewMemStore ''S3 Object Lock (WORM)'') NewProofLedger)
          (\<lambda>(s, worm, l). Inr \<lparr>sy_store = s, sy_worm = worm, sy_ledger = l, sy_notaries = notaries\<rparr>))"

definition demo_notaries :: "notary list" where
  "demo_notaries =
     [mock_iface (NewMockNotary ''RFC 3161 TSA'' ''tsa-signing-key''),
      mock_iface (NewMockNotary ''OpenTimestamps (Bitcoin)'' ''ots-signing-key'')]"

definition demo_build :: "fault + demo_system" where
  "demo_build = build_from (get_or [] sampleLogs) tenantOrder demo_notaries"

fun reseal :: "string \<Rightarrow> bytes \<Rightarrow> entry list \<Rightarrow> entry list" where
  "reseal tenant prev [] = []"
| "reseal tenant prev (e # es) =
     (let leaf = EntryLeaf tenant (Seq e) (EventTime e) (IngestTime e) (Source e) (Raw e);
          hash = ChainHash prev leaf
      in e\<lparr>PrevHash := prev, EntryHash := hash\<rparr> # reseal tenant hash es)"

text \<open>The rows are shared with the store, so resealing them is resealing the store's.\<close>

definition insiderReseal :: "store \<Rightarrow> string \<Rightarrow> store" where
  "insiderReseal s tenant =
     (case store_Tenant tenant s of (es, s) \<Rightarrow>
        s\<lparr>entries := AList.update tenant (reseal tenant (Genesis tenant) es) (entries s)\<rparr>)"

text \<open>\<open>target := store.Tenant(t)[i]; target.Raw = raw\<close>\<close>

definition edit_row :: "store \<Rightarrow> string \<Rightarrow> nat \<Rightarrow> string \<Rightarrow> store" where
  "edit_row s tenant i raw =
     (case store_Tenant tenant s of (es, s) \<Rightarrow>
        s\<lparr>entries := AList.update tenant (es[i := (es ! i)\<lparr>Raw := raw\<rparr>]) (entries s)\<rparr>)"

definition runVerify :: "demo_system \<Rightarrow> fault + report \<times> store" where
  "runVerify sys = Verify (sy_store sys) (\<lambda>t. mem_All t (sy_worm sys)) (sy_ledger sys) (sy_notaries sys)"

subsection \<open>The walkthrough and its output\<close>

definition ansi :: "string \<Rightarrow> string" where
  "ansi code = CHR 0x1B # ''['' @ code @ ''m''"

definition green :: string where "green = ansi ''32''"
definition red :: string where "red = ansi ''31''"
definition dim :: string where "dim = ansi ''2''"
definition bold :: string where "bold = ansi ''1''"
definition reset :: string where "reset = ansi ''0''"

definition println :: "string \<Rightarrow> string" where
  "println s = s @ [CHR 0x0A]"

definition em_dash :: string where
  "em_dash = [CHR 0xE2, CHR 0x80, CHR 0x94]"

definition section_text :: "string \<Rightarrow> string" where
  "section_text title =
     println [] @ println (bold @ title @ reset) @ println (dim @ replicate (length title) (CHR ''-'') @ reset)"

text \<open>\<open>strings.ToUpper\<close>; the only characters beyond ASCII in a banner are dashes, which have no case.\<close>

definition to_upper :: "string \<Rightarrow> string" where
  "to_upper s = map (\<lambda>c. let n = (of_char c :: nat) in if 97 \<le> n \<and> n \<le> 122 then char_of (n - 32) else c) s"

definition banner_text :: "string \<Rightarrow> string" where
  "banner_text title =
     println [] @ println (bold @ to_upper title @ reset @ reset) @ println (replicate (length title) (CHR ''=''))"

definition verdict_text :: "report \<Rightarrow> string" where
  "verdict_text rep =
     (if report_OK rep then
        println (''  '' @ bold @ green @ [CHR 0xE2, CHR 0x9C, CHR 0x93] @ '' VERIFIED'' @ reset @ ''  '' @
          dec (EntriesChecked rep) @ '' entries, '' @ dec (CheckpointsSeen rep) @ '' checkpoints, '' @
          dec (ProofsChecked rep) @ '' notary proofs checked '' @ em_dash @ '' no tampering.'')
      else
        println (''  '' @ bold @ red @ [CHR 0xE2, CHR 0x9C, CHR 0x97] @ '' TAMPERING DETECTED'' @ reset @ ''  ('' @
          dec (EntriesChecked rep) @ '' entries, '' @ dec (CheckpointsSeen rep) @ '' checkpoints, '' @
          dec (ProofsChecked rep) @ '' proofs checked)'') @
        concat (map (\<lambda>iss. println (''    '' @ red @ ''-'' @ reset @ '' '' @ issue_String iss)) (Issues rep)))"

definition note_text :: "string \<Rightarrow> string" where
  "note_text note = println (dim @ ''  '' @ note @ reset)"

definition showWitnesses :: "demo_system \<Rightarrow> string" where
  "showWitnesses sys =
     concat (map (\<lambda>tenant.
       note_text (tenant @ '' checkpoints (in WORM):'') @
       concat (map (\<lambda>cp.
         println (dim @ ''    seq '' @ dec (unat (SeqStart cp)) @ ''..'' @ dec (unat (SeqEnd cp)) @ ''  count='' @
           dec (unat (EntryCount cp)) @ ''  root='' @ Hex (MerkleRoot cp) @ ''  id='' @ Hex (CheckpointID cp) @ reset))
         (case mem_All tenant (sy_worm sys) of Inl _ \<Rightarrow> [] | Inr cps \<Rightarrow> cps))) tenantOrder)"

text \<open>One scenario: a fresh system, a tampering with its store, the verifier's report.\<close>

definition scenario :: "(store \<Rightarrow> store) \<Rightarrow> fault + demo_system \<times> report" where
  "scenario tamper =
     bind_res demo_build (\<lambda>sys.
     bind_res (runVerify (sys\<lparr>sy_store := tamper (sy_store sys)\<rparr>)) (\<lambda>(r, s). Inr (sys, r)))"

definition naive_edit :: string where
  "naive_edit = ''{\"lvl\":\"info\",\"msg\":\"health check ok\",\"user\":\"mallory\"}''"

definition careful_edit :: string where
  "careful_edit = ''{\"lvl\":\"info\",\"msg\":\"payment captured\",\"id\":\"PAY-77\",\"amt\":1}''"

definition tamper_naive :: "store \<Rightarrow> store" where
  "tamper_naive s = edit_row s ''acme-corp'' 7 naive_edit"

definition tamper_careful :: "store \<Rightarrow> store" where
  "tamper_careful s = insiderReseal (edit_row s ''acme-corp'' 8 careful_edit) ''acme-corp''"

definition tamper_truncate :: "store \<Rightarrow> store" where
  "tamper_truncate s = insiderReseal (store_Delete ''globex'' 7 s) ''globex''"

definition demo_text :: "string \<Rightarrow> report \<Rightarrow> report \<Rightarrow> report \<Rightarrow> report \<Rightarrow> string" where
  "demo_text witnesses r0 r1 r2 r3 =
     banner_text (''multi-log '' @ em_dash @ '' immutability core prototype'') @
     println (dim @ ''Two tenants, '' @ dec (length (get_or [] sampleLogs ''acme-corp'')) @ '' + '' @
       dec (length (get_or [] sampleLogs ''globex'')) @ '' log entries, anchored to 1 WORM store + 2 notaries in '' @
       dec windowSize @ ''-entry windows.'' @ reset) @
     section_text (''0. Baseline '' @ em_dash @ '' nothing tampered'') @ witnesses @
     note_text ''Everything should verify.'' @ verdict_text r0 @
     section_text (''1. Naive tamper '' @ em_dash @ '' edit a row, leave the chain alone'') @
     note_text ''attacker rewrites acme-corp seq 7 to hide an unauthorized-access alert'' @
     note_text (''Chain replay alone catches this '' @ em_dash @ '' the stored entry_hash no longer matches.'') @
     verdict_text r1 @
     section_text (''2. Sophisticated tamper '' @ em_dash @ '' edit a row AND recompute the chain'') @
     note_text ''attacker rewrites acme-corp seq 8, then re-seals the whole chain so it's self-consistent'' @
     note_text (''Chain replay now PASSES '' @ em_dash @ '' but the WORM record and both notary proofs disagree.'') @
     verdict_text r2 @
     section_text (''3. Truncation '' @ em_dash @ '' delete the most recent entry'') @
     note_text ''attacker deletes globex seq 7 (the latest log) to make an event disappear'' @
     note_text (''No sequence gap (it was the tail) '' @ em_dash @ '' but the checkpoint committed an entry count.'') @
     verdict_text r3 @
     banner_text ''takeaway'' @
     println (reset @ ''The hash chain catches careless edits. The '' @ bold @ ''independent witnesses'' @ reset @ reset @
       '' catch the careful ones '' @ em_dash) @
     println ''an insider can rewrite the database perfectly, but cannot rewrite the checkpoint already in'' @
     println ''WORM storage, nor forge the timestamp-authority and public-chain proofs over its id.''"

definition demo_main :: "fault + string" where
  "demo_main =
     bind_res (scenario id) (\<lambda>(sys, r0).
     bind_res (scenario tamper_naive) (\<lambda>(_, r1).
     bind_res (scenario tamper_careful) (\<lambda>(_, r2).
     bind_res (scenario tamper_truncate) (\<lambda>(_, r3).
       Inr (demo_text (showWitnesses sys) r0 r1 r2 r3)))))"

subsection \<open>What is sealed\<close>

text \<open>The sealing loops are one run of the sealer.\<close>

fun line_reqs :: "string \<Rightarrow> (string \<times> string) list \<Rightarrow> i64 \<Rightarrow> seal_req list" where
  "line_reqs u [] t = []"
| "line_reqs u ((source, raw) # ls) t = (u, source, raw, t, t) # line_reqs u ls (t + demo_second)"

fun tenant_reqs :: "(string \<Rightarrow> (string \<times> string) list) \<Rightarrow> string list \<Rightarrow> i64 \<Rightarrow> seal_req list" where
  "tenant_reqs logs [] t = []"
| "tenant_reqs logs (u # us) t =
     line_reqs u (logs u) t @ tenant_reqs logs us (t + of_nat (length (logs u)) * demo_second)"

lemma seal_all_append: "seal_all sl (xs @ ys) = seal_all (seal_all sl xs) ys"
  by (induction sl xs rule: seal_all.induct) simp_all

lemma seal_lines_run:
  "seal_lines u ls t sl = (t + of_nat (length ls) * demo_second, seal_all sl (line_reqs u ls t))"
  by (induction u ls t arbitrary: sl rule: line_reqs.induct) (simp_all add: algebra_simps)

lemma seal_tenants_run: "\<exists>t'. seal_tenants logs us t sl = (t', seal_all sl (tenant_reqs logs us t))"
  by (induction us arbitrary: t sl) (simp_all add: seal_lines_run seal_all_append)

lemma tenant_lines_simps [simp]: "tenant_lines t [] = []"
  "tenant_lines t (xs @ ys) = tenant_lines t xs @ tenant_lines t ys"
  by (simp_all add: tenant_lines_def)

lemma tenant_lines_line_reqs:
  "map (\<lambda>(source, raw, _). (source, raw)) (tenant_lines t (line_reqs u ls at)) = (if t = u then ls else [])"
  by (induction u ls at rule: line_reqs.induct) (auto simp: tenant_lines_def)

lemma tenant_lines_tenant_reqs:
  "distinct us \<Longrightarrow>
    map (\<lambda>(source, raw, _). (source, raw)) (tenant_lines t (tenant_reqs logs us at)) =
      (if t \<in> set us then logs t else [])"
  by (induction us arbitrary: at) (auto simp: tenant_lines_line_reqs)

text \<open>The store after sealing.\<close>

definition sealed_store :: "(string \<Rightarrow> (string \<times> string) list) \<Rightarrow> string list \<Rightarrow> store" where
  "sealed_store logs order = sl_store (seal_all (NewSealer NewStore) (tenant_reqs logs order baseTime))"

lemma sealed_store_rows:
  assumes "distinct order"
  shows "intact t (rows (sealed_store logs order) t)"
    and "map (\<lambda>e. (Source e, Raw e)) (rows (sealed_store logs order) t) = (if t \<in> set order then logs t else [])"
    and "length (rows (sealed_store logs order) t) = (if t \<in> set order then length (logs t) else 0)"
proof -
  show "intact t (rows (sealed_store logs order) t)"
    unfolding sealed_store_def using sealed_rows_ok head_ok_def by blast
  have "map (\<lambda>e. (Source e, Raw e)) (rows (sealed_store logs order) t) =
      map (\<lambda>(source, raw, _). (source, raw)) (map line_of (rows (sealed_store logs order) t))"
    by (simp add: line_of_def)
  also have "\<dots> = (if t \<in> set order then logs t else [])"
    unfolding sealed_store_def sealed_rows_lines by (rule tenant_lines_tenant_reqs [OF assms])
  finally show eq: "map (\<lambda>e. (Source e, Raw e)) (rows (sealed_store logs order) t) =
      (if t \<in> set order then logs t else [])" .
  from arg_cong [OF eq, of length]
  show "length (rows (sealed_store logs order) t) = (if t \<in> set order then length (logs t) else 0)"
    by simp
qed

lemma sealed_store_distinct: "distinct (map fst (entries (sealed_store logs order)))"
  using seal_all_inv [OF sealer_inv_new] by (simp add: sealed_store_def sealer_inv_def)

subsection \<open>What is stamped\<close>

text \<open>
  A notary the demo can rely on: it stamps every id, and a verifier that knows the notaries \<open>ns\<close>
  accepts the proof.
\<close>

definition attests :: "(string \<rightharpoonup> notary) \<Rightarrow> bytes \<Rightarrow> notary_proof \<Rightarrow> bool" where
  "attests ns cid p \<longleftrightarrow> (case ns (Notary p) of None \<Rightarrow> False | Some nt \<Rightarrow> n_Verify nt p cid = Inr None)"

lemma attests_known: "attests ns cid p \<Longrightarrow> \<exists>nt. ns (Notary p) = Some nt"
  by (auto simp: attests_def split: option.splits)

definition reliable :: "(string \<rightharpoonup> notary) \<Rightarrow> notary \<Rightarrow> bool" where
  "reliable ns nt \<longleftrightarrow> (\<forall>cid. length cid = 32 \<longrightarrow> (\<exists>p. n_Stamp nt cid = Inr p \<and> attests ns cid p))"

lemma stamp_all_ok:
  assumes "list_all (reliable ns) nts" and "length (CheckpointID cp) = 32"
  shows "\<exists>l' ps. stamp_all u cp nts l = Inr l' \<and> length ps = length nts \<and>
    list_all (attests ns (CheckpointID cp)) ps \<and>
    (\<forall>t m. ledger_Get t m l' = ledger_Get t m l @ (if t = u \<and> m = SeqEnd cp then ps else []))"
  using assms(1)
proof (induction nts arbitrary: l)
  case (Cons nt nts)
  then obtain p where p: "n_Stamp nt (CheckpointID cp) = Inr p" "attests ns (CheckpointID cp) p"
    using assms(2) by (auto simp: reliable_def)
  obtain l' ps where "stamp_all u cp nts (ledger_Add u (SeqEnd cp) p l) = Inr l'" "length ps = length nts"
    "list_all (attests ns (CheckpointID cp)) ps"
    "\<forall>t m. ledger_Get t m l' = ledger_Get t m (ledger_Add u (SeqEnd cp) p l) @ (if t = u \<and> m = SeqEnd cp then ps else [])"
    using Cons by fastforce
  with p show ?case
    by (intro exI [of _ l'] exI [of _ "p # ps"]) simp
qed simp

text \<open>A checkpoint with one proof of each of \<open>k\<close> notaries in the ledger.\<close>

definition stamped :: "(string \<rightharpoonup> notary) \<Rightarrow> nat \<Rightarrow> proof_ledger \<Rightarrow> string \<Rightarrow> checkpoint \<Rightarrow> bool" where
  "stamped ns k l t cp \<longleftrightarrow>
     length (ledger_Get t (SeqEnd cp) l) = k \<and> list_all (attests ns (CheckpointID cp)) (ledger_Get t (SeqEnd cp) l)"

lemma stamped_genuine: "stamped ns k l t cp \<Longrightarrow> genuine ns l t cp"
  by (auto simp: stamped_def genuine_def attests_def list_all_iff split: option.splits)

lemma stamped_checked: "list_all (stamped ns k l t) cps \<Longrightarrow> checked_proofs ns l t cps = k * length cps"
proof (induction cps)
  case (Cons cp cps)
  have "filter (\<lambda>p. ns (Notary p) \<noteq> None) (ledger_Get t (SeqEnd cp) l) = ledger_Get t (SeqEnd cp) l"
    using Cons.prems by (auto simp: stamped_def list_all_iff intro!: filter_True dest: attests_known)
  with Cons show ?case by (simp add: checked_proofs_def stamped_def)
qed (simp add: checked_proofs_def)

subsection \<open>What is anchored\<close>

text \<open>
  A tenant's state between two windows: \<open>cps\<close> are the checkpoints of its first rows, all in the
  store, each with its proofs in the ledger, and the ledger holds nothing else for the tenant.
\<close>

definition anchored_so_far ::
    "(string \<rightharpoonup> notary) \<Rightarrow> nat \<Rightarrow> string \<Rightarrow> entry list \<Rightarrow> checkpoint list \<Rightarrow> mem_store \<Rightarrow> proof_ledger \<Rightarrow> bool"
where
  "anchored_so_far ns k t es cps worm l \<longleftrightarrow>
     mem_inv worm \<and> mem_All t worm = Inr cps \<and> anchored t [] es cps \<and> list_all (stamped ns k l t) cps \<and>
     (\<forall>m. m \<notin> SeqEnd ` set cps \<longrightarrow> ledger_Get t m l = [])"

text \<open>Nothing of the other tenants changes.\<close>

definition untouched :: "string \<Rightarrow> mem_store \<times> proof_ledger \<Rightarrow> mem_store \<times> proof_ledger \<Rightarrow> bool" where
  "untouched t st st' \<longleftrightarrow>
     mem_All t (fst st') = mem_All t (fst st) \<and> (\<forall>m. ledger_Get t m (snd st') = ledger_Get t m (snd st))"

lemma untouched_refl [simp]: "untouched t st st"
  by (simp add: untouched_def)

lemma untouched_trans: "untouched t st st' \<Longrightarrow> untouched t st' st'' \<Longrightarrow> untouched t st st''"
  by (simp add: untouched_def)

lemma anchored_so_far_untouched:
  "untouched t (worm, l) (worm', l') \<Longrightarrow> mem_inv worm' \<Longrightarrow> anchored_so_far ns k t es cps worm l \<Longrightarrow>
    anchored_so_far ns k t es cps worm' l'"
  by (simp add: anchored_so_far_def untouched_def stamped_def list_all_iff)

lemma anchored_so_far_step:
  assumes st: "anchored_so_far ns k t es cps worm l" and es: "intact t es" "length es < 2 ^ 45"
    and cp: "Build t (take windowSize (drop (covered cps) es)) (last_id [] cps) at = Inr cp"
    and ps: "length ps = k" "list_all (attests ns (CheckpointID cp)) ps"
    and l': "\<And>u m. ledger_Get u m l' = ledger_Get u m l @ (if u = t \<and> m = SeqEnd cp then ps else [])"
  shows "\<exists>worm'. mem_Put cp worm = (None, worm') \<and> anchored_so_far ns k t es (cps @ [cp]) worm' l' \<and>
    (\<forall>u. u \<noteq> t \<longrightarrow> untouched u (worm, l) (worm', l'))"
proof -
  have inv: "mem_inv worm" "mem_All t worm = Inr cps" and anch: "anchored t [] es cps"
    and filed: "list_all (stamped ns k l t) cps" and empty: "\<And>m. m \<notin> SeqEnd ` set cps \<Longrightarrow> ledger_Get t m l = []"
    using st by (simp_all add: anchored_so_far_def)
  note f = Build_fields [OF cp]
  have "length es \<le> 2 ^ 63" "length es \<le> 2 ^ 64" using es(2) by simp_all
  note n = Build_count [OF cp this(1)]
  have anch': "anchored t [] es (cps @ [cp])"
    using anch cp n f(9) by (auto simp: anchored_append Let_def min_def)
  have "unat (SeqEnd cp) + 1 = covered (cps @ [cp])"
    using anchored_ends [of t "[]" es "[]" "cps @ [cp]"] anch' es(1) \<open>length es \<le> 2 ^ 64\<close> by simp
  moreover have "list_all (\<lambda>cp. unat (SeqEnd cp) < covered cps) cps"
    using anchored_ends [of t "[]" es "[]" cps] anch es(1) \<open>length es \<le> 2 ^ 64\<close> by (cases "cps = []") simp_all
  moreover have "0 < unat (EntryCount cp)" using n by simp
  ultimately have later: "SeqEnd c < SeqEnd cp" if "c \<in> set cps" for c
    using that by (auto simp: list_all_iff word_less_nat_alt)
  obtain worm' where put: "mem_Put cp worm = (None, worm')" "mem_inv worm'" "mem_All t worm' = Inr (cps @ [cp])"
    using mem.all_put_append [OF inv(1) TrueI, of cp cps] inv(2) later f(2) by auto
  have "stamped ns k l' t c" if "c \<in> set cps" for c
    using filed that later [OF that] by (auto simp: stamped_def l' list_all_iff)
  moreover have "stamped ns k l' t cp"
    using empty [of "SeqEnd cp"] later ps by (force simp: stamped_def l')
  moreover have "ledger_Get t m l' = []" if "m \<notin> SeqEnd ` set (cps @ [cp])" for m
    using empty [of m] that by (auto simp: l')
  ultimately have "anchored_so_far ns k t es (cps @ [cp]) worm' l'"
    using put anch' by (simp add: anchored_so_far_def list_all_iff)
  moreover have "untouched u (worm, l) (worm', l')" if "u \<noteq> t" for u
    using mem.all_put_other [OF inv(1) TrueI TrueI, of u cp] that f(2) put(1) by (simp add: untouched_def l')
  ultimately show ?thesis using put(1) by blast
qed

declare anchor_windows.simps [simp del]

lemma windows_left:
  assumes "0 < r"
  shows "Suc ((r - min r 6 + 5) div 6) = (r + 5) div (6 :: nat)"
proof (cases "r \<le> 6")
  case True
  with assms have "(r + 5) div 6 = 1" by presburger
  with True show ?thesis by simp
next
  case False
  then obtain d where "r = d + 6" by (metis add.commute le_Suc_ex nle_le)
  then show ?thesis by simp
qed

lemma anchor_windows_ok:
  assumes es: "intact t es" "length es < 2 ^ 45" and nts: "list_all (reliable ns) nts"
    and st: "anchored_so_far ns (length nts) t es cps worm l"
  shows "\<exists>at' worm' l' cps'.
    anchor_windows nts t (last_id [] cps) (drop (covered cps) es) at worm l = Inr (at', worm', l') \<and>
    anchored_so_far ns (length nts) t es cps' worm' l' \<and> covered cps' = length es \<and>
    length cps' = length cps + (length es - covered cps + 5) div windowSize \<and>
    (\<forall>u. u \<noteq> t \<longrightarrow> untouched u (worm, l) (worm', l'))"
  using st
proof (induction "length es - covered cps" arbitrary: cps at worm l rule: less_induct)
  case less
  let ?rem = "drop (covered cps) es"
  have cov: "covered cps \<le> length es"
    using less.prems anchored_covered by (auto simp: anchored_so_far_def)
  show ?case
  proof (cases "?rem = []")
    case True
    then have "anchor_windows nts t (last_id [] cps) ?rem at worm l = Inr (at, worm, l)"
      by (simp add: anchor_windows.simps)
    with True less.prems cov show ?thesis
      by (intro exI [of _ at] exI [of _ worm] exI [of _ l] exI [of _ cps]) (simp add: windowSize_def)
  next
    case False
    then have "take windowSize ?rem \<noteq> []" by (simp add: windowSize_def)
    then obtain cp where cp: "Build t (take windowSize ?rem) (last_id [] cps) at = Inr cp"
      using Build_Inr by blast
    obtain l1 ps where l1: "stamp_all t cp nts l = Inr l1" "length ps = length nts"
      "list_all (attests ns (CheckpointID cp)) ps"
      "\<And>u m. ledger_Get u m l1 = ledger_Get u m l @ (if u = t \<and> m = SeqEnd cp then ps else [])"
      using stamp_all_ok [OF nts, of cp t l] Build_fields(11) [OF cp] by auto
    obtain worm1 where w1: "mem_Put cp worm = (None, worm1)"
      "anchored_so_far ns (length nts) t es (cps @ [cp]) worm1 l1" "\<forall>u. u \<noteq> t \<longrightarrow> untouched u (worm, l) (worm1, l1)"
      using anchored_so_far_step [OF less.prems es cp l1(2-4)] by blast
    have n: "unat (EntryCount cp) = length (take windowSize ?rem)"
      using Build_count [OF cp] es(2) by simp
    then have step: "drop (covered (cps @ [cp])) es = drop windowSize ?rem"
      by (cases "windowSize \<le> length ?rem") (simp_all add: add.commute min_def)
    have "length es - covered (cps @ [cp]) < length es - covered cps"
      using n False by (simp add: windowSize_def)
    from less.hyps [OF this w1(2), of "at + demo_second"] obtain at' worm' l' cps' where
      r: "anchor_windows nts t (CheckpointID cp) (drop windowSize ?rem) (at + demo_second) worm1 l1 = Inr (at', worm', l')"
        "anchored_so_far ns (length nts) t es cps' worm' l'" "covered cps' = length es"
        "length cps' = Suc (length cps) + (length es - covered (cps @ [cp]) + 5) div windowSize"
        "\<forall>u. u \<noteq> t \<longrightarrow> untouched u (worm1, l1) (worm', l')"
      unfolding step by auto
    have "anchor_windows nts t (last_id [] cps) ?rem at worm l = Inr (at', worm', l')"
      using False cp w1(1) l1(1) r(1) by (simp add: anchor_windows.simps [of _ _ _ ?rem])
    moreover have "Suc (length cps) + (length es - covered (cps @ [cp]) + 5) div windowSize =
        length cps + (length es - covered cps + 5) div windowSize"
      using n False windows_left [of "length es - covered cps"]
      by (simp add: windowSize_def diff_diff_left [symmetric] del: diff_diff_left)
    ultimately show ?thesis
      using r w1(3) untouched_trans by (metis (no_types, lifting))
  qed
qed

lemma rows_store_Tenant_intact:
  assumes "intact t (rows s t)" and "length (rows s t) < 2 ^ 45" and "store_Tenant t s = (es, s')"
  shows "es = rows s t" "rows s' = rows s" "map fst (entries s') = map fst (entries s)"
proof -
  have sorted: "sort_key Seq (rows s t) = rows s t"
    using assms(1,2) by (intro intact_sorted) auto
  then show "es = rows s t"
    using assms(3) by (auto simp: store_Tenant_def Let_def)
  show "rows s' = rows s"
    using rows_store_Tenant [of t s] assms(3) sorted by fastforce
  show "map fst (entries s') = map fst (entries s)"
    using assms(3)
    by (auto simp: store_Tenant_def Let_def update_keys image_iff split: option.splits)
      (metis fst_conv map_of_SomeD)
qed

definition fully_anchored :: "(string \<rightharpoonup> notary) \<Rightarrow> nat \<Rightarrow> string \<Rightarrow> entry list \<Rightarrow> mem_store \<Rightarrow> proof_ledger \<Rightarrow> bool" where
  "fully_anchored ns k t es worm l \<longleftrightarrow>
     (\<exists>cps. anchored_so_far ns k t es cps worm l \<and> covered cps = length es \<and>
       length cps = (length es + 5) div windowSize)"

lemma fully_anchored_untouched:
  "untouched t (worm, l) (worm', l') \<Longrightarrow> mem_inv worm' \<Longrightarrow> fully_anchored ns k t es worm l \<Longrightarrow>
    fully_anchored ns k t es worm' l'"
  unfolding fully_anchored_def using anchored_so_far_untouched by blast

lemma anchor_all_ok:
  assumes "\<And>t. intact t (rows s t) \<and> length (rows s t) < 2 ^ 45" and "list_all (reliable ns) nts"
    and "distinct us" and "mem_inv worm" and "\<And>u. u \<in> set us \<Longrightarrow> anchored_so_far ns (length nts) u (rows s u) [] worm l"
  shows "\<exists>s' worm' l'. anchor_all nts us s at worm l = Inr (s', worm', l') \<and> rows s' = rows s \<and>
    map fst (entries s') = map fst (entries s) \<and> mem_inv worm' \<and>
    (\<forall>u\<in>set us. fully_anchored ns (length nts) u (rows s u) worm' l') \<and>
    (\<forall>u. u \<notin> set us \<longrightarrow> untouched u (worm, l) (worm', l'))"
  using assms(1,3-5)
proof (induction us arbitrary: s at worm l)
  case (Cons u us)
  obtain es s1 where t: "store_Tenant u s = (es, s1)" by fastforce
  note s1 = rows_store_Tenant_intact [OF conjunct1 conjunct2, OF Cons.prems(1) Cons.prems(1) t]
  obtain at1 worm1 l1 cps where w: "anchor_windows nts u [] (rows s u) at worm l = Inr (at1, worm1, l1)"
    "anchored_so_far ns (length nts) u (rows s u) cps worm1 l1" "covered cps = length (rows s u)"
    "length cps = (length (rows s u) + 5) div windowSize" "\<forall>t. t \<noteq> u \<longrightarrow> untouched t (worm, l) (worm1, l1)"
    using anchor_windows_ok [OF conjunct1 conjunct2, OF Cons.prems(1) Cons.prems(1) assms(2) Cons.prems(4), of u at]
    by auto
  have inv: "mem_inv worm1" using w(2) by (simp add: anchored_so_far_def)
  have start: "anchored_so_far ns (length nts) t (rows s1 t) [] worm1 l1" if "t \<in> set us" for t
    using anchored_so_far_untouched [OF _ inv Cons.prems(4), of t l1] w(5) that Cons.prems(2) s1(2)
    by (metis distinct.simps(2) list.set_intros(2))
  obtain s' worm' l' where r: "anchor_all nts us s1 at1 worm1 l1 = Inr (s', worm', l')" "rows s' = rows s1"
    "map fst (entries s') = map fst (entries s1)" "mem_inv worm'"
    "\<forall>u\<in>set us. fully_anchored ns (length nts) u (rows s1 u) worm' l'"
    "\<forall>u. u \<notin> set us \<longrightarrow> untouched u (worm1, l1) (worm', l')"
    using Cons.IH [of s1 worm1 l1 at1] Cons.prems(1,2) s1(2) inv start by auto
  have "fully_anchored ns (length nts) u (rows s u) worm1 l1"
    using w(2-4) by (auto simp: fully_anchored_def)
  then have "fully_anchored ns (length nts) u (rows s u) worm' l'"
    using r(4,6) Cons.prems(2) by (intro fully_anchored_untouched [of u worm1 l1 worm' l']) auto
  moreover have "untouched t (worm, l) (worm', l')" if "t \<notin> set (u # us)" for t
    using that w(5) r(6) by (auto intro: untouched_trans)
  moreover have "anchor_all nts (u # us) s at worm l = Inr (s', worm', l')"
    using r(1) t w(1) s1(1) by simp
  ultimately show ?case
    using r s1 by auto
qed simp

lemma anchored_so_far_new: "anchored_so_far ns k t es [] (NewMemStore name) NewProofLedger"
  by (simp add: anchored_so_far_def mem_inv_new) (simp add: mem_All_def NewMemStore_def get_or_def)

text \<open>\<open>build\<close> never panics, and leaves every tenant sealed and anchored to its last row.\<close>

lemma build_ok:
  assumes "distinct order" and "list_all (\<lambda>u. length (logs u) < 2 ^ 45) order"
    and "list_all (reliable (by_name notaries)) notaries"
  shows "\<exists>sys. build_from logs order notaries = Inr sys \<and> sy_notaries sys = notaries \<and>
    rows (sy_store sys) = rows (sealed_store logs order) \<and>
    map fst (entries (sy_store sys)) = map fst (entries (sealed_store logs order)) \<and>
    (\<forall>u\<in>set order. fully_anchored (by_name notaries) (length notaries) u
      (rows (sealed_store logs order) u) (sy_worm sys) (sy_ledger sys))"
proof -
  let ?w = "NewMemStore ''S3 Object Lock (WORM)''" and ?s = "sealed_store logs order"
  obtain t where t: "seal_tenants logs order baseTime (NewSealer NewStore) =
      (t, seal_all (NewSealer NewStore) (tenant_reqs logs order baseTime))"
    using seal_tenants_run by blast
  have "intact t (rows ?s t) \<and> length (rows ?s t) < 2 ^ 45" for t
    using sealed_store_rows [OF assms(1)] assms(2) by (simp add: list_all_iff)
  from anchor_all_ok [OF this assms(3,1) mem_inv_new anchored_so_far_new, of t "''S3 Object Lock (WORM)''"]
  obtain s' worm' l' where "anchor_all notaries order ?s t ?w NewProofLedger = Inr (s', worm', l')"
    "rows s' = rows ?s" "map fst (entries s') = map fst (entries ?s)"
    "\<forall>u\<in>set order. fully_anchored (by_name notaries) (length notaries) u (rows ?s u) worm' l'"
    by blast
  then show ?thesis
    by (intro exI [of _ "\<lparr>sy_store = s', sy_worm = worm', sy_ledger = l', sy_notaries = notaries\<rparr>"])
      (simp_all add: build_from_def t sealed_store_def)
qed

subsection \<open>Verifying the untouched system\<close>

lemma update_listed: "fst ` set (AList.update t v al) = insert t (fst ` set al)" for v :: "entry list"
  by (induction al) auto

lemma seal_all_keys:
  "fst ` set (entries (sl_store (seal_all sl rs))) = fst ` set (entries (sl_store sl)) \<union> fst ` set rs"
proof (induction sl rs rule: seal_all.induct)
  case (2 sl t src raw et it rs)
  have "fst ` set (entries (sl_store (snd (sealer_Seal sl t src raw et it)))) =
      insert t (fst ` set (entries (sl_store sl)))"
    by (simp add: sealer_Seal_def Let_def store_Append_def update_listed)
  with 2 show ?case by (auto simp: image_iff)
qed simp

lemma line_reqs_keys: "fst ` set (line_reqs u ls t) = (if ls = [] then {} else {u})"
  by (induction u ls t rule: line_reqs.induct) auto

lemma tenant_reqs_keys: "fst ` set (tenant_reqs logs us t) = {u \<in> set us. logs u \<noteq> []}"
  by (induction us arbitrary: t) (auto simp: image_Un line_reqs_keys)

lemma sealed_store_keys: "fst ` set (entries (sealed_store logs order)) = {u \<in> set order. logs u \<noteq> []}"
  by (simp add: sealed_store_def seal_all_keys tenant_reqs_keys NewSealer_def NewStore_def)

lemma sum_over_tenants:
  assumes "map fst (entries s) = map fst (entries (sealed_store logs order))" and "distinct order"
    and "\<And>u. logs u = [] \<Longrightarrow> f u = (0 :: nat)"
  shows "sum_list (map f (store_Tenants s)) = sum_list (map f order)"
proof -
  have keys: "set (store_Tenants s) = {u \<in> set order. logs u \<noteq> []}" "distinct (store_Tenants s)"
    using assms(1) sealed_store_distinct [of logs order] sealed_store_keys [of logs order]
    by (simp_all add: store_Tenants_def flip: set_map)
  then have "sum_list (map f (store_Tenants s)) = sum f {u \<in> set order. logs u \<noteq> []}"
    by (simp add: sum_list_distinct_conv_sum_set)
  also have "\<dots> = sum f (set order)"
    using assms(3) by (intro sum.mono_neutral_left) auto
  finally show ?thesis
    using assms(2) by (simp add: sum_list_distinct_conv_sum_set)
qed

lemma fully_anchored_tenant:
  assumes "fully_anchored ns k t es worm l"
  shows "\<exists>cps. mem_All t worm = Inr cps \<and> anchored t [] es cps \<and> covered cps = length es \<and>
    length cps = (length es + 5) div windowSize \<and> list_all (genuine ns l t) cps \<and>
    checked_proofs ns l t cps = k * length cps"
proof -
  obtain cps where cps: "anchored_so_far ns k t es cps worm l" "covered cps = length es"
    "length cps = (length es + 5) div windowSize"
    using assms by (auto simp: fully_anchored_def)
  then have stamped: "list_all (stamped ns k l t) cps"
    by (simp add: anchored_so_far_def)
  then have "list_all (genuine ns l t) cps"
    using stamped_genuine by (auto simp: list_all_iff)
  with cps stamped_checked [OF stamped] show ?thesis
    by (auto simp: anchored_so_far_def)
qed

lemma build_verifies:
  assumes "distinct order" and "list_all (\<lambda>u. length (logs u) < 2 ^ 45) order"
    and "list_all (reliable (by_name notaries)) notaries"
  shows "\<exists>sys s'. build_from logs order notaries = Inr sys \<and>
    runVerify sys = Inr (\<lparr>Issues = [],
        EntriesChecked = sum_list (map (\<lambda>u. length (logs u)) order),
        CheckpointsSeen = sum_list (map (\<lambda>u. (length (logs u) + 5) div windowSize) order),
        ProofsChecked = sum_list (map (\<lambda>u. length notaries * ((length (logs u) + 5) div windowSize)) order)\<rparr>, s')"
proof -
  obtain sys where sys: "build_from logs order notaries = Inr sys" "sy_notaries sys = notaries"
    "rows (sy_store sys) = rows (sealed_store logs order)"
    "map fst (entries (sy_store sys)) = map fst (entries (sealed_store logs order))"
    and anch: "\<And>u. u \<in> set order \<Longrightarrow> fully_anchored (by_name notaries) (length notaries) u
      (rows (sealed_store logs order) u) (sy_worm sys) (sy_ledger sys)"
    using build_ok [OF assms] by blast
  let ?ns = "by_name notaries" and ?w = "\<lambda>t. mem_All t (sy_worm sys)" and ?s = "sy_store sys" and ?l = "sy_ledger sys"
  note rows = sealed_store_rows [OF assms(1), where logs = logs]
  have len: "length (rows ?s u) < 2 ^ 45" for u
    using rows(3) [of u] assms(2) by (auto simp: sys(3) list_all_iff)
  have sorted: "sort_key Seq (rows ?s u) = rows ?s u" for u
    using rows(1) [of u] len [of u] by (intro intact_sorted) (auto simp: sys(3))
  have keys: "set (store_Tenants ?s) = {u \<in> set order. logs u \<noteq> []}"
    using sys(4) sealed_store_keys [of logs order] by (simp add: store_Tenants_def flip: set_map)
  have "tenant_ok ?ns ?l ?w ?s u" if "u \<in> set (store_Tenants ?s)" for u
    using fully_anchored_tenant [OF anch [of u]] that keys len [of u] rows(1) [of u] sorted [of u]
    by (auto simp: tenant_ok_def sys(3))
  then obtain s' where run: "runVerify sys = Inr (clean_report ?ns ?l ?w ?s (store_Tenants ?s) empty_report, s')"
    using verify_tenants_genuine [of ?ns ?l ?w ?s "store_Tenants ?s" empty_report]
    by (auto simp: runVerify_def Verify_def sys(2) list_all_iff)
  have "map (\<lambda>u. length (rows ?s u)) (store_Tenants ?s) = map (\<lambda>u. length (logs u)) (store_Tenants ?s)"
    "map (\<lambda>u. length (projr (?w u))) (store_Tenants ?s) =
      map (\<lambda>u. (length (logs u) + 5) div windowSize) (store_Tenants ?s)"
    "map (\<lambda>u. checked_proofs ?ns ?l u (projr (?w u))) (store_Tenants ?s) =
      map (\<lambda>u. length notaries * ((length (logs u) + 5) div windowSize)) (store_Tenants ?s)"
    using fully_anchored_tenant [OF anch] keys rows(3) by (force simp: sys(3))+
  then have "clean_report ?ns ?l ?w ?s (store_Tenants ?s) empty_report =
    \<lparr>Issues = [],
     EntriesChecked = sum_list (map (\<lambda>u. length (logs u)) (store_Tenants ?s)),
     CheckpointsSeen = sum_list (map (\<lambda>u. (length (logs u) + 5) div windowSize) (store_Tenants ?s)),
     ProofsChecked = sum_list (map (\<lambda>u. length notaries * ((length (logs u) + 5) div windowSize)) (store_Tenants ?s))\<rparr>"
    by (simp only: clean_report_def empty_report_def report.simps add_0)
  with run sys(1) sum_over_tenants [OF sys(4) assms(1)] show ?thesis
    by (auto simp: windowSize_def)
qed

subsection \<open>Verifying a rewritten store\<close>

lemma last_window:
  assumes "anchored t [] es cps" and "covered cps = length es" and "es \<noteq> []"
  obtains a prev cp where "cp \<in> set cps" "a < length es"
    "Build t (window es a (length es - 1)) prev (AnchoredAt cp) = Inr cp" "length prev \<le> 32"
proof -
  have "cps \<noteq> []" using assms(2,3) by auto
  then obtain xs cp where cps: "cps = xs @ [cp]" by (cases cps rule: rev_cases) auto
  let ?a = "covered xs" and ?n = "unat (EntryCount cp)" and ?p = "last_id [] xs"
  have cp: "Build t (take ?n (drop ?a es)) ?p (AnchoredAt cp) = Inr cp" and xs: "anchored t [] es xs"
    using assms(1) by (simp_all add: cps anchored_append Let_def)
  have "drop ?a es \<noteq> []" using Build_fields(1) [OF cp] by auto
  then have a: "?a < length es" by simp
  have "take ?n (drop ?a es) = window es ?a (length es - 1)"
    using assms(2) a by (simp add: cps window_def)
  moreover have "length ?p \<le> 32"
  proof (cases xs rule: rev_cases)
    case (snoc ys y)
    then have "Build t (take (unat (EntryCount y)) (drop (covered ys) es)) (last_id [] ys) (AnchoredAt y) = Inr y"
      using xs by (simp add: anchored_append Let_def)
    from Build_fields(11) [OF this] snoc show ?thesis by simp
  qed simp
  ultimately show thesis
    using cp a by (intro that [of cp ?a ?p]) (simp_all add: cps)
qed

lemma Build_ids_sized: "anchored t prev es cps \<Longrightarrow> list_all (\<lambda>c. sized (CheckpointID c)) cps"
  using Build_fields(11) by (induction cps arbitrary: prev es) (fastforce simp: Let_def sized_def)+

text \<open>
  Whatever store is put under the witnesses of a system that \<open>build\<close> made: if the tenant is still
  listed, a clean report means that its first rows are the sealed ones.
\<close>

definition line_sized :: "string \<times> string \<Rightarrow> bool" where
  "line_sized l \<longleftrightarrow> sized (fst l) \<and> sized (snd l)"

text \<open>What \<open>build\<close> leaves of one tenant: its rows, and a checkpoint that ends at the last of them.\<close>

lemma built_tenant:
  assumes "distinct order" and "list_all (\<lambda>u. length (logs u) < 2 ^ 45) order"
    and "list_all (reliable (by_name notaries)) notaries"
    and "build_from logs order notaries = Inr sys" and "u \<in> set order" and "logs u \<noteq> []"
  defines "es \<equiv> rows (sy_store sys) u"
  obtains cps cp a prev where "sy_notaries sys = notaries" "intact u es" "length es = length (logs u)"
    "map (\<lambda>e. (Source e, Raw e)) es = logs u" "mem_All u (sy_worm sys) = Inr cps" "cp \<in> set cps"
    "list_all (\<lambda>c. sized (CheckpointID c)) cps" "window_ok cp" "unat (SeqEnd cp) = length (logs u) - 1"
    "a < length (logs u)" "Build u (window es a (length (logs u) - 1)) prev (AnchoredAt cp) = Inr cp" "sized prev"
proof -
  have built: "sy_notaries sys = notaries" "es = rows (sealed_store logs order) u"
    "fully_anchored (by_name notaries) (length notaries) u es (sy_worm sys) (sy_ledger sys)"
    using build_ok [OF assms(1-3)] assms(4,5) by (auto simp: es_def)
  note rows = sealed_store_rows [OF assms(1), where logs = logs and t = u]
  have es: "intact u es" "length es = length (logs u)" "length es < 2 ^ 45" "es \<noteq> []"
    "map (\<lambda>e. (Source e, Raw e)) es = logs u"
    using rows assms(2,5,6) by (auto simp: built(2) list_all_iff)
  obtain cps where cps: "mem_All u (sy_worm sys) = Inr cps" "anchored u [] es cps" "covered cps = length es"
    using fully_anchored_tenant [OF built(3)] by auto
  obtain a prev cp where cp: "cp \<in> set cps" "a < length es"
    "Build u (window es a (length es - 1)) prev (AnchoredAt cp) = Inr cp" "length prev \<le> 32"
    by (rule last_window [OF cps(2,3) es(4)])
  have b: "length es - 1 < length es" "a \<le> length es - 1" using cp(2) by auto
  have "SeqEnd cp = of_nat (length es - 1)"
    using Build_fields(4) [OF cp(3)] links_Seq_nth [OF es(1) b(1)] window_props(3) [OF b(2,1)] by simp
  moreover have "unat (of_nat (length es - 1) :: u64) = length es - 1"
    using b(1) es(3) by (intro unat_of_nat_less) simp
  ultimately have "unat (SeqEnd cp) = length es - 1" by simp
  moreover have "window_ok cp"
    using anchored_window_ok [of u "[]" es "[]" cps] es(1,3) cps(2) cp(1) by (simp add: list_all_iff)
  ultimately show thesis
    using built(1) es cps(1) cp Build_ids_sized [OF cps(2)]
    by (intro that [of cps cp a prev]) (simp_all add: sized_def)
qed

lemma rewritten_store_covers:
  assumes sys: "distinct order" "list_all (\<lambda>u. length (logs u) < 2 ^ 45) order"
      "list_all (reliable (by_name notaries)) notaries" "build_from logs order notaries = Inr sys"
      "u \<in> set order" "logs u \<noteq> []"
    and run: "runVerify (sys\<lparr>sy_store := s\<rparr>) = Inr (r, s')" "report_OK r"
    and s: "u \<in> set (store_Tenants s)" "length (rows s u) \<le> 2 ^ 64"
  shows "length (logs u) \<le> length (rows s u)"
proof -
  obtain cps cp where "sy_notaries sys = notaries" "mem_All u (sy_worm sys) = Inr cps" "cp \<in> set cps" "window_ok cp"
    and b: "unat (SeqEnd cp) = length (logs u) - 1"
    by (rule built_tenant [OF sys])
  moreover have "length (logs u) < 2 ^ 45"
    using sys(2,5) by (auto simp: list_all_iff)
  ultimately have "unat (SeqEnd cp) < length (rows s u)"
    using run s b
    by (intro verify_clean_covers [of s "\<lambda>t. mem_All t (sy_worm sys)" "sy_ledger sys" notaries r s' u cps cp])
      (simp_all add: runVerify_def)
  with b sys(6) show ?thesis by (cases "logs u") simp_all
qed

lemma rewritten_store_clean:
  assumes sys: "distinct order" "list_all (\<lambda>u. length (logs u) < 2 ^ 45) order"
      "list_all (reliable (by_name notaries)) notaries" "build_from logs order notaries = Inr sys"
      "u \<in> set order" "logs u \<noteq> []"
    and u: "sized u" "list_all line_sized (logs u)"
    and run: "runVerify (sys\<lparr>sy_store := s\<rparr>) = Inr (r, s')" "report_OK r"
    and s: "u \<in> set (store_Tenants s)" "sized (rows s u)" "list_all entry_sized (rows s u)"
  shows "map content (take (length (logs u)) (sort_key Seq (rows s u))) = map content (rows (sy_store sys) u) \<or>
      (\<exists>a prev prev' at. collides (replay_inputs u (sort_key Seq (rows s u)) a (length (logs u) - 1) prev' at)
        (replay_inputs u (rows (sy_store sys) u) a (length (logs u) - 1) prev at))"
proof -
  let ?es = "rows (sy_store sys) u" and ?b = "length (logs u) - 1" and ?w = "\<lambda>t. mem_All t (sy_worm sys)"
  obtain cps cp a prev where built: "sy_notaries sys = notaries" "intact u ?es" "length ?es = length (logs u)"
      "map (\<lambda>e. (Source e, Raw e)) ?es = logs u" "?w u = Inr cps" "cp \<in> set cps"
      "list_all (\<lambda>c. sized (CheckpointID c)) cps"
    and cp: "a < length (logs u)" "Build u (window ?es a ?b) prev (AnchoredAt cp) = Inr cp" "sized prev"
    by (rule built_tenant [OF sys])
  have "length ?es < 2 ^ 45" using built(3) sys(2,5) by (simp add: list_all_iff)
  then have es: "sized ?es" by (simp add: sized_def)
  have "list_all line_sized (map (\<lambda>e. (Source e, Raw e)) ?es)" by (simp only: built(4) u(2))
  then have entries: "list_all entry_sized ?es"
    by (simp add: list_all_iff line_sized_def entry_sized_def)
  have v: "Verify s ?w (sy_ledger sys) notaries = Inr (r, s')"
    using run(1) by (simp add: runVerify_def built(1))
  have b: "?b < length ?es" "a \<le> ?b" "Suc ?b = length (logs u)"
    using built(3) cp(1) sys(6) by (auto simp: Suc_le_eq)
  show ?thesis
    using verify_sound [OF v run(2) s(1) built(5,6,2) b(2,1) cp(2) u(1) es cp(3) entries s(2,3) built(7)] built(3)
    unfolding b(3) by auto
qed

lemma rewritten_store_returns:
  assumes "distinct order" and "list_all (\<lambda>u. length (logs u) < 2 ^ 45) order"
    and "list_all (reliable (by_name notaries)) notaries" and "list_all answers notaries"
    and sys: "build_from logs order notaries = Inr sys" and "set (store_Tenants s) \<subseteq> set order"
  shows "\<exists>r s'. runVerify (sys\<lparr>sy_store := s\<rparr>) = Inr (r, s')"
proof -
  have built: "sy_notaries sys = notaries"
    "\<And>u. u \<in> set order \<Longrightarrow> fully_anchored (by_name notaries) (length notaries) u
      (rows (sealed_store logs order) u) (sy_worm sys) (sy_ledger sys)"
    using build_ok [OF assms(1-3)] sys by auto
  have "case mem_All u (sy_worm sys) of Inl _ \<Rightarrow> True | Inr cps \<Rightarrow> list_all window_ok cps"
    if "u \<in> set (store_Tenants s)" for u
  proof -
    have u: "u \<in> set order" using that assms(6) by blast
    let ?es = "rows (sealed_store logs order) u"
    obtain cps where cps: "mem_All u (sy_worm sys) = Inr cps" "anchored u [] ?es cps"
      using fully_anchored_tenant [OF built(2) [OF u]] by auto
    have "intact u ?es" "length ?es < 2 ^ 45"
      using sealed_store_rows [OF assms(1), where logs = logs and t = u] u assms(2) by (simp_all add: list_all_iff)
    then show ?thesis
      using anchored_window_ok [of u "[]" ?es "[]" cps] cps by simp
  qed
  then show ?thesis
    unfolding runVerify_def using Verify_returns [OF assms(4)] by (simp add: built(1) list_all_iff)
qed

text \<open>Resealing rewrites the two hashes of every row, and makes the rows a chain.\<close>

definition unsealed :: "entry \<Rightarrow> string \<times> u64 \<times> i64 \<times> i64 \<times> string \<times> string" where
  "unsealed e = (TenantID e, Seq e, EventTime e, IngestTime e, Source e, Raw e)"

lemma reseal_unsealed: "map unsealed (reseal t p es) = map unsealed es"
  by (induction t p es rule: reseal.induct) (simp_all add: Let_def unsealed_def)

lemma reseal_Seq [simp]: "map Seq (reseal t p es) = map Seq es"
  using arg_cong [OF reseal_unsealed [of t p es], of "map (fst \<circ> snd)"] by (simp add: unsealed_def comp_def)

lemma reseal_Source_Raw: "map (\<lambda>e. (Source e, Raw e)) (reseal t p es) = map (\<lambda>e. (Source e, Raw e)) es"
  using arg_cong [OF reseal_unsealed [of t p es], of "map (snd \<circ> snd \<circ> snd \<circ> snd)"]
  by (simp add: unsealed_def comp_def)

lemma reseal_length [simp]: "length (reseal t p es) = length es"
  by (induction t p es rule: reseal.induct) (simp_all add: Let_def)

lemma reseal_links:
  "map Seq es = map (\<lambda>i. w + of_nat i) [0..<length es] \<Longrightarrow> links t p w (reseal t p es)"
proof (induction t p es arbitrary: w rule: reseal.induct)
  case (2 t p e es)
  have "map Seq es = map (\<lambda>i. w + 1 + of_nat i) [0..<length es]" and "Seq e = w"
    using 2(2) by (simp_all add: upt_conv_Cons map_Suc_upt [symmetric] algebra_simps del: upt_Suc)
  with 2(1) show ?case
    by (simp add: Let_def leaf_of_def)
qed simp

text \<open>Rows numbered from 0 stay in place when the store sorts them.\<close>

lemma numbered_sorted:
  "map Seq es = map of_nat [0..<length es] \<Longrightarrow> length es < 2 ^ 45 \<Longrightarrow> sort_key Seq es = es"
  by (rule sort_key_sorted) (simp add: sorted_of_nat_u64)

lemma insiderReseal_rows:
  assumes "map Seq (rows s t) = map of_nat [0..<length (rows s t)]" and "length (rows s t) < 2 ^ 45"
  shows "rows (insiderReseal s t) t = reseal t (Genesis t) (rows s t)"
    and "intact t (rows (insiderReseal s t) t)"
proof -
  obtain es s1 where st: "store_Tenant t s = (es, s1)" by fastforce
  then have "es = rows s t"
    using numbered_sorted [OF assms] by (simp add: store_Tenant_def Let_def)
  with st show eq: "rows (insiderReseal s t) t = reseal t (Genesis t) (rows s t)"
    by (simp add: insiderReseal_def rows_def get_or_def update_conv')
  show "intact t (rows (insiderReseal s t) t)"
    unfolding eq by (rule reseal_links) (simp add: assms(1))
qed

lemma edit_row_rows:
  assumes "map Seq (rows s t) = map of_nat [0..<length (rows s t)]" and "length (rows s t) < 2 ^ 45"
  shows "rows (edit_row s t i raw) t = (rows s t)[i := (rows s t ! i)\<lparr>Raw := raw\<rparr>]"
proof -
  obtain es s1 where st: "store_Tenant t s = (es, s1)" by fastforce
  then have "es = rows s t"
    using numbered_sorted [OF assms] by (simp add: store_Tenant_def Let_def)
  with st show ?thesis
    by (simp add: edit_row_def rows_def get_or_def update_conv')
qed

lemma store_Tenant_listed:
  assumes "store_Tenant t s = (es, s')"
  shows "insert t (fst ` set (entries s')) = insert t (fst ` set (entries s))"
proof (cases "map_of (entries s) t")
  case (Some old)
  then have "s' = s\<lparr>entries := AList.update t (sort_key Seq (rows s t)) (entries s)\<rparr>"
    using assms by (auto simp: store_Tenant_def Let_def)
  then show ?thesis by (simp add: update_listed)
qed (use assms in \<open>simp add: store_Tenant_def Let_def\<close>)

lemma rewritten_Tenants:
  "set (store_Tenants (insiderReseal s t)) = insert t (set (store_Tenants s))"
  "set (store_Tenants (edit_row s t i raw)) = insert t (set (store_Tenants s))"
  "set (store_Tenants (store_Delete t n s)) = insert t (set (store_Tenants s))"
  using store_Tenant_listed [of t s]
  by (auto simp: store_Tenants_def insiderReseal_def edit_row_def store_Delete_def update_listed split: prod.splits)

lemma edit_row_numbered:
  assumes "map Seq (rows s t) = map of_nat [0..<length (rows s t)]" and "length (rows s t) < 2 ^ 45"
    and "i < length (rows s t)"
  shows "length (rows (edit_row s t i raw) t) = length (rows s t)"
    "map Seq (rows (edit_row s t i raw) t) = map of_nat [0..<length (rows s t)]"
    "map (\<lambda>e. (Source e, Raw e)) (rows (edit_row s t i raw) t) =
      (map (\<lambda>e. (Source e, Raw e)) (rows s t))[i := (Source (rows s t ! i), raw)]"
proof -
  note fs = edit_row_rows [OF assms(1,2), of i raw]
  show "length (rows (edit_row s t i raw) t) = length (rows s t)"
    "map (\<lambda>e. (Source e, Raw e)) (rows (edit_row s t i raw) t) =
      (map (\<lambda>e. (Source e, Raw e)) (rows s t))[i := (Source (rows s t ! i), raw)]"
    by (simp_all add: fs map_update)
  have "map Seq (rows (edit_row s t i raw) t) = (map Seq (rows s t))[i := Seq (rows s t ! i)]"
    by (simp add: fs map_update)
  then show "map Seq (rows (edit_row s t i raw) t) = map of_nat [0..<length (rows s t)]"
    using assms(1,3) by (metis list_update_id nth_map)
qed

lemma resealed_edit:
  assumes "map Seq (rows s t) = map of_nat [0..<length (rows s t)]" and "length (rows s t) < 2 ^ 45"
    and "i < length (rows s t)"
  shows "intact t (rows (insiderReseal (edit_row s t i raw) t) t)"
    "length (rows (insiderReseal (edit_row s t i raw) t) t) = length (rows s t)"
    "map (\<lambda>e. (Source e, Raw e)) (rows (insiderReseal (edit_row s t i raw) t) t) =
      (map (\<lambda>e. (Source e, Raw e)) (rows s t))[i := (Source (rows s t ! i), raw)]"
  using insiderReseal_rows [of "edit_row s t i raw" t] edit_row_numbered [OF assms, of raw] assms(2)
  by (simp_all add: reseal_Source_Raw)

lemma delete_last_row:
  assumes "intact t (rows s t)" and "length (rows s t) = Suc n" and "Suc n < 2 ^ 45"
  shows "rows (store_Delete t (of_nat n) s) t = take n (rows s t)"
proof -
  have seq: "Seq (rows s t ! i) = of_nat i" if "i < Suc n" for i
    using links_Seq_nth [OF assms(1), of i] that assms(2) by simp
  then have "Seq e \<noteq> of_nat n" if "e \<in> set (take n (rows s t))" for e
    using that assms(2,3) by (auto simp: in_set_conv_nth of_nat_u64_inject)
  then have "filter (\<lambda>e. Seq e \<noteq> of_nat n) (take n (rows s t)) = take n (rows s t)"
    by (intro filter_True) blast
  moreover have "rows s t = take n (rows s t) @ [rows s t ! n]"
    using assms(2) by (metis lessI order_refl take_Suc_conv_app_nth take_all_iff)
  then have "filter (\<lambda>e. Seq e \<noteq> of_nat n) (rows s t) =
      filter (\<lambda>e. Seq e \<noteq> of_nat n) (take n (rows s t)) @ filter (\<lambda>e. Seq e \<noteq> of_nat n) [rows s t ! n]"
    by (metis filter_append)
  ultimately show ?thesis
    using seq [of n] by (simp add: store_Delete_def rows_def get_or_def update_conv')
qed

subsection \<open>Properties\<close>

text \<open>
  In cmd/demo/main.go, build and runVerify: the baseline verifies. For any logs of distinct
  tenants and any reliable notaries, \<open>build\<close> does not panic, and \<open>Verify\<close> on the untouched system
  reports no issue and counts every line, a checkpoint for every six lines begun and one proof per
  checkpoint and notary. (The witness is the demo's own data: 20 entries, 4 checkpoints, 8 proofs.)
\<close>

theorem untouched_system_verifies:
  assumes "distinct order" and "list_all (\<lambda>u. length (logs u) < 2 ^ 45) order"
    and "list_all (reliable (by_name notaries)) notaries"
  shows "\<exists>sys s'. build_from logs order notaries = Inr sys \<and>
    runVerify sys = Inr (\<lparr>Issues = [],
        EntriesChecked = sum_list (map (\<lambda>u. length (logs u)) order),
        CheckpointsSeen = sum_list (map (\<lambda>u. (length (logs u) + 5) div windowSize) order),
        ProofsChecked = sum_list (map (\<lambda>u. length notaries * ((length (logs u) + 5) div windowSize)) order)\<rparr>, s')"
  using assms by (rule build_verifies)

lemma map_Seq_sealed:
  assumes "distinct order"
  shows "map Seq (rows (sealed_store logs order) t) = map of_nat [0..<length (rows (sealed_store logs order) t)]"
  using intact_Seq [OF sealed_store_rows(1) [OF assms]] .

text \<open>The store of a built system lists its tenants only.\<close>

lemma built_Tenants:
  assumes "distinct order" and "list_all (\<lambda>u. length (logs u) < 2 ^ 45) order"
    and "list_all (reliable (by_name notaries)) notaries" and "build_from logs order notaries = Inr sys"
  shows "set (store_Tenants (sy_store sys)) \<subseteq> set order"
proof -
  have "map fst (entries (sy_store sys)) = map fst (entries (sealed_store logs order))"
    using build_ok [OF assms(1-3)] assms(4) by auto
  then show ?thesis
    using sealed_store_keys [of logs order] by (auto simp: store_Tenants_def simp flip: set_map)
qed

lemma content_lines:
  "map content xs = map content ys \<Longrightarrow> map (\<lambda>e. (Source e, Raw e)) xs = map (\<lambda>e. (Source e, Raw e)) ys"
  by (auto simp: list_eq_iff_nth_eq content_def)

text \<open>A store that shows other lines than those sealed is reported, or exhibits a collision.\<close>

definition history_collision :: "string \<Rightarrow> entry list \<Rightarrow> entry list \<Rightarrow> bool" where
  "history_collision u es es' \<longleftrightarrow>
     (\<exists>a prev prev' at. collides (replay_inputs u es a (length es' - 1) prev' at) (replay_inputs u es' a (length es' - 1) prev at))"

lemma rewritten_lines_reported:
  assumes sys: "distinct order" "list_all (\<lambda>u. length (logs u) < 2 ^ 45) order"
      "list_all (reliable (by_name notaries)) notaries" "build_from logs order notaries = Inr sys"
      "u \<in> set order" "logs u \<noteq> []"
    and u: "sized u" "list_all line_sized (logs u)" and "list_all answers notaries"
    and s: "set (store_Tenants s) = insert u (set (store_Tenants (sy_store sys)))"
      "map Seq (rows s u) = map of_nat [0..<length (logs u)]"
    and lines: "map (\<lambda>e. (Source e, Raw e)) (rows s u) = ls" "list_all line_sized ls" "ls \<noteq> logs u"
  shows "\<exists>r s'. runVerify (sys\<lparr>sy_store := s\<rparr>) = Inr (r, s') \<and>
    (if report_OK r then history_collision u (sort_key Seq (rows s u)) (rows (sy_store sys) u) else True)"
proof -
  have len: "length (rows s u) = length (logs u)" "length (logs u) < 2 ^ 45"
    using arg_cong [OF s(2), of length] sys(2,5) by (simp_all add: list_all_iff)
  have sorted: "sort_key Seq (rows s u) = rows s u"
    by (rule numbered_sorted) (use s(2) len in simp_all)
  have "list_all line_sized (map (\<lambda>e. (Source e, Raw e)) (rows s u))" using lines(1,2) by simp
  then have ok: "list_all entry_sized (rows s u)" "sized (rows s u)"
    using len by (simp_all add: list_all_iff line_sized_def entry_sized_def sized_def)
  have es: "length (rows (sy_store sys) u) = length (logs u)"
    "map (\<lambda>e. (Source e, Raw e)) (rows (sy_store sys) u) = logs u"
    by (rule built_tenant [OF sys]; assumption)+
  obtain r s' where run: "runVerify (sys\<lparr>sy_store := s\<rparr>) = Inr (r, s')"
    using rewritten_store_returns [OF sys(1-3) assms(9) sys(4), of s] built_Tenants [OF sys(1-4)] s(1) sys(5) by auto
  have "map content (rows s u) \<noteq> map content (rows (sy_store sys) u)"
    using content_lines [of "rows s u" "rows (sy_store sys) u"] lines(1,3) es(2) by auto
  then have "history_collision u (sort_key Seq (rows s u)) (rows (sy_store sys) u)" if "report_OK r"
    using rewritten_store_clean [OF sys u run that _ ok(2,1)] s(1) sorted len(1)
    by (auto simp: history_collision_def es(1))
  with run show ?thesis by auto
qed

lemma built_rows:
  assumes "distinct order" and "list_all (\<lambda>u. length (logs u) < 2 ^ 45) order"
    and "list_all (reliable (by_name notaries)) notaries"
    and "build_from logs order notaries = Inr sys" and "u \<in> set order" and "logs u \<noteq> []"
  defines "es \<equiv> rows (sy_store sys) u"
  shows "map Seq es = map of_nat [0..<length es]" "length es = length (logs u)" "length es < 2 ^ 45"
    "map (\<lambda>e. (Source e, Raw e)) es = logs u"
proof -
  have es: "intact u es \<and> length es = length (logs u) \<and> map (\<lambda>e. (Source e, Raw e)) es = logs u"
    unfolding es_def by (rule built_tenant [OF assms(1-6)]) blast
  then show "map Seq es = map of_nat [0..<length es]" "length es = length (logs u)" "length es < 2 ^ 45"
    "map (\<lambda>e. (Source e, Raw e)) es = logs u"
    using intact_Seq [of u es] assms(2,5) by (auto simp: list_all_iff)
qed

lemma edited_line:
  assumes "map (\<lambda>e. (Source e, Raw e)) es = logs" and "i < length logs" and "raw \<noteq> snd (logs ! i)"
    and "sized raw" and "list_all line_sized logs"
  shows "list_all line_sized (logs[i := (Source (es ! i), raw)])" "logs[i := (Source (es ! i), raw)] \<noteq> logs"
proof -
  have "length es = length logs" using assms(1) by auto
  then have "Source (es ! i) = fst (logs ! i)"
    using assms(1,2) by auto
  then show "list_all line_sized (logs[i := (Source (es ! i), raw)])"
    using assms(2,4,5) by (auto simp: list_all_length nth_list_update line_sized_def)
  show "logs[i := (Source (es ! i), raw)] \<noteq> logs"
    using assms(2,3) by (metis nth_list_update_eq snd_conv)
qed

lemma edited_reported:
  assumes "distinct order" and "list_all (\<lambda>u. length (logs u) < 2 ^ 45) order"
    and "list_all (reliable (by_name notaries)) notaries" and "list_all answers notaries"
    and "build_from logs order notaries = Inr sys"
    and "u \<in> set order" and "sized u" and "list_all line_sized (logs u)"
    and "i < length (logs u)" and "raw \<noteq> snd (logs u ! i)" and "sized raw"
  shows "\<exists>r s'. runVerify (sys\<lparr>sy_store := edit_row (sy_store sys) u i raw\<rparr>) = Inr (r, s') \<and>
    (if report_OK r
     then history_collision u (sort_key Seq (rows (edit_row (sy_store sys) u i raw) u)) (rows (sy_store sys) u)
     else True)"
proof -
  let ?es = "rows (sy_store sys) u"
  have ne: "logs u \<noteq> []" using assms(9) by auto
  note es = built_rows [OF assms(1-3,5,6) ne]
  note edit = edited_line [OF es(4) assms(9-11,8)]
  have i: "i < length ?es" using assms(9) es(2) by simp
  show ?thesis
    using edit_row_numbered [OF es(1,3) i, of raw] es(2,4)
    by (intro rewritten_lines_reported [OF assms(1-3,5,6) ne assms(7,8,4) _ _ _ edit])
      (simp_all add: rewritten_Tenants)
qed

lemma resealed_edit_reported:
  assumes "distinct order" and "list_all (\<lambda>u. length (logs u) < 2 ^ 45) order"
    and "list_all (reliable (by_name notaries)) notaries" and "list_all answers notaries"
    and "build_from logs order notaries = Inr sys"
    and "u \<in> set order" and "sized u" and "list_all line_sized (logs u)"
    and "i < length (logs u)" and "raw \<noteq> snd (logs u ! i)" and "sized raw"
  shows "intact u (rows (insiderReseal (edit_row (sy_store sys) u i raw) u) u) \<and>
    (\<exists>r s'. runVerify (sys\<lparr>sy_store := insiderReseal (edit_row (sy_store sys) u i raw) u\<rparr>) = Inr (r, s') \<and>
    (if report_OK r
     then history_collision u (sort_key Seq (rows (insiderReseal (edit_row (sy_store sys) u i raw) u) u)) (rows (sy_store sys) u)
     else True))"
proof -
  let ?es = "rows (sy_store sys) u"
  have ne: "logs u \<noteq> []" using assms(9) by auto
  note es = built_rows [OF assms(1-3,5,6) ne]
  note s = resealed_edit [OF es(1,3), of i raw]
  note edit = edited_line [OF es(4) assms(9-11,8)]
  have i: "i < length ?es" using assms(9) es(2) by simp
  show ?thesis
    using s(1,2) [OF i] intact_Seq [OF s(1) [OF i]] s(3) [OF i] es(2,4)
    by (intro conjI rewritten_lines_reported [OF assms(1-3,5,6) ne assms(7,8,4) _ _ _ edit])
      (simp_all add: rewritten_Tenants)
qed

text \<open>
  C15 (cmd/demo/main.go, the sophisticated tamper): an edit is caught even when the attacker
  recomputes the whole chain. Change the line of any row of a built system and reseal the tenant's
  chain: the rows are an intact chain again, yet \<open>Verify\<close> returns a report with an issue, or the
  histories hashed before and after exhibit a SHA-256 collision.
\<close>

theorem resealed_edit_is_reported:
  assumes "distinct order" and "list_all (\<lambda>u. length (logs u) < 2 ^ 45) order"
    and "list_all (reliable (by_name notaries)) notaries" and "list_all answers notaries"
    and "build_from logs order notaries = Inr sys"
    and "u \<in> set order" and "sized u" and "list_all line_sized (logs u)"
    and "i < length (logs u)" and "raw \<noteq> snd (logs u ! i)" and "sized raw"
  defines "s \<equiv> insiderReseal (edit_row (sy_store sys) u i raw) u"
  shows "intact u (rows s u) \<and> (\<exists>r s'. runVerify (sys\<lparr>sy_store := s\<rparr>) = Inr (r, s') \<and>
    (if report_OK r then history_collision u (sort_key Seq (rows s u)) (rows (sy_store sys) u) else True))"
  using assms(1-11) unfolding s_def by (rule resealed_edit_reported)

lemma deleted_tail_reported:
  assumes "distinct order" and "list_all (\<lambda>u. length (logs u) < 2 ^ 45) order"
    and "list_all (reliable (by_name notaries)) notaries" and "list_all answers notaries"
    and "build_from logs order notaries = Inr sys" and "u \<in> set order" and "logs u \<noteq> []"
  defines "s \<equiv> insiderReseal (store_Delete u (of_nat (length (logs u) - 1)) (sy_store sys)) u"
  shows "intact u (rows s u) \<and> length (rows s u) = length (logs u) - 1 \<and>
    (\<exists>r s'. runVerify (sys\<lparr>sy_store := s\<rparr>) = Inr (r, s') \<and> \<not> report_OK r)"
proof -
  let ?n = "length (logs u) - 1" and ?es = "rows (sy_store sys) u"
  have "intact u ?es" by (rule built_tenant [OF assms(1-3,5-7)])
  then have es: "intact u ?es" "length ?es = Suc ?n" "Suc ?n < 2 ^ 45"
    using built_rows [OF assms(1-3,5-7)] assms(7) by simp_all
  have cut: "rows (store_Delete u (of_nat ?n) (sy_store sys)) u = take ?n ?es"
    by (rule delete_last_row [OF es])
  have "map Seq (take ?n ?es) = map of_nat [0..<length (take ?n ?es)]"
    by (rule intact_Seq) (rule links_take [OF es(1)])
  then have s: "intact u (rows s u)" "length (rows s u) = ?n"
    using insiderReseal_rows [of "store_Delete u (of_nat ?n) (sy_store sys)" u, unfolded cut] es(2,3)
    unfolding s_def by simp_all
  have listed: "set (store_Tenants s) = insert u (set (store_Tenants (sy_store sys)))"
    by (simp add: s_def rewritten_Tenants)
  obtain r s' where run: "runVerify (sys\<lparr>sy_store := s\<rparr>) = Inr (r, s')"
    using rewritten_store_returns [OF assms(1-5), of s] listed assms(6) built_Tenants [OF assms(1-3,5)] by auto
  have "\<not> report_OK r"
    using rewritten_store_covers [OF assms(1-3,5-7) run] listed s(2) es(3) assms(7) by (cases "logs u") auto
  with s run show ?thesis by blast
qed

text \<open>
  C16 (cmd/demo/main.go, the truncation): deleting a tenant's latest row is caught although no gap
  appears in the sequence and the chain is resealed: the rows left are an intact chain, one
  shorter, and \<open>Verify\<close> returns a report with an issue.
\<close>

theorem deleted_tail_is_reported:
  assumes "distinct order" and "list_all (\<lambda>u. length (logs u) < 2 ^ 45) order"
    and "list_all (reliable (by_name notaries)) notaries" and "list_all answers notaries"
    and "build_from logs order notaries = Inr sys" and "u \<in> set order" and "logs u \<noteq> []"
  defines "s \<equiv> insiderReseal (store_Delete u (of_nat (length (logs u) - 1)) (sy_store sys)) u"
  shows "intact u (rows s u) \<and> length (rows s u) = length (logs u) - 1 \<and>
    (\<exists>r s'. runVerify (sys\<lparr>sy_store := s\<rparr>) = Inr (r, s') \<and> \<not> report_OK r)"
  using assms(1-7) unfolding s_def by (rule deleted_tail_reported)

subsection \<open>Witnesses: the demo's own data\<close>

lemma demo_notaries_ok:
  "list_all (reliable (by_name demo_notaries)) demo_notaries" "list_all answers demo_notaries"
  by (simp_all add: demo_notaries_def mock_iface_def NewMockNotary_def reliable_def attests_def by_name_def
      mock_Stamp_def mock_Verify_def answers_def)

lemma demo_logs:
  "distinct tenantOrder" "list_all (\<lambda>u. length (get_or [] sampleLogs u) < 2 ^ 45) tenantOrder"
  "length (get_or [] sampleLogs ''acme-corp'') = 12" "length (get_or [] sampleLogs ''globex'') = 8"
  by (simp_all add: tenantOrder_def sampleLogs_def get_or_def)

theorem untouched_system_verifies_witness:
  "\<exists>sys s'. demo_build = Inr sys \<and>
    runVerify sys = Inr (\<lparr>Issues = [], EntriesChecked = 20, CheckpointsSeen = 4, ProofsChecked = 8\<rparr>, s')"
  using untouched_system_verifies [OF demo_logs(1,2) demo_notaries_ok(1)]
  unfolding demo_build_def by (simp add: tenantOrder_def demo_logs(3,4) windowSize_def) (simp add: demo_notaries_def)

definition demo_sys :: demo_system where
  "demo_sys = projr demo_build"

lemma demo_sys: "build_from (get_or [] sampleLogs) tenantOrder demo_notaries = Inr demo_sys"
  using build_ok [OF demo_logs(1,2) demo_notaries_ok(1)] by (auto simp: demo_sys_def demo_build_def)

lemma demo_lines:
  "''acme-corp'' \<in> set tenantOrder" "''globex'' \<in> set tenantOrder" "sized ''acme-corp''"
  "list_all line_sized (get_or [] sampleLogs ''acme-corp'')"
  "careful_edit \<noteq> snd (get_or [] sampleLogs ''acme-corp'' ! 8)" "sized careful_edit"
  "naive_edit \<noteq> snd (get_or [] sampleLogs ''acme-corp'' ! 7)" "sized naive_edit"
  "get_or [] sampleLogs ''acme-corp'' \<noteq> []" "get_or [] sampleLogs ''globex'' \<noteq> []"
  by (simp_all add: tenantOrder_def sampleLogs_def careful_edit_def naive_edit_def sized_def line_sized_def get_or_def)

theorem resealed_edit_is_reported_witness:
  "intact ''acme-corp'' (rows (tamper_careful (sy_store demo_sys)) ''acme-corp'') \<and>
    (\<exists>r s'. runVerify (demo_sys\<lparr>sy_store := tamper_careful (sy_store demo_sys)\<rparr>) = Inr (r, s') \<and>
    (if report_OK r
     then history_collision ''acme-corp'' (sort_key Seq (rows (tamper_careful (sy_store demo_sys)) ''acme-corp''))
       (rows (sy_store demo_sys) ''acme-corp'')
     else True))"
  unfolding tamper_careful_def
  by (rule resealed_edit_is_reported [OF demo_logs(1,2) demo_notaries_ok demo_sys]) (simp_all add: demo_lines demo_logs(3))

theorem deleted_tail_is_reported_witness:
  "let s = insiderReseal (store_Delete ''globex'' (of_nat (length (get_or [] sampleLogs ''globex'') - 1)) (sy_store demo_sys)) ''globex''
   in intact ''globex'' (rows s ''globex'') \<and> length (rows s ''globex'') = length (get_or [] sampleLogs ''globex'') - 1 \<and>
    (\<exists>r s'. runVerify (demo_sys\<lparr>sy_store := s\<rparr>) = Inr (r, s') \<and> \<not> report_OK r)"
  unfolding Let_def
  by (rule deleted_tail_is_reported [OF demo_logs(1,2) demo_notaries_ok demo_sys]) (simp_all add: demo_lines)

lemma scenario_report:
  assumes "\<exists>r s'. runVerify (demo_sys\<lparr>sy_store := tamper (sy_store demo_sys)\<rparr>) = Inr (r, s') \<and> P r"
  shows "\<exists>r. scenario tamper = Inr (demo_sys, r) \<and> P r"
  using assms demo_sys by (auto simp: scenario_def demo_build_def)

text \<open>
  C14 (cmd/demo/main.go, main): the walkthrough shows what it says. The program does not panic; its
  baseline verdict is \<open>VERIFIED\<close> with 20 entries, 4 checkpoints and 8 proofs, its last verdict, on
  the truncation, is \<open>TAMPERING DETECTED\<close>, and so are those on the two edits unless the histories
  before and after exhibit a SHA-256 collision.
\<close>

theorem walkthrough_detects_tampering:
  "\<exists>r0 r1 r2 r3. demo_main = Inr (demo_text (showWitnesses demo_sys) r0 r1 r2 r3) \<and>
    r0 = \<lparr>Issues = [], EntriesChecked = 20, CheckpointsSeen = 4, ProofsChecked = 8\<rparr> \<and>
    (if report_OK r1
     then history_collision ''acme-corp'' (sort_key Seq (rows (tamper_naive (sy_store demo_sys)) ''acme-corp''))
       (rows (sy_store demo_sys) ''acme-corp'')
     else True) \<and>
    (if report_OK r2
     then history_collision ''acme-corp'' (sort_key Seq (rows (tamper_careful (sy_store demo_sys)) ''acme-corp''))
       (rows (sy_store demo_sys) ''acme-corp'')
     else True) \<and>
    \<not> report_OK r3"
proof -
  note ok = demo_logs(1,2) demo_notaries_ok
  let ?es = "rows (sy_store demo_sys) ''acme-corp''"
  have "\<exists>s'. runVerify demo_sys = Inr (\<lparr>Issues = [], EntriesChecked = 20, CheckpointsSeen = 4, ProofsChecked = 8\<rparr>, s')"
    using build_verifies [OF ok(1-3)] demo_sys
    by (simp add: tenantOrder_def demo_logs(3,4) windowSize_def) (simp add: demo_notaries_def)
  then have "\<exists>r. scenario id = Inr (demo_sys, r) \<and>
      r = \<lparr>Issues = [], EntriesChecked = 20, CheckpointsSeen = 4, ProofsChecked = 8\<rparr>"
    by (intro scenario_report) simp
  then obtain r0 where r0: "scenario id = Inr (demo_sys, r0)"
    "r0 = \<lparr>Issues = [], EntriesChecked = 20, CheckpointsSeen = 4, ProofsChecked = 8\<rparr>" by blast
  obtain r1 where r1: "scenario tamper_naive = Inr (demo_sys, r1)"
    "if report_OK r1 then history_collision ''acme-corp'' (sort_key Seq (rows (tamper_naive (sy_store demo_sys)) ''acme-corp'')) ?es
     else True"
    using scenario_report [where tamper = tamper_naive, unfolded tamper_naive_def, OF edited_reported [OF ok demo_sys]]
    unfolding tamper_naive_def by (force simp: demo_lines demo_logs(3))
  obtain r2 where r2: "scenario tamper_careful = Inr (demo_sys, r2)"
    "if report_OK r2 then history_collision ''acme-corp'' (sort_key Seq (rows (tamper_careful (sy_store demo_sys)) ''acme-corp'')) ?es
     else True"
    using scenario_report [where tamper = tamper_careful, unfolded tamper_careful_def,
        OF conjunct2 [OF resealed_edit_reported [OF ok demo_sys]]]
    unfolding tamper_careful_def by (force simp: demo_lines demo_logs(3))
  obtain r3 where r3: "scenario tamper_truncate = Inr (demo_sys, r3)" "\<not> report_OK r3"
    using deleted_tail_reported [OF ok demo_sys demo_lines(2,10)] scenario_report [of tamper_truncate "\<lambda>r. \<not> report_OK r"]
    unfolding tamper_truncate_def by (auto simp: demo_logs(4))
  have "demo_main = Inr (demo_text (showWitnesses demo_sys) r0 r1 r2 r3)"
    by (simp add: demo_main_def r0(1) r1(1) r2(1) r3(1))
  with r0(2) r1(2) r2(2) r3(2) show ?thesis by blast
qed

end
