(* ===== verification/Spec2Isabelle.thy ===== *)
theory Spec2Isabelle
  imports Tamper_Evidence Overlaps Demo
begin

text \<open>
  A verification development for multi-log, a tamper-evident log store for several tenants
  written in Go.

  \<^bold>\<open>The program.\<close> A gateway (\<open>cmd/gateway\<close>, \<open>internal/ingest\<close>) accepts log lines for the tenant of
  an API key (\<open>internal/control\<close>), seals each into a hash chain of that tenant and appends it to
  ClickHouse (\<open>internal/logstore\<close>). An anchorer (\<open>cmd/anchorer\<close>, \<open>internal/anchor\<close>) cuts every chain
  into windows and builds a checkpoint of each (\<open>internal/checkpoint\<close>, over the encodings of
  \<open>internal/crypto\<close>), which it writes to a WORM store (\<open>witness/s3worm\<close>), has stamped by notaries
  (\<open>witness/rfc3161\<close>, \<open>witness/opentimestamps\<close>), and copies with the proofs to Postgres
  (\<open>internal/anchorstore\<close>). A verifier (\<open>cmd/verifier\<close>, \<open>internal/verifylive\<close>, \<open>internal/verify\<close>)
  reloads everything and reports every disagreement. A query proxy (\<open>internal/queryapi\<close>) answers
  searches. The notaries and the WORM store are chosen from the environment
  (\<open>internal/witnessbuild\<close>, \<open>internal/config\<close>).

  \<^bold>\<open>Theories and sources.\<close>
  \<^item> \<open>Prelude\<close>: Go's types, errors, panics and association lists. \<open>Std_Hash\<close>: SHA-256 and HMAC,
    executable, and \<open>collides\<close>, an explicit collision between two lists of inputs. \<open>Std_Text\<close>:
    decimal, hexadecimal and base64 text. \<open>Std_Json\<close>: the parts of \<open>encoding/json\<close> in use.
    \<open>Http\<close>: answers, the handlers' authenticator (the locale \<open>key_authenticator\<close>, interpreted on the control
    plane), white space, and values of type \<open>any\<close>. \<open>Json_Text\<close>: what a client that parses an
    answer gets back. \<open>Serve_Mux\<close>: requests and the dispatch of \<open>net/http\<close>.
  \<^item> \<open>Canonical\<close> (\<open>crypto/canonical.go\<close>): the encoder with its length prefixes, entry leaves, chain
    hashes and checkpoint ids. The encodings are injective and separated by domain, so equal
    hashes mean equal fields or a collision.
  \<^item> \<open>Chain\<close> (\<open>chain/store.go\<close>, \<open>chain/sealer.go\<close>): the in-memory store and sealer; \<open>intact\<close> is the
    invariant of a sealed chain. \<open>Merkle\<close> (\<open>checkpoint/merkle.go\<close>) and \<open>Checkpoint\<close>
    (\<open>checkpoint/checkpoint.go\<close>): the root by levels equals the recursive tree root; a checkpoint
    id commits to its window.
  \<^item> \<open>Witness\<close> (\<open>witness/witness.go\<close>): the interfaces as locales (\<open>notary_contract\<close>, \<open>worm_store\<close>), the
    proof ledger, \<open>MemStore\<close> and \<open>MockNotary\<close>, which interpret them.
  \<^item> \<open>Verify\<close>, \<open>Verify_Props\<close> (\<open>verify/verify.go\<close>): the checks of a chain and of its checkpoints,
    what a clean report implies and what each kind of tampering makes it say.
  \<^item> \<open>Codec\<close> (\<open>checkpoint/codec.go\<close>), \<open>S3_Worm\<close> (\<open>witness/s3worm/s3worm.go\<close>): stored documents, and
    the S3 store over a client; the locale \<open>object_store\<close> states what S3 documents, and gives
    \<open>worm_store\<close> by a \<open>sublocale\<close>.
  \<^item> \<open>Ots_Wire\<close>, \<open>Ots_Notary\<close> (\<open>witness/opentimestamps\<close>), \<open>Rfc3161\<close> (\<open>witness/rfc3161/rfc3161.go\<close>):
    proof files with their serializer and parser, and the two notaries, which interpret
    \<open>notary_contract\<close>.
  \<^item> \<open>Log_Store\<close> (\<open>logstore/clickhouse.go\<close>), \<open>Ingest_Sealer\<close> (\<open>ingest/sealer.go\<close>), \<open>Anchor_Store\<close>
    (\<open>anchorstore/anchorstore.go\<close>), \<open>Anchor\<close> (\<open>anchor/anchor.go\<close>), \<open>Verify_Live\<close>
    (\<open>verifylive/verifylive.go\<close>): the data plane. The log store is the locale \<open>log_store\<close>, interpreted
    on the ClickHouse model. \<open>live_run\<close> in \<open>Verify_Live\<close> is the transition system of the whole.
  \<^item> \<open>Witness_Build\<close> (\<open>witnessbuild/witnessbuild.go\<close>, \<open>config/config.go\<close>), \<open>Control\<close>
    (\<open>control/control.go\<close>), \<open>Control_Api\<close> (\<open>cmd/controlplane/main.go\<close>), \<open>Gateway\<close>
    (\<open>ingest/handler.go\<close>), \<open>Query_Api\<close> (\<open>queryapi/handler.go\<close>), \<open>Verifier_Api\<close>
    (\<open>cmd/verifier/main.go\<close>, \<open>cmd/anchorer/main.go\<close>): the handlers around it. \<open>Startup\<close>: settings,
    connections, tables and the \<open>main\<close> of every service up to listening. \<open>Services\<close>: the routes of the five
    services, and a tick of the two background loops. \<open>Deployment\<close>: the transition system of all
    services together, driven by HTTP requests, ticks and restarts. \<open>Anchor_Progress\<close>: what one
    anchoring run reaches. \<open>Tamper_Evidence\<close>: what a verifier's answer proves when both databases
    have been replaced. \<open>Withheld_Proofs\<close>: a verification before and after the proof table is
    emptied. \<open>Overlaps\<close>: two anchoring runs at once, and a verification overtaken by one. \<open>Demo\<close>
    (\<open>cmd/demo/main.go\<close>): the walkthrough over the in-memory components, for any logs and notaries
    and for its own data.

  \<^bold>\<open>How it is modelled.\<close> Structs are records with the source's fields, strings and byte slices
  lists of bytes, \<open>uint64\<close> and \<open>int64\<close> 64-bit words, errors values of \<open>error\<close>; a panic or a
  loop that does not end is a \<open>fault\<close>. Stateful operations take and return the state they change.
  Every call to a server may fail: a read takes the error it ends with, a write its fate
  (\<open>write_ack\<close>: acknowledged, refused, or applied without the client knowing). Hash functions are
  computed, not assumed: security statements conclude with a collision that their inputs exhibit.
  Code outside the repository is a parameter: RIPEMD-160, the timestamp library, the HTTP and S3
  clients, random bytes, and of the standard library the parsing and formatting of times,
  durations and floating-point numbers. The mutexes are the order of the calls.

  \<^bold>\<open>What is shown.\<close> The composition: in every reachable state of gateway, anchorer and stores, with
  failures and restarts, verification reports nothing and counts exactly what clients were told was
  accepted (\<open>accepted_entries_are_verified\<close>, over HTTP; \<open>live_data_plane_verifies\<close> below it); an
  anchoring run without failures covers all of it (\<open>anchoring_reaches_what_was_accepted\<close>); and if
  verification reports nothing, the anchored rows are unaltered or a collision is exhibited
  (\<open>clean_live_report_means_rows_unaltered\<close>), over HTTP whatever the two databases have become
  (\<open>answer_200_proves_rows_unaltered\<close>). Requests seal exactly their lines under the tenant of their
  key, and answers hold rows of that tenant only. The stores are append-only, the notaries' proofs
  bind their id, and documents and proof files survive a round trip. Several theorems fix ways in
  which the code falls short of its comments: a wiped tenant is not noticed, nor are withheld
  proofs; long tenants, lost working copies and overlapping runs raise false alarms; unacknowledged
  writes fork a chain; a proof nobody stamped is accepted; a proof file can panic the parser;
  racing or nested writes to S3 mix up checkpoints.

  \<^bold>\<open>Bounds and fuel.\<close> The JSON parser has fuel above twice the length of its input and the proof
  file parser fuel above its length; both are proved to be enough. A batch has at most \<open>2^24\<close>
  records because a body is cut at 16 MB (\<open>batch_size\<close> in \<open>Gateway\<close>). Runs are followed up to
  \<open>2^63\<close> records in all, so that sequence numbers do not wrap; clean verification needs at most
  100000 rows a tenant, because the code reads no more.

  \<^bold>\<open>Not modelled.\<close> What only touches the operating system or the network: accepting connections,
  the life of goroutines and contexts, when a ticker fires (ticks come in any order), pinging and
  closing connections, the time-outs of HTTP clients; the headers of answers apart from the
  content type; requests in asterisk form; the tests and the deployment files. Concurrent
  requests are taken one after the other, apart from the races in \<open>S3_Worm\<close> and \<open>Overlaps\<close>.
\<close>

end
